(* ===== verification/Prelude.thy ===== *)
theory Prelude
  imports Main "HOL-Library.Word"
begin

text \<open>
  Shared vocabulary of the development: the failure values of the C++ program (a
  LOG_FATAL exit, an uncaught exception, undefined behaviour) and the sequencing of
  fallible operations; \<open>size_t\<close> arithmetic at its width; the raw memory of a
  \<open>std::vector<char>\<close>; the list facts the components share; and the contract of a
  transition system with an invariant, which the concurrent components interpret.
\<close>

section \<open>Failures and fallible operations\<close>

text \<open>
  \<open>Exit\<close> is the macro LOG_FATAL (the message is logged and the process ends with
  \<open>exit(-1)\<close>), \<open>Throw\<close> an exception of the standard library that nothing in the code
  catches, \<open>UB\<close> behaviour the C++ standard leaves undefined.
\<close>

datatype failure = Exit string | Throw string | UB string

type_synonym 'a res = "failure + 'a"

fun bindR :: "'a res \<Rightarrow> ('a \<Rightarrow> 'b res) \<Rightarrow> 'b res" where
  "bindR (Inl e) f = Inl e"
| "bindR (Inr x) f = f x"

named_theorems res_simps "inversion of fallible computations"

lemma bindR_Inr_iff [res_simps]: "bindR m f = Inr y \<longleftrightarrow> (\<exists>x. m = Inr x \<and> f x = Inr y)"
  by (cases m) auto

lemma bindR_Inl_iff [res_simps]:
  "bindR m f = Inl e \<longleftrightarrow> m = Inl e \<or> (\<exists>x. m = Inr x \<and> f x = Inl e)"
  by (cases m) auto

lemma bindR_assoc: "bindR (bindR m f) g = bindR m (\<lambda>x. bindR (f x) g)"
  by (cases m) auto

lemma bindR_Inr_right [simp]: "bindR m Inr = m"
  by (cases m) auto

lemma bindR_InrE:
  assumes "bindR m f = Inr y"
  obtains x where "m = Inr x" and "f x = Inr y"
  using assms by (auto simp: bindR_Inr_iff)

lemma bindR_preserves:
  assumes "bindR m f = Inr y" and "\<And>x. m = Inr x \<Longrightarrow> P x"
    and "\<And>x. P x \<Longrightarrow> f x = Inr y \<Longrightarrow> Q y"
  shows "Q y"
  using assms by (auto simp: bindR_Inr_iff)

text \<open>A loop over a container whose body may fail: it stops at the first failure.\<close>

fun foldR :: "('a \<Rightarrow> 's \<Rightarrow> 's res) \<Rightarrow> 'a list \<Rightarrow> 's \<Rightarrow> 's res" where
  "foldR f [] s = Inr s"
| "foldR f (x # xs) s = bindR (f x s) (foldR f xs)"

lemma foldR_Nil_fun [simp]: "foldR f [] = Inr"
  by (rule ext) simp

lemma foldR_append: "foldR f (xs @ ys) s = bindR (foldR f xs s) (foldR f ys)"
proof (induction xs arbitrary: s)
  case Nil
  then show ?case by simp
next
  case (Cons x xs)
  then show ?case by (cases "f x s") auto
qed

lemma foldR_invariant:
  assumes "foldR f xs s = Inr t" and "P s"
    and "\<And>x s t. x \<in> set xs \<Longrightarrow> P s \<Longrightarrow> f x s = Inr t \<Longrightarrow> P t"
  shows "P t"
  using assms
proof (induction xs arbitrary: s)
  case Nil
  then show ?case by simp
next
  case (Cons x xs)
  from Cons.prems(1) obtain u where u: "f x s = Inr u" "foldR f xs u = Inr t"
    by (auto simp: bindR_Inr_iff)
  from Cons.prems(2,3) u(1) have "P u" by auto
  with u(2) Cons.prems(3) show ?case by (auto intro: Cons.IH)
qed

lemma foldR_total:
  assumes "P s" and "\<And>x s. x \<in> set xs \<Longrightarrow> P s \<Longrightarrow> \<exists>t. f x s = Inr t \<and> P t"
  shows "\<exists>t. foldR f xs s = Inr t \<and> P t"
  using assms
proof (induction xs arbitrary: s)
  case Nil
  then show ?case by simp
next
  case (Cons x xs)
  from Cons.prems obtain u where "f x s = Inr u" "P u" by force
  moreover have "\<exists>t. foldR f xs u = Inr t \<and> P t"
    using Cons.prems(2) \<open>P u\<close> by (intro Cons.IH) auto
  ultimately show ?case by auto
qed

section \<open>Running out of memory\<close>

text \<open>
  \<open>safely m P\<close>: the computation \<open>m\<close> ends in a state where \<open>P\<close> holds, unless a vector would have
  to grow beyond \<open>max_size()\<close>. Every other failure is excluded.
\<close>

definition safely :: "'a res \<Rightarrow> ('a \<Rightarrow> bool) \<Rightarrow> bool" where
  "safely m P = (case m of Inr x \<Rightarrow> P x | Inl e \<Rightarrow> e = Throw ''length_error'')"

lemma safely_simps [simp]:
  "safely (Inr x) P = P x" "safely (Inl e) P \<longleftrightarrow> e = Throw ''length_error''"
  by (simp_all add: safely_def)

lemma safely_bind [simp]: "safely (bindR m f) P \<longleftrightarrow> safely m (\<lambda>x. safely (f x) P)"
  by (cases m) simp_all

lemma safely_mono: "safely m P \<Longrightarrow> (\<And>x. m = Inr x \<Longrightarrow> P x \<Longrightarrow> Q x) \<Longrightarrow> safely m Q"
  by (cases m) simp_all

lemma safely_total: "\<exists>x. m = Inr x \<and> P x \<Longrightarrow> safely m P"
  by auto

lemma safely_Inr_D: "safely m P \<Longrightarrow> m = Inr x \<Longrightarrow> P x"
  by simp

lemma safely_conj: "safely m P \<Longrightarrow> safely m Q \<Longrightarrow> safely m (\<lambda>x. P x \<and> Q x)"
  by (cases m) simp_all

lemma safely_foldR:
  assumes "P s" and "\<And>x s. x \<in> set xs \<Longrightarrow> P s \<Longrightarrow> safely (f x s) P"
  shows "safely (foldR f xs s) P"
  using assms
proof (induction xs arbitrary: s)
  case Nil
  then show ?case by simp
next
  case (Cons x xs)
  then have "safely (f x s) P" by simp
  then show ?case by (simp, elim safely_mono) (use Cons in auto)
qed

text \<open>\<open>ends m P\<close>: whatever \<open>m\<close> ends in satisfies \<open>P\<close>; nothing is said of failures.\<close>

definition ends :: "'a res \<Rightarrow> ('a \<Rightarrow> bool) \<Rightarrow> bool" where
  "ends m P = (case m of Inr x \<Rightarrow> P x | Inl e \<Rightarrow> True)"

named_theorems ends_rules "decomposition of computations that keep a property"

lemma ends_simps [simp]: "ends (Inr x) P = P x" "ends (Inl e) P"
  by (simp_all add: ends_def)

lemma ends_bind: "ends (bindR m f) P \<longleftrightarrow> ends m (\<lambda>x. ends (f x) P)"
  by (cases m) simp_all

lemma safely_ends: "safely m P \<Longrightarrow> ends m Q \<Longrightarrow> safely m (\<lambda>x. P x \<and> Q x)"
  by (cases m) simp_all

lemma ends_mono: "ends m P \<Longrightarrow> (\<And>x. P x \<Longrightarrow> Q x) \<Longrightarrow> ends m Q"
  by (cases m) simp_all

lemma ends_conj: "ends m P \<Longrightarrow> ends m Q \<Longrightarrow> ends m (\<lambda>x. P x \<and> Q x)"
  by (cases m) simp_all

lemma ends_D: "ends m P \<Longrightarrow> m = Inr x \<Longrightarrow> P x"
  by simp

lemma ends_seq: "ends m P \<Longrightarrow> (\<And>x. P x \<Longrightarrow> ends (f x) Q) \<Longrightarrow> ends (bindR m f) Q"
  by (auto simp: ends_bind elim: ends_mono)

lemma ends_value: "(\<And>x. ends (f x) Q) \<Longrightarrow> ends (bindR m f) Q"
  by (rule ends_seq[where P = "\<lambda>_. True"]) (cases m, simp_all)

lemma ends_if [ends_rules]:
  "(b \<Longrightarrow> ends x P) \<Longrightarrow> (\<not> b \<Longrightarrow> ends y P) \<Longrightarrow> ends (if b then x else y) P"
  by simp

lemma ends_option [ends_rules]:
  "(x = None \<Longrightarrow> ends f P) \<Longrightarrow> (\<And>y. x = Some y \<Longrightarrow> ends (g y) P) \<Longrightarrow>
   ends (case x of None \<Rightarrow> f | Some y \<Rightarrow> g y) P"
  by (cases x) simp_all

lemma ends_pair [ends_rules]: "(\<And>a b. x = (a, b) \<Longrightarrow> ends (f a b) P) \<Longrightarrow> ends (case x of (a, b) \<Rightarrow> f a b) P"
  by (cases x) simp

lemma ends_foldR:
  assumes "P s" and "\<And>x s. x \<in> set xs \<Longrightarrow> P s \<Longrightarrow> ends (f x s) P"
  shows "ends (foldR f xs s) P"
  using assms
proof (induction xs arbitrary: s)
  case Nil
  then show ?case by simp
next
  case (Cons x xs)
  then have "ends (f x s) P" by simp
  then show ?case by (simp only: foldR.simps, elim ends_seq) (use Cons in auto)
qed

section \<open>Unsigned sizes\<close>

text \<open>
  \<open>size_t\<close> has 64 bits on the platform of the build (its CMake files name an x86_64
  Linux): sums and differences are taken modulo \<open>2 ^ 64\<close>. A \<open>std::vector<char>\<close> holds at
  most \<open>PTRDIFF_MAX = 2 ^ 63 - 1\<close> elements.
\<close>

definition size_mod :: nat where
  "size_mod = 18446744073709551616"

definition vec_max :: nat where
  "vec_max = 9223372036854775807"

definition sz_add :: "nat \<Rightarrow> nat \<Rightarrow> nat" where
  "sz_add a b = (a + b) mod size_mod"

definition sz_sub :: "nat \<Rightarrow> nat \<Rightarrow> nat" where
  "sz_sub a b = (a + (size_mod - b mod size_mod)) mod size_mod"

named_theorems size_simps "size_t arithmetic that does not wrap"

lemma vec_max_size_mod: "vec_max + vec_max < size_mod" "vec_max < size_mod" "65544 < vec_max"
  by (simp_all add: vec_max_def size_mod_def)

lemma sz_add_small [size_simps]: "a + b < size_mod \<Longrightarrow> sz_add a b = a + b"
  by (simp add: sz_add_def)

lemma sz_sub_small [size_simps]:
  assumes "b \<le> a" and "a < size_mod"
  shows "sz_sub a b = a - b"
proof -
  have "a + (size_mod - b mod size_mod) = (a - b) + size_mod" using assms by simp
  then have "sz_sub a b = ((a - b) + size_mod) mod size_mod" by (simp only: sz_sub_def)
  also have "\<dots> = a - b" using assms by (simp only: mod_add_self2) simp
  finally show ?thesis .
qed

lemma sz_sub_wraps: "a < b \<Longrightarrow> b < size_mod \<Longrightarrow> sz_sub a b = size_mod - (b - a)"
  by (simp add: sz_sub_def)

section \<open>Byte memory of a vector\<close>

text \<open>
  Pointers into a vector are offsets from its first element. A read or write that leaves
  the elements is undefined behaviour, and so is a \<open>std::copy\<close> whose destination starts
  inside the source range; \<open>resize\<close> beyond \<open>max_size()\<close> throws.
\<close>

definition mem_read :: "char list \<Rightarrow> nat \<Rightarrow> nat \<Rightarrow> char list res" where
  "mem_read xs off n =
     (if off + n \<le> length xs then Inr (take n (drop off xs)) else Inl (UB ''read out of bounds''))"

definition mem_write :: "char list \<Rightarrow> nat \<Rightarrow> char list \<Rightarrow> char list res" where
  "mem_write xs off ys =
     (if off + length ys \<le> length xs
      then Inr (take off xs @ ys @ drop (off + length ys) xs)
      else Inl (UB ''write out of bounds''))"

definition vec_new :: "nat \<Rightarrow> char list res" where
  "vec_new n = (if n \<le> vec_max then Inr (replicate n (CHR 0x00)) else Inl (Throw ''length_error''))"

definition vec_resize :: "nat \<Rightarrow> char list \<Rightarrow> char list res" where
  "vec_resize n xs =
     (if n \<le> vec_max then Inr (take n xs @ replicate (n - length xs) (CHR 0x00))
      else Inl (Throw ''length_error''))"

fun copy_loop :: "nat \<Rightarrow> nat \<Rightarrow> nat \<Rightarrow> 'a list \<Rightarrow> 'a list" where
  "copy_loop 0 src dst xs = xs"
| "copy_loop (Suc n) src dst xs = copy_loop n (Suc src) (Suc dst) (xs[dst := xs ! src])"

definition std_copy :: "char list \<Rightarrow> nat \<Rightarrow> nat \<Rightarrow> nat \<Rightarrow> char list res" where
  "std_copy xs beg fin d =
     (if beg \<le> d \<and> d < fin then Inl (UB ''overlapping std::copy'')
      else if beg \<le> fin \<and> fin \<le> length xs \<and> d + (fin - beg) \<le> length xs
      then Inr (copy_loop (fin - beg) beg d xs)
      else Inl (UB ''std::copy out of bounds''))"

lemma length_copy_loop [simp]: "length (copy_loop n src dst xs) = length xs"
  by (induction n src dst xs rule: copy_loop.induct) auto

text \<open>
  The loop reads each source element before a later iteration can overwrite it, as long as
  it copies towards the front: every element ends up with its value before the loop.
\<close>

lemma nth_copy_loop:
  "dst < src \<Longrightarrow> src + n \<le> length xs \<Longrightarrow> i < length xs \<Longrightarrow>
   copy_loop n src dst xs ! i = (if dst \<le> i \<and> i < dst + n then xs ! (src + (i - dst)) else xs ! i)"
proof (induction n src dst xs rule: copy_loop.induct)
  case (1 src dst xs)
  then show ?case by auto
next
  case (2 n src dst xs)
  then have "copy_loop n (Suc src) (Suc dst) (xs[dst := xs ! src]) ! i =
      (if Suc dst \<le> i \<and> i < Suc dst + n then xs[dst := xs ! src] ! (Suc src + (i - Suc dst))
       else xs[dst := xs ! src] ! i)"
    by (intro "2.IH") simp_all
  with "2.prems" show ?case by (cases "i = dst") (auto simp: Suc_diff_Suc nth_list_update)
qed

lemma mem_write_Inr [simp]:
  "off + length ys \<le> length xs \<Longrightarrow>
   mem_write xs off ys = Inr (take off xs @ ys @ drop (off + length ys) xs)"
  by (simp add: mem_write_def)

lemma mem_read_Inr [simp]:
  "off + n \<le> length xs \<Longrightarrow> mem_read xs off n = Inr (take n (drop off xs))"
  by (simp add: mem_read_def)

lemma take_drop_overwrite:
  "r \<le> w \<Longrightarrow> w + length ys \<le> length xs \<Longrightarrow>
   take (w + length ys - r) (drop r (take w xs @ ys @ drop (w + length ys) xs)) =
   take (w - r) (drop r xs) @ ys"
  by (simp add: take_append drop_append drop_take)

section \<open>Decimal numerals\<close>

text \<open>
  \<open>std::to_string\<close> of an \<open>int\<close>. Two numbers never print alike, which is what the names built
  from counters rest on.
\<close>

definition digit_char :: "nat \<Rightarrow> char" where
  "digit_char d = char_of (48 + d)"

fun dec :: "nat \<Rightarrow> string" where
  "dec n = (if n < 10 then [digit_char n] else dec (n div 10) @ [digit_char (n mod 10)])"

declare dec.simps [simp del]

definition to_string :: "int \<Rightarrow> string" where
  "to_string i = (if i < 0 then CHR ''-'' # dec (nat (- i)) else dec (nat i))"

definition undec :: "string \<Rightarrow> nat" where
  "undec = foldl (\<lambda>a c. 10 * a + (of_char c - 48)) 0"

lemma of_digit_char [simp]: "d < 10 \<Longrightarrow> of_char (digit_char d) = 48 + d"
  by (simp add: digit_char_def)

lemma undec_dec [simp]: "undec (dec n) = n"
proof (induction n rule: dec.induct)
  case (1 n)
  then show ?case by (cases "n < 10") (simp_all add: dec.simps[of n] undec_def)
qed

lemma dec_inject [simp]: "dec m = dec n \<longleftrightarrow> m = n"
  by (metis undec_dec)

lemma dec_not_Nil [simp]: "dec n \<noteq> []"
  by (simp add: dec.simps[of n])

lemma length_dec_1: "n < 10 \<Longrightarrow> length (dec n) = 1"
  by (simp add: dec.simps [of n])

lemma length_dec_Suc: "10 \<le> n \<Longrightarrow> length (dec n) = Suc (length (dec (n div 10)))"
  by (simp add: dec.simps [of n])

lemma length_dec_le: "n < 10 ^ k \<Longrightarrow> 0 < k \<Longrightarrow> length (dec n) \<le> k"
proof (induction k arbitrary: n)
  case (Suc k)
  show ?case
  proof (cases "n < 10")
    case False
    with Suc.prems have "n div 10 < 10 ^ k" "0 < k" by (auto simp: less_mult_imp_div_less mult.commute intro: gr0I)
    with Suc.IH [of "n div 10"] False show ?thesis by (simp add: length_dec_Suc)
  qed (simp add: length_dec_1)
qed simp

lemma dec_digits: "c \<in> set (dec n) \<Longrightarrow> 48 \<le> (of_char c :: nat) \<and> (of_char c :: nat) < 58"
proof (induction n rule: dec.induct)
  case (1 n)
  then show ?case by (cases "n < 10") (auto simp: dec.simps[of n])
qed

lemma dec_not_minus: "CHR ''-'' # xs \<noteq> dec n"
proof
  assume "CHR ''-'' # xs = dec n"
  then have "CHR ''-'' \<in> set (dec n)" by (metis list.set_intros(1))
  then show False by (auto dest: dec_digits)
qed

lemma to_string_inject [simp]: "to_string i = to_string j \<longleftrightarrow> i = j"
  using dec_not_minus dec_not_minus[symmetric] by (auto simp: to_string_def)

section \<open>Transition systems with an invariant\<close>

text \<open>
  The contract shared by the concurrent components: \<open>step\<close> is one atomic action of some
  thread, \<open>inv\<close> a property of the initial states that every action keeps.
\<close>

inductive reach :: "('s \<Rightarrow> bool) \<Rightarrow> ('s \<Rightarrow> 's \<Rightarrow> bool) \<Rightarrow> 's \<Rightarrow> bool"
  for init :: "'s \<Rightarrow> bool" and step :: "'s \<Rightarrow> 's \<Rightarrow> bool" where
  reach_init: "init s \<Longrightarrow> reach init step s"
| reach_step: "reach init step s \<Longrightarrow> step s t \<Longrightarrow> reach init step t"

lemma reach_steps: "step\<^sup>*\<^sup>* s t \<Longrightarrow> reach init step s \<Longrightarrow> reach init step t"
  by (induction rule: rtranclp_induct) (auto intro: reach_step)

locale safe_machine =
  fixes init :: "'s \<Rightarrow> bool" and step :: "'s \<Rightarrow> 's \<Rightarrow> bool" and inv :: "'s \<Rightarrow> bool"
  assumes inv_init: "init s \<Longrightarrow> inv s"
    and inv_step: "inv s \<Longrightarrow> step s t \<Longrightarrow> inv t"
begin

lemma reach_inv: "reach init step s \<Longrightarrow> inv s"
  by (induction rule: reach.induct) (auto intro: inv_init inv_step)

lemma steps_inv: "step\<^sup>*\<^sup>* s t \<Longrightarrow> inv s \<Longrightarrow> inv t"
  by (induction rule: rtranclp_induct) (auto intro: inv_step)

end

text \<open>
  A concrete system that an abstract one simulates step by step: what holds along every
  abstract run holds along every concrete run, through the relation.
\<close>

locale forward_simulation =
  fixes cstep :: "'c \<Rightarrow> 'c \<Rightarrow> bool" and astep :: "'a \<Rightarrow> 'a \<Rightarrow> bool" and rel :: "'a \<Rightarrow> 'c \<Rightarrow> bool"
  assumes simulates: "rel a c \<Longrightarrow> cstep c c' \<Longrightarrow> \<exists>a'. astep a a' \<and> rel a' c'"
begin

lemma simulates_runs: "cstep\<^sup>*\<^sup>* c c' \<Longrightarrow> rel a c \<Longrightarrow> \<exists>a'. astep\<^sup>*\<^sup>* a a' \<and> rel a' c'"
proof (induction rule: rtranclp_induct)
  case base
  then show ?case by blast
next
  case (step y z)
  then obtain a1 where "astep\<^sup>*\<^sup>* a a1" "rel a1 y" by blast
  with simulates[OF this(2) step(2)] show ?case by (blast intro: rtranclp.rtrancl_into_rtrancl)
qed

end

end
