(* ===== verification/Posix.thy ===== *)
theory Posix
  imports Prelude
begin

text \<open>
  The operating system is not part of the repository: every system call the code makes is
  a parameter. A socket call is a function of what happened on the descriptor before (a
  history of calls and answers), an \<open>epoll_ctl\<close> call a function of the calls made on the
  epoll instance before; the record \<open>os\<close> collects them, and the definitions of the other
  theories take it as an argument. What the code relies on is stated by the predicates
  \<open>write_doc\<close>, \<open>readv_doc\<close> and \<open>ctl_doc\<close>, after the man pages.
\<close>

datatype errno = EWOULDBLOCK | EPIPE | ECONNRESET | EINTR | EMFILE | EOTHER nat

datatype 'a sys = SysOk 'a | SysErr errno

type_synonym fd = int

section \<open>Stream sockets\<close>

datatype sock_io =
    Wrote "char list" "nat sys"
  | Got "nat list" "char list sys"
  | ShutWr bool

section \<open>Epoll instances\<close>

datatype ctl_op = EPOLL_CTL_ADD | EPOLL_CTL_MOD | EPOLL_CTL_DEL

type_synonym ptr = nat

text \<open>The \<open>epoll_event\<close> of a call carries the mask and, in its data, the channel pointer.\<close>

record ctl =
  ctl_op :: ctl_op
  ctl_fd :: fd
  ctl_events :: "32 word"
  ctl_ptr :: ptr

type_synonym ctl_history = "(ctl \<times> bool) list"

record os =
  sys_write :: "fd \<Rightarrow> sock_io list \<Rightarrow> char list \<Rightarrow> nat sys"
  sys_readv :: "fd \<Rightarrow> sock_io list \<Rightarrow> nat list \<Rightarrow> char list sys"
  sys_shutdown :: "fd \<Rightarrow> sock_io list \<Rightarrow> bool"
  sys_epoll_ctl :: "ctl_history \<Rightarrow> ctl \<Rightarrow> bool"

definition write_doc :: "os \<Rightarrow> bool" where
  "write_doc os \<longleftrightarrow> (\<forall>fd h d n. sys_write os fd h d = SysOk n \<longrightarrow> n \<le> length d)"

definition readv_doc :: "os \<Rightarrow> bool" where
  "readv_doc os \<longleftrightarrow>
     (\<forall>fd h lens d. sys_readv os fd h lens = SysOk d \<longrightarrow> length d \<le> sum_list lens)"

lemma write_docD: "write_doc os \<Longrightarrow> sys_write os fd h d = SysOk n \<Longrightarrow> n \<le> length d"
  by (auto simp: write_doc_def)

lemma readv_docD: "readv_doc os \<Longrightarrow> sys_readv os fd h lens = SysOk d \<Longrightarrow> length d \<le> sum_list lens"
  by (auto simp: readv_doc_def)

text \<open>
  The interest list that a history of \<open>epoll_ctl\<close> calls leaves behind: the manual page says
  that EPOLL_CTL_ADD fails with EEXIST on a registered descriptor, EPOLL_CTL_MOD and
  EPOLL_CTL_DEL with ENOENT on an unregistered one, and that a call that fails changes nothing.
\<close>

type_synonym interest = "fd \<rightharpoonup> 32 word \<times> ptr"

definition ctl_valid :: "interest \<Rightarrow> ctl \<Rightarrow> bool" where
  "ctl_valid m c = (case ctl_op c of EPOLL_CTL_ADD \<Rightarrow> m (ctl_fd c) = None
                                   | _ \<Rightarrow> m (ctl_fd c) \<noteq> None)"

definition ctl_apply :: "ctl \<Rightarrow> interest \<Rightarrow> interest" where
  "ctl_apply c m = (case ctl_op c of
       EPOLL_CTL_DEL \<Rightarrow> m(ctl_fd c := None)
     | _ \<Rightarrow> m(ctl_fd c \<mapsto> (ctl_events c, ctl_ptr c)))"

fun interest_of :: "ctl_history \<Rightarrow> interest" where
  "interest_of [] = Map.empty"
| "interest_of ((c, ok) # h) = (if ok then ctl_apply c (interest_of h) else interest_of h)"

definition ctl_doc :: "os \<Rightarrow> bool" where
  "ctl_doc os \<longleftrightarrow> (\<forall>h c. sys_epoll_ctl os h c = ctl_valid (interest_of h) c)"

lemma ctl_docD: "ctl_doc os \<Longrightarrow> sys_epoll_ctl os h c = ctl_valid (interest_of h) c"
  by (simp add: ctl_doc_def)

text \<open>
  A system that behaves as documented, for the witnesses: it accepts every write in full
  up to four bytes, delivers "ping" to every read that has room for it, and keeps the
  interest list.
\<close>

definition sample_os :: os where
  "sample_os =
     \<lparr>sys_write = (\<lambda>fd h d. SysOk (min 4 (length d))),
      sys_readv = (\<lambda>fd h lens. SysOk (take (sum_list lens) ''ping'')),
      sys_shutdown = (\<lambda>fd h. True),
      sys_epoll_ctl = (\<lambda>h c. ctl_valid (interest_of h) c)\<rparr>"

lemma sample_os_doc [simp]: "write_doc sample_os" "readv_doc sample_os" "ctl_doc sample_os"
  by (auto simp: write_doc_def readv_doc_def ctl_doc_def sample_os_def)

end
