(* ===== verification/Buffer.thy ===== *)
theory Buffer
  imports Posix
begin

text \<open>
  The byte buffer of \<open>include/Buffer.h\<close> and \<open>src/Buffer.cpp\<close>: the vector and its two
  indices, every operation with its guards and its \<open>size_t\<close> arithmetic, pointers as offsets
  into the vector. The lemmas show that under \<open>buffer_ok\<close> no operation leaves the vector,
  and what each does to \<open>content\<close>, the readable bytes; the locale \<open>byte_queue\<close> is the
  contract a client of the buffer relies on.
\<close>

section \<open>State and operations\<close>

record buffer =
  vec :: "char list"
  readerIndex :: nat
  writerIndex :: nat

definition kCheapPrepend :: nat where
  "kCheapPrepend = 8"

definition kInitialSize :: nat where
  "kInitialSize = 1024"

definition Buffer_new :: "nat \<Rightarrow> buffer res" where
  "Buffer_new initialSize =
     bindR (vec_new (sz_add kCheapPrepend initialSize)) (\<lambda>v.
       Inr \<lparr>vec = v, readerIndex = kCheapPrepend, writerIndex = kCheapPrepend\<rparr>)"

definition readableBytes :: "buffer \<Rightarrow> nat" where
  "readableBytes b = sz_sub (writerIndex b) (readerIndex b)"

definition writableBytes :: "buffer \<Rightarrow> nat" where
  "writableBytes b = sz_sub (length (vec b)) (writerIndex b)"

definition prependableBytes :: "buffer \<Rightarrow> nat" where
  "prependableBytes b = readerIndex b"

definition peek :: "buffer \<Rightarrow> nat" where
  "peek b = readerIndex b"

definition beginWrite :: "buffer \<Rightarrow> nat" where
  "beginWrite b = writerIndex b"

definition retrieveAll :: "buffer \<Rightarrow> buffer" where
  "retrieveAll b = b\<lparr>readerIndex := kCheapPrepend, writerIndex := kCheapPrepend\<rparr>"

definition Buffer_retrieve :: "nat \<Rightarrow> buffer \<Rightarrow> buffer" where
  "Buffer_retrieve len b =
     (if len < readableBytes b then b\<lparr>readerIndex := sz_add (readerIndex b) len\<rparr>
      else retrieveAll b)"

definition retrieveAsString :: "nat \<Rightarrow> buffer \<Rightarrow> (string \<times> buffer) res" where
  "retrieveAsString len b =
     (if len > readableBytes b then Inl (Exit ''read %d bytes out of range!'')
      else bindR (mem_read (vec b) (peek b) len) (\<lambda>result. Inr (result, Buffer_retrieve len b)))"

definition retrieveAllAsString :: "buffer \<Rightarrow> (string \<times> buffer) res" where
  "retrieveAllAsString b = retrieveAsString (readableBytes b) b"

definition makeSpace :: "nat \<Rightarrow> buffer \<Rightarrow> buffer res" where
  "makeSpace len b =
     (if sz_sub (sz_add (writableBytes b) (prependableBytes b)) kCheapPrepend < len
      then bindR (vec_resize (sz_add (writerIndex b) len) (vec b)) (\<lambda>v. Inr (b\<lparr>vec := v\<rparr>))
      else (let readable = readableBytes b in
        bindR (std_copy (vec b) (readerIndex b) (writerIndex b) kCheapPrepend) (\<lambda>v.
          Inr (b\<lparr>vec := v, readerIndex := kCheapPrepend,
                 writerIndex := sz_add kCheapPrepend readable\<rparr>))))"

definition ensureWriteableBytes :: "nat \<Rightarrow> buffer \<Rightarrow> buffer res" where
  "ensureWriteableBytes len b = (if writableBytes b < len then makeSpace len b else Inr b)"

definition Buffer_append :: "char list \<Rightarrow> nat \<Rightarrow> buffer \<Rightarrow> buffer res" where
  "Buffer_append data len b =
     bindR (ensureWriteableBytes len b) (\<lambda>b1.
     bindR (mem_read data 0 len) (\<lambda>d.
     bindR (mem_write (vec b1) (beginWrite b1) d) (\<lambda>v.
       Inr (b1\<lparr>vec := v, writerIndex := sz_add (writerIndex b1) len\<rparr>))))"

text \<open>
  \<open>readFd\<close> offers the free bytes of the vector and, when they are fewer than 64K, a stack
  buffer after them; \<open>readv\<close> fills the two in order. The result is the returned
  \<open>ssize_t\<close>, the value behind \<open>saveErrno\<close> (\<open>None\<close> for 0) and the buffer.
\<close>

definition readFd_iov :: "buffer \<Rightarrow> nat list" where
  "readFd_iov b =
     (let writable = writableBytes b in
      if writable < 65536 then [writable, 65536] else [writable])"

definition Buffer_readFd ::
    "(nat list \<Rightarrow> char list sys) \<Rightarrow> errno option \<Rightarrow> buffer \<Rightarrow> (int \<times> errno option \<times> buffer) res" where
  "Buffer_readFd readv saveErrno b =
     (let extrabuf = replicate 65536 (CHR 0x00);
          writable = writableBytes b
      in case readv (readFd_iov b) of
           SysErr e \<Rightarrow> Inr (- 1, Some e, b)
         | SysOk d \<Rightarrow>
             bindR (mem_write (vec b) (writerIndex b) (take writable d)) (\<lambda>v.
             if length d \<le> writable
             then Inr (int (length d), saveErrno,
                       b\<lparr>vec := v, writerIndex := sz_add (writerIndex b) (length d)\<rparr>)
             else
               bindR (mem_write extrabuf 0 (drop writable d)) (\<lambda>extra.
               bindR (Buffer_append extra (length d - writable)
                        (b\<lparr>vec := v, writerIndex := length v\<rparr>)) (\<lambda>b1.
                 Inr (int (length d), saveErrno, b1)))))"

text \<open>
  \<open>writeFd\<close> stores the answer of \<open>write\<close> in a \<open>size_t\<close>, so the error answer \<open>-1\<close> becomes
  \<open>2 ^ 64 - 1\<close> before the test \<open>n < 0\<close>, which no \<open>size_t\<close> passes; the other branch assigns to
  the pointer parameter itself, which the caller does not see. The return converts to
  \<open>ssize_t\<close> again.
\<close>

definition ssize_of :: "nat \<Rightarrow> int" where
  "ssize_of n = (if n \<le> vec_max then int n else int n - int size_mod)"

definition Buffer_writeFd ::
    "(char list \<Rightarrow> nat sys) \<Rightarrow> errno option \<Rightarrow> buffer \<Rightarrow> (int \<times> errno option) res" where
  "Buffer_writeFd write saveErrno b =
     bindR (mem_read (vec b) (peek b) (readableBytes b)) (\<lambda>d.
       let n = (case write d of SysOk k \<Rightarrow> k | SysErr e \<Rightarrow> size_mod - 1);
           saved = (if n < 0 then (case write d of SysErr e \<Rightarrow> Some e | SysOk k \<Rightarrow> saveErrno)
                    else saveErrno)
       in Inr (ssize_of n, saved))"

section \<open>Invariant and abstraction\<close>

definition buffer_ok :: "buffer \<Rightarrow> bool" where
  "buffer_ok b \<longleftrightarrow> kCheapPrepend \<le> readerIndex b \<and> readerIndex b \<le> writerIndex b \<and>
     writerIndex b \<le> length (vec b) \<and> length (vec b) \<le> vec_max"

definition content :: "buffer \<Rightarrow> char list" where
  "content b = take (writerIndex b - readerIndex b) (drop (readerIndex b) (vec b))"

text \<open>Room for \<open>n\<close> more bytes: the vector can hold them without passing \<open>max_size()\<close>.\<close>

definition buffer_room :: "buffer \<Rightarrow> nat \<Rightarrow> bool" where
  "buffer_room b n \<longleftrightarrow> writerIndex b + n \<le> vec_max"

lemma buffer_okD:
  assumes "buffer_ok b"
  shows "kCheapPrepend \<le> readerIndex b" "readerIndex b \<le> writerIndex b"
    "writerIndex b \<le> length (vec b)" "length (vec b) \<le> vec_max"
    "readerIndex b < size_mod" "writerIndex b < size_mod" "length (vec b) < size_mod"
  using assms vec_max_size_mod by (auto simp: buffer_ok_def)

lemma readable_eq: "buffer_ok b \<Longrightarrow> readableBytes b = writerIndex b - readerIndex b"
  by (frule buffer_okD(2)) (simp add: readableBytes_def size_simps buffer_okD)

lemma writable_eq: "buffer_ok b \<Longrightarrow> writableBytes b = length (vec b) - writerIndex b"
  by (frule buffer_okD(3)) (simp add: writableBytes_def size_simps buffer_okD)

lemma length_content: "buffer_ok b \<Longrightarrow> length (content b) = writerIndex b - readerIndex b"
  by (frule buffer_okD(3)) (simp add: content_def)

lemma readable_content: "buffer_ok b \<Longrightarrow> readableBytes b = length (content b)"
  by (simp add: readable_eq length_content)

lemma content_le_vec: "buffer_ok b \<Longrightarrow> length (content b) + kCheapPrepend \<le> length (vec b)"
  using buffer_okD[of b] by (simp add: length_content)

lemma free_eq:
  assumes "buffer_ok b"
  shows "sz_sub (sz_add (writableBytes b) (prependableBytes b)) kCheapPrepend =
         length (vec b) - kCheapPrepend - length (content b)"
proof -
  note ok = buffer_okD[OF assms]
  have "sz_add (writableBytes b) (prependableBytes b) =
        (length (vec b) - writerIndex b) + readerIndex b"
    using ok vec_max_size_mod by (simp add: writable_eq[OF assms] prependableBytes_def sz_add_small)
  then show ?thesis
    using ok vec_max_size_mod by (simp add: sz_sub_small length_content[OF assms])
qed

section \<open>What each operation does to the content\<close>

lemma Buffer_new_spec:
  assumes "kCheapPrepend + n \<le> vec_max"
  shows "\<exists>b. Buffer_new n = Inr b \<and> buffer_ok b \<and> content b = [] \<and> writableBytes b = n"
proof -
  have "sz_add kCheapPrepend n = kCheapPrepend + n"
    using assms vec_max_size_mod by (simp add: sz_add_small)
  moreover have "buffer_ok \<lparr>vec = replicate (kCheapPrepend + n) (CHR 0x00),
      readerIndex = kCheapPrepend, writerIndex = kCheapPrepend\<rparr>"
    using assms by (simp add: buffer_ok_def)
  ultimately show ?thesis
    using assms by (simp add: Buffer_new_def vec_new_def content_def writable_eq)
qed

lemma retrieveAll_spec:
  assumes "buffer_ok b"
  shows "buffer_ok (retrieveAll b)" "content (retrieveAll b) = []"
  using buffer_okD[OF assms] by (auto simp: retrieveAll_def buffer_ok_def content_def)

lemma retrieve_spec:
  assumes "buffer_ok b"
  shows "buffer_ok (Buffer_retrieve n b)" "content (Buffer_retrieve n b) = drop n (content b)"
proof -
  note ok = buffer_okD[OF assms]
  have "buffer_ok (Buffer_retrieve n b) \<and> content (Buffer_retrieve n b) = drop n (content b)"
  proof (cases "n < readableBytes b")
    case True
    with assms have n: "n < writerIndex b - readerIndex b" by (simp add: readable_eq)
    with ok have "sz_add (readerIndex b) n = readerIndex b + n" by (simp add: sz_add_small)
    with True n ok show ?thesis
      by (auto simp: Buffer_retrieve_def buffer_ok_def content_def drop_take add.commute)
  next
    case False
    with assms have "length (content b) \<le> n" by (simp add: readable_content)
    with False assms show ?thesis by (simp add: Buffer_retrieve_def retrieveAll_spec)
  qed
  then show "buffer_ok (Buffer_retrieve n b)" "content (Buffer_retrieve n b) = drop n (content b)"
    by simp_all
qed

lemma retrieveAsString_spec:
  assumes "buffer_ok b"
  shows "retrieveAsString n b =
    (if n \<le> length (content b) then Inr (take n (content b), Buffer_retrieve n b)
     else Inl (Exit ''read %d bytes out of range!''))"
proof -
  note ok = buffer_okD[OF assms]
  have "mem_read (vec b) (peek b) n = Inr (take n (content b))" if "n \<le> length (content b)"
  proof -
    from that have "n \<le> writerIndex b - readerIndex b" by (simp add: length_content[OF assms])
    with ok show ?thesis by (auto simp: peek_def content_def min_def)
  qed
  then show ?thesis by (auto simp: retrieveAsString_def readable_content[OF assms])
qed

lemma retrieveAllAsString_spec:
  assumes "buffer_ok b"
  shows "\<exists>b'. retrieveAllAsString b = Inr (content b, b') \<and> buffer_ok b' \<and> content b' = []"
  using assms
  by (simp add: retrieveAllAsString_def retrieveAsString_spec readable_content retrieve_spec)

text \<open>The move of \<open>makeSpace\<close> brings the readable bytes to the front unchanged.\<close>

lemma std_copy_front:
  assumes "buffer_ok b" and "kCheapPrepend < readerIndex b"
  shows "\<exists>v. std_copy (vec b) (readerIndex b) (writerIndex b) kCheapPrepend = Inr v \<and>
    length v = length (vec b) \<and>
    take (length (content b)) (drop kCheapPrepend v) = content b"
proof -
  let ?n = "writerIndex b - readerIndex b"
  let ?v = "copy_loop ?n (readerIndex b) kCheapPrepend (vec b)"
  note ok = buffer_okD[OF assms(1)]
  have "take ?n (drop kCheapPrepend ?v) = take ?n (drop (readerIndex b) (vec b))"
    using ok assms(2) by (intro nth_equalityI) (auto simp: nth_copy_loop)
  then show ?thesis
    using ok assms by (auto simp: std_copy_def length_content content_def)
qed

text \<open>
  When \<open>ensureWriteableBytes\<close> decides to move the bytes instead of growing the vector, the
  reader index is past \<open>kCheapPrepend\<close>, so the source range does not hold the destination.
\<close>

lemma move_not_overlapping:
  assumes "buffer_ok b" and "writableBytes b < n"
    and "n \<le> length (vec b) - kCheapPrepend - length (content b)"
  shows "kCheapPrepend < readerIndex b"
  using assms(2,3) buffer_okD[OF assms(1)]
  by (auto simp: writable_eq[OF assms(1)] length_content[OF assms(1)])

lemma makeSpace_move:
  assumes "buffer_ok b" and "kCheapPrepend < readerIndex b"
    and "n \<le> length (vec b) - kCheapPrepend - length (content b)"
  shows "\<exists>b'. makeSpace n b = Inr b' \<and> buffer_ok b' \<and> content b' = content b \<and>
    n \<le> writableBytes b' \<and> length (vec b') = length (vec b) \<and> writerIndex b' \<le> writerIndex b"
proof -
  note ok = buffer_okD[OF assms(1)]
  obtain v where v: "std_copy (vec b) (readerIndex b) (writerIndex b) kCheapPrepend = Inr v"
    "length v = length (vec b)" "take (length (content b)) (drop kCheapPrepend v) = content b"
    using std_copy_front[OF assms(1,2)] by blast
  let ?b = "b\<lparr>vec := v, readerIndex := kCheapPrepend,
               writerIndex := kCheapPrepend + length (content b)\<rparr>"
  have bound: "kCheapPrepend + length (content b) \<le> writerIndex b"
    using ok assms(2) by (simp add: length_content[OF assms(1)])
  with ok have "sz_add kCheapPrepend (readableBytes b) = kCheapPrepend + length (content b)"
    by (simp add: readable_content[OF assms(1)] sz_add_small)
  then have "makeSpace n b = Inr ?b"
    using assms(3) v(1) by (simp add: makeSpace_def free_eq[OF assms(1)] Let_def)
  moreover have ok': "buffer_ok ?b" using ok bound v(2) by (simp add: buffer_ok_def)
  moreover have "content ?b = content b" using v(3) by (simp add: content_def)
  moreover have "n \<le> writableBytes ?b"
    using assms(3) v(2) ok bound by (simp add: writable_eq[OF ok'])
  ultimately show ?thesis using v(2) bound by (intro exI[of _ ?b]) simp
qed

lemma makeSpace_grow:
  assumes "buffer_ok b" and "buffer_room b n"
    and "length (vec b) - kCheapPrepend - length (content b) < n"
  shows "\<exists>b'. makeSpace n b = Inr b' \<and> buffer_ok b' \<and> content b' = content b \<and>
    n \<le> writableBytes b' \<and> length (vec b') = writerIndex b + n \<and> writerIndex b' = writerIndex b"
proof -
  note ok = buffer_okD[OF assms(1)]
  let ?v = "vec b @ replicate (writerIndex b + n - length (vec b)) (CHR 0x00)"
  have longer: "length (vec b) \<le> writerIndex b + n"
    using assms(3) ok by (simp add: length_content[OF assms(1)])
  have eq: "sz_add (writerIndex b) n = writerIndex b + n"
    using assms(2) vec_max_size_mod by (simp add: buffer_room_def sz_add_small)
  have "makeSpace n b = Inr (b\<lparr>vec := ?v\<rparr>)"
    using assms(2,3) longer
    by (simp add: makeSpace_def free_eq[OF assms(1)] eq vec_resize_def buffer_room_def)
  moreover have ok': "buffer_ok (b\<lparr>vec := ?v\<rparr>)"
    using ok assms(2) longer by (simp add: buffer_ok_def buffer_room_def)
  moreover have "content (b\<lparr>vec := ?v\<rparr>) = content b" using ok by (simp add: content_def)
  moreover have "n \<le> writableBytes (b\<lparr>vec := ?v\<rparr>)" by (simp add: writable_eq[OF ok'])
  ultimately show ?thesis using longer by (intro exI[of _ "b\<lparr>vec := ?v\<rparr>"]) simp
qed

lemma ensure_spec:
  assumes "buffer_ok b" and "buffer_room b n"
  shows "\<exists>b'. ensureWriteableBytes n b = Inr b' \<and> buffer_ok b' \<and> content b' = content b \<and>
    n \<le> writableBytes b' \<and> writerIndex b' \<le> writerIndex b \<and>
    length (vec b') =
      (if n \<le> length (vec b) - kCheapPrepend - length (content b) then length (vec b)
       else writerIndex b + n)"
proof (cases "writableBytes b < n")
  case False
  then have "n \<le> length (vec b) - kCheapPrepend - length (content b)"
    using buffer_okD[OF assms(1)] by (simp add: writable_eq[OF assms(1)] length_content[OF assms(1)])
  with False assms show ?thesis by (simp add: ensureWriteableBytes_def)
next
  case True
  show ?thesis
  proof (cases "n \<le> length (vec b) - kCheapPrepend - length (content b)")
    case True
    from makeSpace_move[OF assms(1) move_not_overlapping[OF assms(1) \<open>writableBytes b < n\<close> True] True]
    show ?thesis using \<open>writableBytes b < n\<close> True by (auto simp: ensureWriteableBytes_def)
  next
    case False
    then have "length (vec b) - kCheapPrepend - length (content b) < n" by simp
    from makeSpace_grow[OF assms this] show ?thesis
      using \<open>writableBytes b < n\<close> False by (auto simp: ensureWriteableBytes_def)
  qed
qed

text \<open>With the bytes free at the end, the second half of \<open>append\<close> copies the data there.\<close>

lemma append_tail:
  assumes "ensureWriteableBytes n b = Inr b1" and "buffer_ok b1" and "n \<le> writableBytes b1"
    and "n \<le> length data"
  shows "\<exists>b'. Buffer_append data n b = Inr b' \<and> buffer_ok b' \<and> content b' = content b1 @ take n data \<and>
    writerIndex b' = writerIndex b1 + n \<and> length (vec b') = length (vec b1)"
proof -
  note ok = buffer_okD[OF assms(2)]
  let ?w = "writerIndex b1" and ?d = "take n data"
  let ?v = "take ?w (vec b1) @ ?d @ drop (?w + n) (vec b1)"
  let ?b = "b1\<lparr>vec := ?v, writerIndex := ?w + n\<rparr>"
  have fits: "?w + n \<le> length (vec b1)" using assms(3) ok by (simp add: writable_eq[OF assms(2)])
  with ok have "sz_add ?w n = ?w + n" by (simp add: sz_add_small)
  then have "Buffer_append data n b = Inr ?b"
    using assms(1,4) fits by (simp add: Buffer_append_def beginWrite_def)
  moreover have "buffer_ok ?b" using ok fits assms(4) by (simp add: buffer_ok_def)
  moreover have "content ?b = content b1 @ ?d"
  proof -
    have len: "length ?d = n" using assms(4) by simp
    show ?thesis
      using take_drop_overwrite[of "readerIndex b1" ?w ?d "vec b1", unfolded len] ok fits
      by (simp add: content_def)
  qed
  moreover have "length ?v = length (vec b1)" using fits assms(4) ok by simp
  ultimately show ?thesis by (intro exI[of _ ?b]) simp
qed

lemma append_spec:
  assumes "buffer_ok b" and "buffer_room b n" and "n \<le> length data"
  shows "\<exists>b'. Buffer_append data n b = Inr b' \<and> buffer_ok b' \<and>
    content b' = content b @ take n data \<and> writerIndex b' \<le> writerIndex b + n \<and>
    length (vec b') =
      (if n \<le> length (vec b) - kCheapPrepend - length (content b) then length (vec b)
       else writerIndex b + n)"
proof -
  obtain b1 where b1: "ensureWriteableBytes n b = Inr b1" "buffer_ok b1"
    "content b1 = content b" "n \<le> writableBytes b1" "writerIndex b1 \<le> writerIndex b"
    "length (vec b1) = (if n \<le> length (vec b) - kCheapPrepend - length (content b)
       then length (vec b) else writerIndex b + n)"
    using ensure_spec[OF assms(1,2)] by blast
  from append_tail[OF b1(1,2,4) assms(3)] b1(3,5,6) show ?thesis by auto
qed

text \<open>Without a bound on the sizes the only failure is that of \<open>resize\<close>.\<close>

lemma ensure_safely:
  assumes "buffer_ok b" and "n \<le> vec_max"
  shows "safely (ensureWriteableBytes n b)
    (\<lambda>b'. buffer_ok b' \<and> content b' = content b \<and> n \<le> writableBytes b')"
proof (cases "buffer_room b n")
  case True
  from ensure_spec[OF assms(1) this] show ?thesis by (intro safely_total) blast
next
  case False
  note ok = buffer_okD[OF assms(1)]
  from False ok have less: "writableBytes b < n"
    by (simp add: buffer_room_def writable_eq[OF assms(1)])
  show ?thesis
  proof (cases "n \<le> length (vec b) - kCheapPrepend - length (content b)")
    case True
    from makeSpace_move[OF assms(1) move_not_overlapping[OF assms(1) less True] True] less
    show ?thesis by (auto simp: ensureWriteableBytes_def)
  next
    case False
    have "sz_add (writerIndex b) n = writerIndex b + n"
      using assms(2) ok vec_max_size_mod by (intro sz_add_small) linarith
    with False \<open>\<not> buffer_room b n\<close> less show ?thesis
      by (simp add: ensureWriteableBytes_def makeSpace_def free_eq[OF assms(1)] vec_resize_def
          buffer_room_def)
  qed
qed

lemma append_safely:
  assumes "buffer_ok b" and "n \<le> length data" and "n \<le> vec_max"
  shows "safely (Buffer_append data n b) (\<lambda>b'. buffer_ok b' \<and> content b' = content b @ take n data)"
proof (cases "ensureWriteableBytes n b")
  case (Inl e)
  with ensure_safely[OF assms(1,3)] show ?thesis by (simp add: Buffer_append_def)
next
  case (Inr b1)
  with ensure_safely[OF assms(1,3)] have b1: "buffer_ok b1" "content b1 = content b" "n \<le> writableBytes b1"
    by simp_all
  from append_tail[OF Inr b1(1,3) assms(2)] b1(2) show ?thesis by (intro safely_total) auto
qed

text \<open>\<open>readFd\<close> on each answer of \<open>readv\<close>: both blocks of the scatter read reach the content.\<close>

lemma readFd_err:
  "readv (readFd_iov b) = SysErr e \<Longrightarrow> Buffer_readFd readv saved b = Inr (- 1, Some e, b)"
  by (simp add: Buffer_readFd_def Let_def)

lemma readFd_fits:
  assumes "buffer_ok b" and "readv (readFd_iov b) = SysOk d" and "length d \<le> writableBytes b"
  shows "\<exists>b'. Buffer_readFd readv saved b = Inr (int (length d), saved, b') \<and> buffer_ok b' \<and>
    content b' = content b @ d \<and> length (vec b') = length (vec b)"
proof -
  note ok = buffer_okD[OF assms(1)]
  let ?w = "writerIndex b"
  let ?v = "take ?w (vec b) @ d @ drop (?w + length d) (vec b)"
  let ?b = "b\<lparr>vec := ?v, writerIndex := ?w + length d\<rparr>"
  have fits: "?w + length d \<le> length (vec b)" using assms(3) ok by (simp add: writable_eq[OF assms(1)])
  with ok have "sz_add ?w (length d) = ?w + length d" by (simp add: sz_add_small)
  then have "Buffer_readFd readv saved b = Inr (int (length d), saved, ?b)"
    using assms(2,3) fits by (simp add: Buffer_readFd_def Let_def)
  moreover have "buffer_ok ?b" using ok fits by (simp add: buffer_ok_def)
  moreover have "content ?b = content b @ d"
    using take_drop_overwrite[of "readerIndex b" ?w d "vec b"] ok fits by (simp add: content_def)
  moreover have "length ?v = length (vec b)" using fits ok by simp
  ultimately show ?thesis by (intro exI[of _ ?b]) simp
qed

lemma readFd_spills:
  assumes "buffer_ok b" and "length (vec b) + 65536 \<le> vec_max"
    and "readv (readFd_iov b) = SysOk d" and "writableBytes b < length d"
    and "length d \<le> writableBytes b + 65536"
  shows "\<exists>b'. Buffer_readFd readv saved b = Inr (int (length d), saved, b') \<and> buffer_ok b' \<and>
    content b' = content b @ d \<and> length (vec b') \<le> length (vec b) + 65536"
proof -
  note ok = buffer_okD[OF assms(1)]
  let ?k = "writableBytes b"
  let ?v = "take (writerIndex b) (vec b) @ take ?k d"
  let ?b = "b\<lparr>vec := ?v, writerIndex := length (vec b)\<rparr>"
  let ?x = "drop ?k d @ drop (length d - ?k) (replicate 65536 (CHR 0x00))"
  have len: "length (take ?k d) = ?k" "writerIndex b + ?k = length (vec b)"
    using assms(4) ok by (simp_all add: writable_eq[OF assms(1)])
  have vlen: "length ?v = length (vec b)" using len ok by simp
  have ok1: "buffer_ok ?b" using ok vlen by (simp add: buffer_ok_def)
  have c: "content ?b = content b @ take ?k d"
    using ok len writable_eq[OF assms(1)] by (simp add: content_def drop_take)
  have room: "buffer_room ?b (length d - ?k)"
    using assms(2,5) vlen by (simp add: buffer_room_def)
  have le: "length d - ?k \<le> length ?x" by simp
  obtain b' where b': "Buffer_append ?x (length d - ?k) ?b = Inr b'" "buffer_ok b'"
    "content b' = content ?b @ take (length d - ?k) ?x"
    "length (vec b') = (if length d - ?k \<le> length (vec ?b) - kCheapPrepend - length (content ?b)
      then length (vec ?b) else writerIndex ?b + (length d - ?k))"
    using append_spec[OF ok1 room le] by blast
  have "Buffer_readFd readv saved b = Inr (int (length d), saved, b')"
    using assms(3,4,5) b'(1) len ok by (simp add: Buffer_readFd_def Let_def)
  then show ?thesis using assms(5) vlen c b'(2,3,4)
    by (intro exI[of _ b']) (auto split: if_splits)
qed

lemma readFd_safely:
  assumes "buffer_ok b" and "readv (readFd_iov b) = SysOk d" and "length d \<le> sum_list (readFd_iov b)"
  shows "safely (Buffer_readFd readv saved b) (\<lambda>(n, e, b').
    n = int (length d) \<and> e = saved \<and> buffer_ok b' \<and> content b' = content b @ d)"
proof (cases "length d \<le> writableBytes b")
  case True
  from readFd_fits[of b readv d, OF assms(1,2) True] show ?thesis by (intro safely_total) auto
next
  case False
  note ok = buffer_okD[OF assms(1)]
  from assms(3) False have le: "length d \<le> writableBytes b + 65536"
    by (simp add: readFd_iov_def Let_def split: if_splits)
  let ?k = "writableBytes b"
  let ?v = "take (writerIndex b) (vec b) @ take ?k d"
  let ?b = "b\<lparr>vec := ?v, writerIndex := length (vec b)\<rparr>"
  let ?x = "drop ?k d @ drop (length d - ?k) (replicate 65536 (CHR 0x00))"
  have len: "length (take ?k d) = ?k" "writerIndex b + ?k = length (vec b)"
    using False ok by (simp_all add: writable_eq[OF assms(1)])
  have vlen: "length ?v = length (vec b)" using len ok by simp
  have ok1: "buffer_ok ?b" using ok vlen by (simp add: buffer_ok_def)
  have c: "content ?b = content b @ take ?k d"
    using ok len writable_eq[OF assms(1)] by (simp add: content_def drop_take)
  have max: "length d - ?k \<le> vec_max" using le vec_max_size_mod by linarith
  have "length d - ?k \<le> length ?x" by simp
  from append_safely[OF ok1 this max] have app: "safely (Buffer_append ?x (length d - ?k) ?b)
      (\<lambda>b'. buffer_ok b' \<and> content b' = content b @ d)"
    by (rule safely_mono) (use c in simp)
  have "Buffer_readFd readv saved b = bindR (Buffer_append ?x (length d - ?k) ?b)
      (\<lambda>b1. Inr (int (length d), saved, b1))"
    using assms(2) False le len ok by (simp add: Buffer_readFd_def Let_def)
  with app show ?thesis by simp
qed

lemma sum_readFd_iov: "sum_list (readFd_iov b) \<le> writableBytes b + 65536"
  by (simp add: readFd_iov_def Let_def)

section \<open>The contract of a byte queue\<close>

text \<open>
  What a client of a buffer relies on. \<open>cont\<close> is the queue of bytes, \<open>room b n\<close> says that
  \<open>n\<close> more bytes can be appended, and the three operations are \<open>append\<close>, \<open>retrieve\<close> and
  \<open>readableBytes\<close>. The lemmas of the locale are the steps of a sender: what it hands to the
  kernel and what stays queued is, in order, what it was given.
\<close>

locale byte_queue =
  fixes cont :: "'b \<Rightarrow> char list" and ok :: "'b \<Rightarrow> bool" and room :: "'b \<Rightarrow> nat \<Rightarrow> bool"
    and app :: "char list \<Rightarrow> nat \<Rightarrow> 'b \<Rightarrow> 'b res" and retr :: "nat \<Rightarrow> 'b \<Rightarrow> 'b"
    and avail :: "'b \<Rightarrow> nat"
  assumes app_law: "ok b \<Longrightarrow> room b n \<Longrightarrow> n \<le> length d \<Longrightarrow>
      \<exists>b'. app d n b = Inr b' \<and> ok b' \<and> cont b' = cont b @ take n d"
    and room_app: "ok b \<Longrightarrow> room b (n + m) \<Longrightarrow> n \<le> length d \<Longrightarrow> app d n b = Inr b' \<Longrightarrow> room b' m"
    and room_retr: "ok b \<Longrightarrow> room b m \<Longrightarrow> room (retr n b) m"
    and room_le: "room b n \<Longrightarrow> m \<le> n \<Longrightarrow> room b m"
    and retr_law: "ok b \<Longrightarrow> ok (retr n b)" "ok b \<Longrightarrow> cont (retr n b) = drop n (cont b)"
    and avail_law: "ok b \<Longrightarrow> avail b = length (cont b)"
begin

lemma app_all:
  assumes "ok b" and "room b (length d)"
  shows "\<exists>b'. app d (length d) b = Inr b' \<and> ok b' \<and> cont b' = cont b @ d"
  using app_law[OF assms order_refl] by simp

lemma app_rest:
  assumes "ok b" and "room b (length d - k)" and "k \<le> length d"
  shows "\<exists>b'. app (drop k d) (length d - k) b = Inr b' \<and> ok b' \<and> cont b' = cont b @ drop k d"
  using app_law[OF assms(1,2), of "drop k d"] by simp

lemma app_inv:
  assumes "ok b" and "room b n" and "n \<le> length d" and "app d n b = Inr b'"
  shows "ok b'" and "cont b' = cont b @ take n d"
  using app_law[OF assms(1-3)] assms(4) by auto

lemma drained: "ok b \<Longrightarrow> take n (cont b) @ cont (retr n b) = cont b"
  by (simp add: retr_law)

lemma avail_zero: "ok b \<Longrightarrow> avail b = 0 \<longleftrightarrow> cont b = []"
  by (simp add: avail_law)

lemma avail_retr: "ok b \<Longrightarrow> avail (retr n b) = avail b - n"
  by (simp add: avail_law retr_law)

lemma partial_send:
  assumes "ok b" and "cont b = []" and "room b (length d - k)" and "k \<le> length d"
    and "app (drop k d) (length d - k) b = Inr b'"
  shows "take k d @ cont b' = d"
  using app_rest[OF assms(1,3,4)] assms(2,5) by auto

end

interpretation obuf: byte_queue content buffer_ok buffer_room Buffer_append Buffer_retrieve readableBytes
proof unfold_locales
  fix b n and d :: "char list"
  assume "buffer_ok b" "buffer_room b n" "n \<le> length d"
  from append_spec[OF this]
  show "\<exists>b'. Buffer_append d n b = Inr b' \<and> buffer_ok b' \<and> content b' = content b @ take n d"
    by blast
next
  fix b n m b' and d :: "char list"
  assume *: "buffer_ok b" "buffer_room b (n + m)" "n \<le> length d" "Buffer_append d n b = Inr b'"
  then have "buffer_room b n" by (simp add: buffer_room_def)
  from append_spec[OF *(1) this *(3)] *(2,4) show "buffer_room b' m"
    by (auto simp: buffer_room_def)
next
  fix b m n
  assume "buffer_ok b" "buffer_room b m"
  then show "buffer_room (Buffer_retrieve n b) m"
    using buffer_okD[of b]
    by (auto simp: buffer_room_def Buffer_retrieve_def retrieveAll_def)
qed (auto simp: buffer_room_def retrieve_spec readable_content)

section \<open>Refinement to a queue of bytes\<close>

text \<open>
  A client's program on one buffer, and the same program on a list of bytes. Both collect
  the strings taken out and stop at the first failure.
\<close>

datatype buf_op = Append "char list" | TakeAsString nat | Retrieve nat | RetrieveAll

fun Buffer_step :: "buf_op \<Rightarrow> string \<times> buffer \<Rightarrow> (string \<times> buffer) res" where
  "Buffer_step (Append d) (out, b) = bindR (Buffer_append d (length d) b) (\<lambda>b'. Inr (out, b'))"
| "Buffer_step (TakeAsString n) (out, b) =
     bindR (retrieveAsString n b) (\<lambda>(s, b'). Inr (out @ s, b'))"
| "Buffer_step (Retrieve n) (out, b) = Inr (out, Buffer_retrieve n b)"
| "Buffer_step RetrieveAll (out, b) = Inr (out, retrieveAll b)"

fun queue_step :: "buf_op \<Rightarrow> string \<times> char list \<Rightarrow> (string \<times> char list) res" where
  "queue_step (Append d) (out, q) = Inr (out, q @ d)"
| "queue_step (TakeAsString n) (out, q) =
     (if n \<le> length q then Inr (out @ take n q, drop n q)
      else Inl (Exit ''read %d bytes out of range!''))"
| "queue_step (Retrieve n) (out, q) = Inr (out, drop n q)"
| "queue_step RetrieveAll (out, q) = Inr (out, [])"

fun appended :: "buf_op \<Rightarrow> char list" where
  "appended (Append d) = d"
| "appended _ = []"

fun abs_res :: "(string \<times> buffer) res \<Rightarrow> (string \<times> char list) res" where
  "abs_res (Inl e) = Inl e"
| "abs_res (Inr (out, b)) = Inr (out, content b)"

lemma Buffer_step_refines:
  assumes "buffer_ok b" and "buffer_room b (length (appended p))"
  shows "abs_res (Buffer_step p (out, b)) = queue_step p (out, content b)"
proof (cases p)
  case (Append d)
  with obuf.app_all[OF assms(1), of d] assms(2) show ?thesis by auto
next
  case (TakeAsString n)
  with assms(1) show ?thesis by (simp add: retrieveAsString_spec obuf.retr_law)
next
  case (Retrieve n)
  with assms(1) show ?thesis by (simp add: obuf.retr_law)
next
  case RetrieveAll
  with assms(1) show ?thesis by (simp add: retrieveAll_spec)
qed

lemma Buffer_step_ok:
  assumes "buffer_ok b" and "buffer_room b (length (appended p) + m)"
    and "Buffer_step p (out, b) = Inr (out', b')"
  shows "buffer_ok b' \<and> buffer_room b' m"
proof (cases p)
  case (Append d)
  with assms show ?thesis
    using obuf.app_all[OF assms(1) obuf.room_le[OF assms(2)], of d]
      obuf.room_app[OF assms(1), of "length d" m d b']
    by (auto simp: bindR_Inr_iff)
next
  case (TakeAsString n)
  with assms show ?thesis
    by (auto simp: retrieveAsString_spec obuf.retr_law obuf.room_retr split: if_splits)
next
  case (Retrieve n)
  with assms show ?thesis by (auto simp: obuf.retr_law obuf.room_retr)
next
  case RetrieveAll
  with assms buffer_okD[OF assms(1)] show ?thesis
    by (auto simp: retrieveAll_spec) (simp add: buffer_room_def retrieveAll_def)
qed

lemma Buffer_run_refines:
  "buffer_ok b \<Longrightarrow> buffer_room b (sum_list (map (\<lambda>p. length (appended p)) ps)) \<Longrightarrow>
   abs_res (foldR Buffer_step ps (out, b)) = foldR queue_step ps (out, content b)"
proof (induction ps arbitrary: out b)
  case Nil
  then show ?case by simp
next
  case (Cons p ps)
  let ?m = "sum_list (map (\<lambda>p. length (appended p)) ps)"
  from Cons.prems(2) have room: "buffer_room b (length (appended p) + ?m)" by simp
  note refines = Buffer_step_refines[OF Cons.prems(1) obuf.room_le[OF room le_add1], of out]
  show ?case
  proof (cases "Buffer_step p (out, b)")
    case (Inl e)
    with refines have "queue_step p (out, content b) = Inl e" by simp
    with Inl show ?thesis by simp
  next
    case (Inr r)
    obtain out' b' where r: "r = (out', b')" by (cases r)
    with refines Inr have "queue_step p (out, content b) = Inr (out', content b')" by simp
    moreover have "abs_res (foldR Buffer_step ps (out', b')) = foldR queue_step ps (out', content b')"
      using Buffer_step_ok[OF Cons.prems(1) room, of out out' b'] Inr r by (intro Cons.IH) auto
    ultimately show ?thesis using Inr r by simp
  qed
qed

lemma queue_run_fifo:
  "foldR queue_step ps (out, q) = Inr (out', q') \<Longrightarrow>
   \<forall>p \<in> set ps. (\<exists>d. p = Append d) \<or> (\<exists>n. p = TakeAsString n) \<Longrightarrow>
   out' @ q' = out @ q @ concat (map appended ps)"
proof (induction ps arbitrary: out q)
  case Nil
  then show ?case by simp
next
  case (Cons p ps)
  from Cons.prems(1) obtain o1 q1 where
    step: "queue_step p (out, q) = Inr (o1, q1)" "foldR queue_step ps (o1, q1) = Inr (out', q')"
    by (auto simp: bindR_Inr_iff)
  moreover have "o1 @ q1 = out @ q @ appended p"
    using step(1) Cons.prems(2) by (auto split: if_splits)
  ultimately show ?case using Cons.IH[OF step(2)] Cons.prems(2) by simp
qed

section \<open>Properties\<close>

text \<open>A buffer whose free space lies in front of the readable bytes, for the witnesses.\<close>

definition sample_buffer :: buffer where
  "sample_buffer = \<lparr>vec = ''............ef'', readerIndex = 12, writerIndex = 14\<rparr>"

lemma sample_buffer_simps [simp]:
  "buffer_ok sample_buffer" "content sample_buffer = ''ef''" "writableBytes sample_buffer = 0"
  "length (vec sample_buffer) = 14" "writerIndex sample_buffer = 14"
  by (simp_all add: sample_buffer_def buffer_ok_def content_def kCheapPrepend_def vec_max_def
      writableBytes_def sz_sub_def size_mod_def)

text \<open>C30: \<open>append\<close> never leaves the vector, overlaps a copy or loses a byte: as long as the
  vector can be resized it succeeds, the readable bytes are the old ones followed by the new
  ones, and the vector grows only when the free bytes at both ends together are too few.\<close>

theorem Buffer_append_appends:
  assumes "buffer_ok b" and "buffer_room b n" and "n \<le> length data"
  shows "\<exists>b'. Buffer_append data n b = Inr b' \<and> buffer_ok b' \<and>
    content b' = content b @ take n data \<and>
    length (vec b') = (if n \<le> length (vec b) - kCheapPrepend - length (content b)
                       then length (vec b) else writerIndex b + n)"
  using append_spec[OF assms] by blast

theorem Buffer_append_appends_witness:
  "\<exists>b'. Buffer_append ''wxyz'' 4 sample_buffer = Inr b' \<and> content b' = ''efwxyz'' \<and>
    length (vec b') = 14"
proof -
  have "buffer_room sample_buffer 4" by (simp add: buffer_room_def vec_max_def)
  from Buffer_append_appends[OF sample_buffer_simps(1) this, of "''wxyz''"]
  show ?thesis by (auto simp: kCheapPrepend_def)
qed

text \<open>C31: \<open>readFd\<close> moves exactly the bytes that \<open>readv\<close> delivered, in order, behind the
  readable bytes of the buffer, whether they fit or spill into the 64K stack buffer, and
  returns their number; when \<open>readv\<close> fails it returns -1, stores the error number and leaves
  the buffer alone.\<close>

theorem Buffer_readFd_appends:
  assumes "buffer_ok b" and "length (vec b) + 65536 \<le> vec_max"
    and "\<And>lens d. readv lens = SysOk d \<Longrightarrow> length d \<le> sum_list lens"
  shows "(\<exists>e. readv (readFd_iov b) = SysErr e \<and> Buffer_readFd readv saved b = Inr (- 1, Some e, b)) \<or>
    (\<exists>d b'. readv (readFd_iov b) = SysOk d \<and>
       Buffer_readFd readv saved b = Inr (int (length d), saved, b') \<and> buffer_ok b' \<and>
       content b' = content b @ d)"
proof (cases "readv (readFd_iov b)")
  case (SysErr e)
  then show ?thesis by (simp add: readFd_err)
next
  case (SysOk d)
  have bound: "length d \<le> writableBytes b + 65536"
    using assms(3)[OF SysOk] sum_readFd_iov[of b] by simp
  show ?thesis
  proof (cases "length d \<le> writableBytes b")
    case True
    from readFd_fits[of b readv d, OF assms(1) SysOk True] SysOk show ?thesis by blast
  next
    case False
    then have "writableBytes b < length d" by simp
    from readFd_spills[of b readv d, OF assms(1,2) SysOk this bound] SysOk show ?thesis by blast
  qed
qed

theorem Buffer_readFd_appends_witness:
  "\<exists>b'. Buffer_readFd (\<lambda>lens. SysOk (take (sum_list lens) ''ping'')) None sample_buffer =
     Inr (4, None, b') \<and> content b' = ''efping''"
proof -
  have "readFd_iov sample_buffer = [0, 65536]" by (simp add: readFd_iov_def)
  moreover have "length (vec sample_buffer) + 65536 \<le> vec_max" by (simp add: vec_max_def)
  ultimately show ?thesis
    using Buffer_readFd_appends[of sample_buffer "\<lambda>lens. SysOk (take (sum_list lens) ''ping'')" None]
    by auto
qed

text \<open>C29: a program of appends, reads and discards on a buffer computes what the same program
  computes on a plain list of bytes: the same strings are read, it stops with the same
  failure, and the readable bytes left are the list left.\<close>

theorem Buffer_refines_queue:
  assumes "buffer_ok b" and "buffer_room b (sum_list (map (\<lambda>p. length (appended p)) ps))"
  shows "abs_res (foldR Buffer_step ps (out, b)) = foldR queue_step ps (out, content b)"
  by (rule Buffer_run_refines[OF assms])

theorem Buffer_refines_queue_witness:
  "abs_res (foldR Buffer_step [Append ''gh'', TakeAsString 3, Retrieve 9, TakeAsString 1]
     ('''', sample_buffer)) = Inl (Exit ''read %d bytes out of range!'')"
proof -
  have "buffer_room sample_buffer
    (sum_list (map (\<lambda>p. length (appended p)) [Append ''gh'', TakeAsString 3, Retrieve 9, TakeAsString 1]))"
    by (simp add: buffer_room_def vec_max_def)
  from Buffer_refines_queue[OF sample_buffer_simps(1) this, of "''''"] show ?thesis by simp
qed

text \<open>Bytes leave a buffer in the order they entered it and none is lost or invented:
  after any sequence of appends and string reads that succeeds, the strings read followed by
  the bytes still readable are the bytes readable at the start followed by those appended.\<close>

theorem Buffer_fifo:
  assumes "buffer_ok b" and "buffer_room b (sum_list (map (\<lambda>p. length (appended p)) ps))"
    and "\<forall>p \<in> set ps. (\<exists>d. p = Append d) \<or> (\<exists>n. p = TakeAsString n)"
    and "foldR Buffer_step ps ('''', b) = Inr (out, b')"
  shows "out @ content b' = content b @ concat (map appended ps)"
  using Buffer_run_refines[OF assms(1,2), of "''''"] queue_run_fifo[OF _ assms(3)] assms(4)
  by fastforce

theorem Buffer_fifo_witness:
  "\<exists>b'. foldR Buffer_step [Append ''gh'', TakeAsString 3] ('''', sample_buffer) = Inr (''efg'', b') \<and>
     ''efg'' @ content b' = ''efgh''"
proof -
  let ?ps = "[Append ''gh'', TakeAsString 3]"
  have room: "buffer_room sample_buffer (sum_list (map (\<lambda>p. length (appended p)) ?ps))"
    by (simp add: buffer_room_def vec_max_def)
  have "abs_res (foldR Buffer_step ?ps ('''', sample_buffer)) = Inr (''efg'', ''h'')"
    using Buffer_run_refines[OF sample_buffer_simps(1) room, of "''''"] by simp
  then obtain b' where b': "foldR Buffer_step ?ps ('''', sample_buffer) = Inr (''efg'', b')"
    by (cases "foldR Buffer_step ?ps ('''', sample_buffer)") auto
  from Buffer_fifo[OF sample_buffer_simps(1) room _ b'] b' show ?thesis by simp
qed

text \<open>\<open>writeFd\<close> hands the readable bytes to \<open>write\<close> and returns its answer, but it never
  stores the error number: the answer is kept in a \<open>size_t\<close>, which is never negative, so
  \<open>saveErrno\<close> keeps its value even when \<open>write\<close> fails.\<close>

theorem Buffer_writeFd_loses_errno:
  assumes "buffer_ok b" and "\<And>n. write (content b) = SysOk n \<Longrightarrow> n \<le> length (content b)"
  shows "Buffer_writeFd write saved b =
    Inr (case write (content b) of SysOk n \<Rightarrow> int n | SysErr e \<Rightarrow> - 1, saved)"
proof -
  note ok = buffer_okD[OF assms(1)]
  have "mem_read (vec b) (peek b) (readableBytes b) = Inr (content b)"
    using ok by (simp add: peek_def readable_eq[OF assms(1)] content_def)
  moreover have "ssize_of (size_mod - 1) = - 1"
    by (simp add: ssize_of_def size_mod_def vec_max_def)
  moreover have "ssize_of n = int n" if "write (content b) = SysOk n" for n
    using assms(2)[OF that] ok by (simp add: ssize_of_def length_content[OF assms(1)])
  ultimately show ?thesis
    by (auto simp: Buffer_writeFd_def Let_def split: sys.splits)
qed

theorem Buffer_writeFd_loses_errno_witness:
  "Buffer_writeFd (\<lambda>d. SysErr EPIPE) None sample_buffer = Inr (- 1, None)"
  using Buffer_writeFd_loses_errno[OF sample_buffer_simps(1), of "\<lambda>d. SysErr EPIPE" None] by simp

end
