(* ===== verification/Channel.thy ===== *)
theory Channel
  imports Posix
begin

unbundle bit_operations_syntax

text \<open>
  \<open>include/Channel.h\<close> and \<open>src/Channel.cpp\<close>: one descriptor, the events it is interested
  in, the events that epoll reported, its place in the poller, its guard and its callbacks.
  A callback is a \<open>std::function\<close> made by \<open>std::bind\<close> from a member function and its
  object; the datatype \<open>callback\<close> has one constructor for each such \<open>bind\<close> in the code.
  The operations that go on to the poller are completed in the theory \<open>Poller\<close>.
\<close>

section \<open>State\<close>

text \<open>The event bits of \<open>sys/epoll.h\<close>.\<close>

abbreviation EPOLLIN :: "32 word" where "EPOLLIN \<equiv> 1"
abbreviation EPOLLPRI :: "32 word" where "EPOLLPRI \<equiv> 2"
abbreviation EPOLLOUT :: "32 word" where "EPOLLOUT \<equiv> 4"
abbreviation EPOLLERR :: "32 word" where "EPOLLERR \<equiv> 8"
abbreviation EPOLLHUP :: "32 word" where "EPOLLHUP \<equiv> 16"

definition kNoneEvent :: "32 word" where
  "kNoneEvent = 0"

definition kReadEvent :: "32 word" where
  "kReadEvent = EPOLLIN OR EPOLLPRI"

definition kWriteEvent :: "32 word" where
  "kWriteEvent = EPOLLOUT"

type_synonym timestamp = int

datatype callback =
    LoopHandleRead
  | AcceptorHandleRead
  | ConnHandleRead nat
  | ConnHandleWrite nat
  | ConnHandleClose nat
  | ConnHandleError nat

record channel =
  ch_fd :: fd
  ch_events :: "32 word"
  ch_revents :: "32 word"
  ch_index :: int
  ch_tie :: "nat option"
  ch_tied :: bool
  readCallback :: "callback option"
  writeCallback :: "callback option"
  closeCallback :: "callback option"
  errorCallback :: "callback option"

section \<open>Operations\<close>

definition Channel_new :: "fd \<Rightarrow> channel" where
  "Channel_new fd =
     \<lparr>ch_fd = fd, ch_events = 0, ch_revents = 0, ch_index = - 1, ch_tie = None, ch_tied = False,
      readCallback = None, writeCallback = None, closeCallback = None, errorCallback = None\<rparr>"

definition Channel_tie :: "nat \<Rightarrow> channel \<Rightarrow> channel" where
  "Channel_tie obj ch = ch\<lparr>ch_tie := Some obj, ch_tied := True\<rparr>"

definition set_revents :: "32 word \<Rightarrow> channel \<Rightarrow> channel" where
  "set_revents revt ch = ch\<lparr>ch_revents := revt\<rparr>"

definition set_index :: "int \<Rightarrow> channel \<Rightarrow> channel" where
  "set_index idx ch = ch\<lparr>ch_index := idx\<rparr>"

text \<open>The change that each of the five interest operations makes to \<open>events_\<close>.\<close>

datatype interest_op = EnableReading | DisableReading | EnableWriting | DisableWriting | DisableAll

fun change_events :: "interest_op \<Rightarrow> channel \<Rightarrow> channel" where
  "change_events EnableReading ch = ch\<lparr>ch_events := ch_events ch OR kReadEvent\<rparr>"
| "change_events DisableReading ch = ch\<lparr>ch_events := ch_events ch AND NOT kReadEvent\<rparr>"
| "change_events EnableWriting ch = ch\<lparr>ch_events := ch_events ch OR kWriteEvent\<rparr>"
| "change_events DisableWriting ch = ch\<lparr>ch_events := ch_events ch AND NOT kWriteEvent\<rparr>"
| "change_events DisableAll ch = ch\<lparr>ch_events := kNoneEvent\<rparr>"

definition isNoneEvent :: "channel \<Rightarrow> bool" where
  "isNoneEvent ch \<longleftrightarrow> ch_events ch = kNoneEvent"

definition isWriting :: "channel \<Rightarrow> bool" where
  "isWriting ch \<longleftrightarrow> ch_events ch AND kWriteEvent \<noteq> 0"

definition isReading :: "channel \<Rightarrow> bool" where
  "isReading ch \<longleftrightarrow> ch_events ch AND kReadEvent \<noteq> 0"

text \<open>
  Event dispatch. \<open>invoke cb t s\<close> runs the member function behind a callback in state \<open>s\<close>;
  an empty \<open>std::function\<close> is skipped, as the code tests it first. No callback of the
  program writes \<open>revents_\<close> or replaces a callback, so the four tests read the channel as
  it was when the event arrived.
\<close>

fun call_if_set ::
    "(callback \<Rightarrow> timestamp \<Rightarrow> 's \<Rightarrow> 's res) \<Rightarrow> callback option \<Rightarrow> timestamp \<Rightarrow> 's \<Rightarrow> 's res" where
  "call_if_set invoke None t s = Inr s"
| "call_if_set invoke (Some cb) t s = invoke cb t s"

definition handleEventWithGuard ::
    "(callback \<Rightarrow> timestamp \<Rightarrow> 's \<Rightarrow> 's res) \<Rightarrow> channel \<Rightarrow> timestamp \<Rightarrow> 's \<Rightarrow> 's res" where
  "handleEventWithGuard invoke ch t s =
     bindR (if ch_revents ch AND EPOLLHUP \<noteq> 0 \<and> ch_revents ch AND EPOLLIN = 0
            then call_if_set invoke (closeCallback ch) t s else Inr s) (\<lambda>s.
     bindR (if ch_revents ch AND EPOLLERR \<noteq> 0
            then call_if_set invoke (errorCallback ch) t s else Inr s) (\<lambda>s.
     bindR (if ch_revents ch AND (EPOLLIN OR EPOLLPRI) \<noteq> 0
            then call_if_set invoke (readCallback ch) t s else Inr s) (\<lambda>s.
     if ch_revents ch AND EPOLLOUT \<noteq> 0
     then call_if_set invoke (writeCallback ch) t s else Inr s)))"

text \<open>
  \<open>handleEvent\<close> promotes the weak pointer of a tied channel first; \<open>alive obj\<close> tells whether
  the object it points to still exists.
\<close>

definition Channel_handleEvent ::
    "(nat \<Rightarrow> bool) \<Rightarrow> (callback \<Rightarrow> timestamp \<Rightarrow> 's \<Rightarrow> 's res) \<Rightarrow>
     channel \<Rightarrow> timestamp \<Rightarrow> 's \<Rightarrow> 's res" where
  "Channel_handleEvent alive invoke ch t s =
     (if ch_tied ch
      then (case ch_tie ch of
              Some obj \<Rightarrow> if alive obj then handleEventWithGuard invoke ch t s else Inr s
            | None \<Rightarrow> Inr s)
      else handleEventWithGuard invoke ch t s)"

section \<open>The interest mask as two flags\<close>

text \<open>What the mask stands for: is the channel reading, is it writing.\<close>

fun flags_step :: "interest_op \<Rightarrow> bool \<times> bool \<Rightarrow> bool \<times> bool" where
  "flags_step EnableReading (r, w) = (True, w)"
| "flags_step DisableReading (r, w) = (False, w)"
| "flags_step EnableWriting (r, w) = (r, True)"
| "flags_step DisableWriting (r, w) = (r, False)"
| "flags_step DisableAll (r, w) = (False, False)"

definition mask_of :: "bool \<times> bool \<Rightarrow> 32 word" where
  "mask_of f = (if fst f then kReadEvent else 0) OR (if snd f then kWriteEvent else 0)"

named_theorems mask_simps "event masks"

lemmas mask_defs = kNoneEvent_def kReadEvent_def kWriteEvent_def

lemma change_events_flags:
  "ch_events ch = mask_of f \<Longrightarrow> ch_events (change_events p ch) = mask_of (flags_step p f)"
  by (cases p; cases f; cases "fst f"; cases "snd f") (simp_all add: mask_of_def mask_defs)

lemma change_events_other [simp]:
  "ch_fd (change_events p ch) = ch_fd ch" "ch_index (change_events p ch) = ch_index ch"
  "ch_tied (change_events p ch) = ch_tied ch" "ch_tie (change_events p ch) = ch_tie ch"
  "ch_revents (change_events p ch) = ch_revents ch"
  "readCallback (change_events p ch) = readCallback ch"
  "writeCallback (change_events p ch) = writeCallback ch"
  "closeCallback (change_events p ch) = closeCallback ch"
  "errorCallback (change_events p ch) = errorCallback ch"
  by (cases p; simp)+

definition callbacks_of :: "channel \<Rightarrow> callback option \<times> callback option \<times> callback option \<times> callback option" where
  "callbacks_of ch = (readCallback ch, writeCallback ch, closeCallback ch, errorCallback ch)"

lemma callbacks_of_same [simp]:
  "callbacks_of (change_events k ch) = callbacks_of ch" "callbacks_of (set_index i ch) = callbacks_of ch"
  "callbacks_of (set_revents ev ch) = callbacks_of ch" "callbacks_of (Channel_tie obj ch) = callbacks_of ch"
  by (simp_all add: callbacks_of_def set_index_def set_revents_def Channel_tie_def)

lemma set_index_simps [simp]:
  "ch_fd (set_index i ch) = ch_fd ch" "ch_index (set_index i ch) = i"
  "ch_events (set_index i ch) = ch_events ch" "isNoneEvent (set_index i ch) = isNoneEvent ch"
  "isWriting (set_index i ch) = isWriting ch"
  by (simp_all add: set_index_def isNoneEvent_def isWriting_def)

lemma set_revents_simps [simp]:
  "ch_fd (set_revents i ch) = ch_fd ch" "ch_index (set_revents i ch) = ch_index ch"
  "ch_events (set_revents i ch) = ch_events ch" "ch_revents (set_revents i ch) = i"
  by (simp_all add: set_revents_def)

lemma Channel_tie_simps [simp]:
  "ch_fd (Channel_tie i ch) = ch_fd ch" "ch_index (Channel_tie i ch) = ch_index ch"
  "ch_events (Channel_tie i ch) = ch_events ch" "ch_tied (Channel_tie i ch)"
  "ch_tie (Channel_tie i ch) = Some i"
  by (simp_all add: Channel_tie_def)

lemma Channel_new_simps [simp]:
  "ch_fd (Channel_new fd) = fd" "ch_index (Channel_new fd) = - 1" "ch_events (Channel_new fd) = 0"
  "\<not> ch_tied (Channel_new fd)"
  by (simp_all add: Channel_new_def)

lemma flags_isReading: "ch_events ch = mask_of f \<Longrightarrow> isReading ch \<longleftrightarrow> fst f"
  by (cases f; cases "fst f"; cases "snd f") (simp_all add: isReading_def mask_of_def mask_defs)

lemma flags_isWriting: "ch_events ch = mask_of f \<Longrightarrow> isWriting ch \<longleftrightarrow> snd f"
  by (cases f; cases "fst f"; cases "snd f") (simp_all add: isWriting_def mask_of_def mask_defs)

lemma flags_isNoneEvent: "ch_events ch = mask_of f \<Longrightarrow> isNoneEvent ch \<longleftrightarrow> \<not> fst f \<and> \<not> snd f"
  by (cases f; cases "fst f"; cases "snd f") (simp_all add: isNoneEvent_def mask_of_def mask_defs)

lemma fold_change_flags:
  "ch_events ch = mask_of f \<Longrightarrow>
   ch_events (fold change_events ps ch) = mask_of (fold flags_step ps f)"
  by (induction ps arbitrary: ch f) (simp_all add: change_events_flags)

lemma fold_change_events_cong:
  "ch_events a = ch_events b \<Longrightarrow>
   ch_events (fold change_events ps a) = ch_events (fold change_events ps b)"
proof (induction ps arbitrary: a b)
  case Nil
  then show ?case by simp
next
  case (Cons p ps)
  then have "ch_events (change_events p a) = ch_events (change_events p b)" by (cases p) auto
  from Cons.IH[OF this] show ?case by simp
qed

lemma mask_of_start: "ch_events (Channel_new fd) = mask_of (False, False)"
  by (simp add: mask_of_def)

text \<open>Writing after each interest operation, whatever the mask was.\<close>

lemma isWriting_change [simp]:
  "isWriting (change_events EnableReading ch) = isWriting ch"
  "isWriting (change_events DisableReading ch) = isWriting ch"
  "isWriting (change_events EnableWriting ch)"
  "\<not> isWriting (change_events DisableWriting ch)"
  "\<not> isWriting (change_events DisableAll ch)"
proof -
  have "(ch_events ch OR 3) AND 4 = ch_events ch AND (4 :: 32 word)"
    by (simp add: bit.conj_disj_distrib2)
  then show "isWriting (change_events EnableReading ch) = isWriting ch"
    by (simp add: isWriting_def mask_defs)
  have "(ch_events ch AND NOT 3) AND 4 = ch_events ch AND (NOT 3 AND (4 :: 32 word))"
    by (simp only: and.assoc)
  then show "isWriting (change_events DisableReading ch) = isWriting ch"
    by (simp add: isWriting_def mask_defs)
  show "isWriting (change_events EnableWriting ch)"
    by (simp add: isWriting_def mask_defs bit.conj_disj_distrib2)
  have "(ch_events ch AND NOT 4) AND 4 = ch_events ch AND (NOT 4 AND (4 :: 32 word))"
    by (simp only: and.assoc)
  then show "\<not> isWriting (change_events DisableWriting ch)"
    by (simp add: isWriting_def mask_defs)
  show "\<not> isWriting (change_events DisableAll ch)"
    by (simp add: isWriting_def mask_defs)
qed

lemma isWriting_other [simp]:
  "isWriting (Channel_tie i ch) = isWriting ch" "\<not> isWriting (Channel_new fd)"
  "isWriting (set_revents r ch) = isWriting ch"
  by (simp_all add: isWriting_def)

section \<open>Dispatch as a list of due callbacks\<close>

definition due :: "channel \<Rightarrow> callback list" where
  "due ch = List.map_filter id
     [if ch_revents ch AND EPOLLHUP \<noteq> 0 \<and> ch_revents ch AND EPOLLIN = 0 then closeCallback ch else None,
      if ch_revents ch AND EPOLLERR \<noteq> 0 then errorCallback ch else None,
      if ch_revents ch AND (EPOLLIN OR EPOLLPRI) \<noteq> 0 then readCallback ch else None,
      if ch_revents ch AND EPOLLOUT \<noteq> 0 then writeCallback ch else None]"

lemma call_if_set_foldR:
  "call_if_set invoke c t s = foldR (\<lambda>cb. invoke cb t) (case c of None \<Rightarrow> [] | Some cb \<Rightarrow> [cb]) s"
  by (cases c) auto

lemma handleEventWithGuard_due:
  "handleEventWithGuard invoke ch t s = foldR (\<lambda>cb. invoke cb t) (due ch) s"
  unfolding handleEventWithGuard_def due_def call_if_set_foldR
  by (auto simp: List.map_filter_def foldR_append[symmetric] split: option.splits)

section \<open>Properties\<close>

text \<open>After any sequence of interest operations on a new channel the event mask holds
  exactly the read bits if reading was switched on last, and exactly the write bit if writing
  was; the three queries of the channel read these two flags.\<close>

theorem Channel_interest_is_two_flags:
  "let ch = fold change_events ps (Channel_new fd); f = fold flags_step ps (False, False)
   in ch_events ch = mask_of f \<and> (isReading ch \<longleftrightarrow> fst f) \<and> (isWriting ch \<longleftrightarrow> snd f) \<and>
      (isNoneEvent ch \<longleftrightarrow> f = (False, False))"
proof -
  have "ch_events (fold change_events ps (Channel_new fd)) = mask_of (fold flags_step ps (False, False))"
    by (rule fold_change_flags[OF mask_of_start])
  then show ?thesis
    using flags_isReading flags_isWriting flags_isNoneEvent by (simp add: Let_def prod_eq_iff)
qed


end
