(* ===== verification/Poller.thy ===== *)
theory Poller
  imports Channel
begin

text \<open>
  \<open>include/Poller.h\<close>, \<open>src/Poller.cpp\<close>, \<open>include/EPollPoller.h\<close> and
  \<open>src/EPollPoller.cpp\<close>: the map from descriptors to channels, the vector that
  \<open>epoll_wait\<close> fills, and the three operations of the poller. Channels are objects behind
  pointers: \<open>chans\<close> is the store of the channel objects that live in the poller's thread,
  and reading or writing through a pointer that is not in its domain is undefined
  behaviour. \<open>ctlHist\<close> records the \<open>epoll_ctl\<close> calls made and their answers, newest first.
\<close>

section \<open>State\<close>

record poller =
  chans :: "ptr \<rightharpoonup> channel"
  channelMap :: "fd \<rightharpoonup> ptr"
  eventList :: "(32 word \<times> ptr) list"
  ctlHist :: ctl_history

definition kNew :: int where
  "kNew = - 1"

definition kAdded :: int where
  "kAdded = 1"

definition kDeleted :: int where
  "kDeleted = 2"

definition kInitEventListSize :: nat where
  "kInitEventListSize = 16"

text \<open>\<open>EPollPoller::EPollPoller\<close>, given the answer of \<open>epoll_create1\<close>.\<close>

definition EPollPoller_new :: "int \<Rightarrow> (ptr \<rightharpoonup> channel) \<Rightarrow> poller res" where
  "EPollPoller_new epollfd store =
     (if epollfd < 0 then Inl (Exit ''epoll_create error:%d'')
      else Inr \<lparr>chans = store, channelMap = Map.empty,
                eventList = replicate kInitEventListSize (0, 0), ctlHist = []\<rparr>)"

definition deref :: "ptr \<Rightarrow> poller \<Rightarrow> channel res" where
  "deref p s = (case chans s p of Some ch \<Rightarrow> Inr ch | None \<Rightarrow> Inl (UB ''dangling Channel*''))"

definition store :: "ptr \<Rightarrow> channel \<Rightarrow> poller \<Rightarrow> poller" where
  "store p ch s = s\<lparr>chans := (chans s)(p \<mapsto> ch)\<rparr>"

section \<open>Operations\<close>

definition EPollPoller_update :: "os \<Rightarrow> ctl_op \<Rightarrow> ptr \<Rightarrow> poller \<Rightarrow> poller res" where
  "EPollPoller_update os operation p s =
     bindR (deref p s) (\<lambda>ch.
       let call = \<lparr>ctl_op = operation, ctl_fd = ch_fd ch, ctl_events = ch_events ch, ctl_ptr = p\<rparr>;
           ok = sys_epoll_ctl os (ctlHist s) call;
           s1 = s\<lparr>ctlHist := (call, ok) # ctlHist s\<rparr>
       in if ok then Inr s1
          else if operation = EPOLL_CTL_DEL then Inr s1
          else Inl (Exit ''epoll_ctl add/mod error:%d''))"

definition EPollPoller_updateChannel :: "os \<Rightarrow> ptr \<Rightarrow> poller \<Rightarrow> poller res" where
  "EPollPoller_updateChannel os p s =
     bindR (deref p s) (\<lambda>ch.
       if ch_index ch = kNew \<or> ch_index ch = kDeleted
       then let s1 = (if ch_index ch = kNew
                      then s\<lparr>channelMap := (channelMap s)(ch_fd ch \<mapsto> p)\<rparr> else s)
            in EPollPoller_update os EPOLL_CTL_ADD p (store p (set_index kAdded ch) s1)
       else if isNoneEvent ch
       then bindR (EPollPoller_update os EPOLL_CTL_DEL p s) (\<lambda>s1.
              Inr (store p (set_index kDeleted ch) s1))
       else EPollPoller_update os EPOLL_CTL_MOD p s)"

definition EPollPoller_removeChannel :: "os \<Rightarrow> ptr \<Rightarrow> poller \<Rightarrow> poller res" where
  "EPollPoller_removeChannel os p s =
     bindR (deref p s) (\<lambda>ch.
       let s1 = s\<lparr>channelMap := (channelMap s)(ch_fd ch := None)\<rparr>
       in bindR (if ch_index ch = kAdded then EPollPoller_update os EPOLL_CTL_DEL p s1 else Inr s1)
            (\<lambda>s2. Inr (store p (set_index kNew ch) s2)))"

definition Poller_hasChannel :: "ptr \<Rightarrow> poller \<Rightarrow> bool res" where
  "Poller_hasChannel p s = bindR (deref p s) (\<lambda>ch. Inr (channelMap s (ch_fd ch) = Some p))"

text \<open>
  \<open>poll\<close>: \<open>wait n\<close> is the answer of \<open>epoll_wait\<close> for at most \<open>n\<close> events, the reported events
  in order, which overwrite the front of the vector. \<open>fillActiveChannels\<close> walks the first
  \<open>numEvents\<close> entries; the vector doubles when it was filled to the end.
\<close>

fun fillActiveChannels :: "(32 word \<times> ptr) list \<Rightarrow> poller \<times> ptr list \<Rightarrow> (poller \<times> ptr list) res" where
  "fillActiveChannels [] (s, active) = Inr (s, active)"
| "fillActiveChannels ((ev, p) # es) (s, active) =
     bindR (deref p s) (\<lambda>ch.
       fillActiveChannels es (store p (set_revents ev ch) s, active @ [p]))"

definition EPollPoller_poll ::
    "(nat \<Rightarrow> (32 word \<times> ptr) list sys) \<Rightarrow> poller \<times> ptr list \<Rightarrow> (poller \<times> ptr list) res" where
  "EPollPoller_poll wait sa =
     (case sa of (s, active) \<Rightarrow>
        let size = length (eventList s) in
        case wait size of
          SysErr e \<Rightarrow> Inr (s, active)
        | SysOk es \<Rightarrow>
            let s1 = s\<lparr>eventList := es @ drop (length es) (eventList s)\<rparr>;
                numEvents = length es
            in if numEvents > 0
               then bindR (fillActiveChannels (take numEvents (eventList s1)) (s1, active))
                 (\<lambda>(s2, active2).
                   if numEvents = length (eventList s2)
                   then Inr (s2\<lparr>eventList := eventList s2 @ replicate (length (eventList s2)) (0, 0)\<rparr>,
                             active2)
                   else Inr (s2, active2))
               else Inr (s1, active))"

text \<open>
  \<open>Channel::enableReading\<close> and its siblings, and \<open>Channel::remove\<close>: the interest mask
  changes, then \<open>update()\<close> goes through \<open>EventLoop::updateChannel\<close> to the poller.
\<close>

definition Channel_set_interest :: "os \<Rightarrow> interest_op \<Rightarrow> ptr \<Rightarrow> poller \<Rightarrow> poller res" where
  "Channel_set_interest os p_op p s =
     bindR (deref p s) (\<lambda>ch.
       EPollPoller_updateChannel os p (store p (change_events p_op ch) s))"

section \<open>Invariant\<close>

text \<open>
  A channel is in the poller's map exactly when its index says kAdded or kDeleted, under
  its own descriptor; the kernel's interest list holds exactly the channels at kAdded, with
  the mask the channel has.
\<close>

definition chan_ok :: "poller \<Rightarrow> ptr \<Rightarrow> channel \<Rightarrow> bool" where
  "chan_ok s p ch \<longleftrightarrow>
     (ch_index ch = kNew \<and> (\<forall>fd. channelMap s fd \<noteq> Some p)) \<or>
     (ch_index ch = kAdded \<and> channelMap s (ch_fd ch) = Some p \<and>
        interest_of (ctlHist s) (ch_fd ch) = Some (ch_events ch, p)) \<or>
     (ch_index ch = kDeleted \<and> channelMap s (ch_fd ch) = Some p \<and>
        interest_of (ctlHist s) (ch_fd ch) = None)"

definition poller_ok :: "poller \<Rightarrow> bool" where
  "poller_ok s \<longleftrightarrow>
     (\<forall>p ch. chans s p = Some ch \<longrightarrow> chan_ok s p ch) \<and>
     (\<forall>fd p. channelMap s fd = Some p \<longrightarrow> (\<exists>ch. chans s p = Some ch \<and> ch_fd ch = fd)) \<and>
     (\<forall>fd. channelMap s fd = None \<longrightarrow> interest_of (ctlHist s) fd = None)"

text \<open>The descriptor of \<open>p\<close> is not in use by another channel.\<close>

definition fd_free :: "poller \<Rightarrow> ptr \<Rightarrow> fd \<Rightarrow> bool" where
  "fd_free s p fd \<longleftrightarrow> channelMap s fd = None \<or> channelMap s fd = Some p"

text \<open>The abstract poller: the mask that epoll watches for each descriptor, and for whom.\<close>

definition watched :: "poller \<Rightarrow> interest" where
  "watched s = interest_of (ctlHist s)"

lemma index_distinct [simp]:
  "kNew \<noteq> kAdded" "kNew \<noteq> kDeleted" "kAdded \<noteq> kDeleted"
  "kAdded \<noteq> kNew" "kDeleted \<noteq> kNew" "kDeleted \<noteq> kAdded"
  by (simp_all add: kNew_def kAdded_def kDeleted_def)

lemma deref_Inr [simp]: "deref p s = Inr ch \<longleftrightarrow> chans s p = Some ch"
  by (auto simp: deref_def split: option.splits)

lemma deref_Some [simp]: "chans s p = Some ch \<Longrightarrow> deref p s = Inr ch"
  by simp

lemma store_simps [simp]:
  "chans (store p ch s) = (chans s)(p \<mapsto> ch)" "channelMap (store p ch s) = channelMap s"
  "eventList (store p ch s) = eventList s" "ctlHist (store p ch s) = ctlHist s"
  "deref p (store p ch s) = Inr ch"
  by (simp_all add: store_def deref_def)

section \<open>Every operation keeps the invariant\<close>

lemma poller_okD:
  assumes "poller_ok s"
  shows "chans s p = Some ch \<Longrightarrow> chan_ok s p ch"
    "channelMap s fd = Some p \<Longrightarrow> \<exists>ch. chans s p = Some ch \<and> ch_fd ch = fd"
    "channelMap s fd = None \<Longrightarrow> interest_of (ctlHist s) fd = None"
  using assms by (auto simp: poller_ok_def)

lemma chan_ok_index:
  "chan_ok s p ch \<Longrightarrow> ch_index ch = kNew \<or> ch_index ch = kAdded \<or> ch_index ch = kDeleted"
  by (auto simp: chan_ok_def)

text \<open>One channel and the entry of its descriptor change; the rest is as before.\<close>

lemma poller_ok_local:
  assumes ok: "poller_ok s" and ch: "chans s p = Some ch" and free: "fd_free s p (ch_fd ch)"
    and "chans s' = (chans s)(p \<mapsto> ch')" and "ch_fd ch' = ch_fd ch"
    and "channelMap s' = (channelMap s)(ch_fd ch := m)" and "m = None \<or> m = Some p"
    and "watched s' = (watched s)(ch_fd ch := w)" and "m = None \<Longrightarrow> w = None"
    and ok': "chan_ok s' p ch'"
  shows "poller_ok s'"
proof -
  have "chan_ok s' q cq" if q: "q \<noteq> p" "chans s q = Some cq" for q cq
  proof (cases "ch_fd cq = ch_fd ch")
    case True
    with free q have "channelMap s (ch_fd cq) \<noteq> Some q" by (auto simp: fd_free_def)
    with poller_okD(1)[OF ok q(2)] q assms(6,7) show ?thesis by (auto simp: chan_ok_def)
  next
    case False
    with poller_okD(1)[OF ok q(2)] q assms(6,7,8) show ?thesis
      by (auto simp: chan_ok_def watched_def)
  qed
  moreover have "\<exists>cq. chans s' q = Some cq \<and> ch_fd cq = fd" if "channelMap s' fd = Some q" for fd q
    using that assms(4-7) poller_okD(2)[OF ok, of fd q] ch by (auto split: if_splits)
  moreover have "interest_of (ctlHist s') fd = None" if "channelMap s' fd = None" for fd
    using that assms(6-9) poller_okD(3)[OF ok, of fd]
    by (auto simp: watched_def split: if_splits)
  ultimately show ?thesis using ok' assms(4) unfolding poller_ok_def by auto
qed

lemma update_documented:
  assumes "ctl_doc os" and "chans s p = Some ch"
  shows "EPollPoller_update os oper p s =
    (let call = \<lparr>ctl_op = oper, ctl_fd = ch_fd ch, ctl_events = ch_events ch, ctl_ptr = p\<rparr>;
         ok = ctl_valid (watched s) call; s1 = s\<lparr>ctlHist := (call, ok) # ctlHist s\<rparr>
     in if ok \<or> oper = EPOLL_CTL_DEL then Inr s1 else Inl (Exit ''epoll_ctl add/mod error:%d''))"
  using assms by (auto simp: EPollPoller_update_def ctl_docD watched_def Let_def)

text \<open>
  The new state of a channel after one interest operation: with an empty mask a channel at
  kAdded goes to kDeleted, every other case ends at kAdded.
\<close>

definition index_after :: "channel \<Rightarrow> int" where
  "index_after ch = (if ch_index ch = kAdded \<and> isNoneEvent ch then kDeleted else kAdded)"

definition watched_after :: "ptr \<Rightarrow> channel \<Rightarrow> (32 word \<times> ptr) option" where
  "watched_after p ch = (if ch_index ch = kAdded \<and> isNoneEvent ch then None else Some (ch_events ch, p))"

lemma updateChannel_effect:
  assumes "ctl_doc os" and "chan_ok s p ch0" and "poller_ok s" and "fd_free s p (ch_fd ch)"
    and "chans s p = Some ch0" and "ch_fd ch = ch_fd ch0" and "ch_index ch = ch_index ch0"
  shows "\<exists>s'. EPollPoller_updateChannel os p (store p ch s) = Inr s' \<and>
    chans s' = (chans s)(p \<mapsto> set_index (index_after ch) ch) \<and>
    channelMap s' = (channelMap s)(ch_fd ch \<mapsto> p) \<and> eventList s' = eventList s \<and>
    watched s' = (watched s)(ch_fd ch := watched_after p ch)"
proof -
  let ?s = "store p ch s"
  have chan: "chans ?s p = Some ch" and w: "watched ?s = watched s" by (simp_all add: watched_def)
  consider "ch_index ch = kNew" | "ch_index ch = kAdded" | "ch_index ch = kDeleted"
    using chan_ok_index[OF assms(2)] assms(7) by auto
  then show ?thesis
  proof cases
    case 1
    with assms(2,7) have "\<forall>fd. channelMap s fd \<noteq> Some p" by (auto simp: chan_ok_def)
    with assms(3,4) have "watched s (ch_fd ch) = None"
      by (auto simp: fd_free_def watched_def dest: poller_okD(3))
    with 1 assms(1) show ?thesis
      by (auto simp: EPollPoller_updateChannel_def update_documented watched_def ctl_valid_def
          ctl_apply_def index_after_def watched_after_def Let_def fun_upd_def)
  next
    case 2
    with assms(2,6,7) have "watched s (ch_fd ch) \<noteq> None" "channelMap s (ch_fd ch) = Some p"
      by (auto simp: chan_ok_def watched_def)
    with 2 assms(1) show ?thesis
      by (auto simp: EPollPoller_updateChannel_def update_documented watched_def ctl_valid_def
          ctl_apply_def index_after_def watched_after_def Let_def set_index_def map_upd_triv)
  next
    case 3
    with assms(2,6,7) have "watched s (ch_fd ch) = None" "channelMap s (ch_fd ch) = Some p"
      by (auto simp: chan_ok_def watched_def)
    with 3 assms(1) show ?thesis
      by (auto simp: EPollPoller_updateChannel_def update_documented watched_def ctl_valid_def
          ctl_apply_def index_after_def watched_after_def Let_def map_upd_triv)
  qed
qed

lemma set_interest_effect:
  assumes "ctl_doc os" and "poller_ok s" and "chans s p = Some ch0" and "fd_free s p (ch_fd ch0)"
    and ch_def: "ch = change_events k ch0"
  shows "\<exists>s'. Channel_set_interest os k p s = Inr s' \<and> poller_ok s' \<and>
    chans s' = (chans s)(p \<mapsto> set_index (index_after ch) ch) \<and>
    channelMap s' = (channelMap s)(ch_fd ch0 \<mapsto> p) \<and> eventList s' = eventList s \<and>
    watched s' = (watched s)(ch_fd ch0 := watched_after p ch)"
proof -
  from poller_okD(1)[OF assms(2,3)] have ok: "chan_ok s p ch0" .
  obtain s' where s': "EPollPoller_updateChannel os p (store p ch s) = Inr s'"
    "chans s' = (chans s)(p \<mapsto> set_index (index_after ch) ch)"
    "channelMap s' = (channelMap s)(ch_fd ch0 \<mapsto> p)" "eventList s' = eventList s"
    "watched s' = (watched s)(ch_fd ch0 := watched_after p ch)"
    using updateChannel_effect[OF assms(1) ok assms(2) _ assms(3), of ch] assms(4)
    by (auto simp: ch_def)
  have "chan_ok s' p (set_index (index_after ch) ch)"
    using s'(3,5) by (auto simp: chan_ok_def index_after_def watched_after_def ch_def watched_def)
  then have "poller_ok s'"
    using s' by (intro poller_ok_local[OF assms(2-4), where m = "Some p"]) (auto simp: ch_def)
  with s' assms(3) show ?thesis by (simp add: Channel_set_interest_def ch_def)
qed

lemma removeChannel_effect:
  assumes "ctl_doc os" and "poller_ok s" and "chans s p = Some ch" and "fd_free s p (ch_fd ch)"
  shows "\<exists>s'. EPollPoller_removeChannel os p s = Inr s' \<and> poller_ok s' \<and>
    chans s' = (chans s)(p \<mapsto> set_index kNew ch) \<and>
    channelMap s' = (channelMap s)(ch_fd ch := None) \<and> eventList s' = eventList s \<and>
    watched s' = (watched s)(ch_fd ch := None)"
proof -
  from poller_okD(1)[OF assms(2,3)] have ok: "chan_ok s p ch" .
  let ?s = "s\<lparr>channelMap := (channelMap s)(ch_fd ch := None)\<rparr>"
  have "\<exists>s'. EPollPoller_removeChannel os p s = Inr s' \<and>
    chans s' = (chans s)(p \<mapsto> set_index kNew ch) \<and>
    channelMap s' = (channelMap s)(ch_fd ch := None) \<and> eventList s' = eventList s \<and>
    watched s' = (watched s)(ch_fd ch := None)"
  proof (cases "ch_index ch = kAdded")
    case True
    with ok have "watched s (ch_fd ch) \<noteq> None" by (auto simp: chan_ok_def watched_def)
    with True assms(1,3) show ?thesis
      by (simp add: EPollPoller_removeChannel_def update_documented watched_def ctl_valid_def
          ctl_apply_def Let_def)
  next
    case False
    have "watched s (ch_fd ch) = None"
      using False ok assms(2,4) poller_okD(3)[OF assms(2), of "ch_fd ch"]
      by (auto simp: chan_ok_def watched_def fd_free_def)
    then have "watched s = (watched s)(ch_fd ch := None)" by (simp add: fun_upd_idem)
    with False assms(3) show ?thesis by (simp add: EPollPoller_removeChannel_def watched_def)
  qed
  then obtain s' where s': "EPollPoller_removeChannel os p s = Inr s'"
    "chans s' = (chans s)(p \<mapsto> set_index kNew ch)"
    "channelMap s' = (channelMap s)(ch_fd ch := None)" "eventList s' = eventList s"
    "watched s' = (watched s)(ch_fd ch := None)"
    by blast
  have other: "channelMap s fd \<noteq> Some p" if "fd \<noteq> ch_fd ch" for fd
    using that assms(3) poller_okD(2)[OF assms(2), of fd p] by auto
  have "chan_ok s' p (set_index kNew ch)" using s'(3) other by (auto simp: chan_ok_def)
  then have "poller_ok s'"
    using s' by (intro poller_ok_local[OF assms(2-4), where m = None]) auto
  with s' show ?thesis by blast
qed

text \<open>
  What an operation on the channel at \<open>q\<close>, whose descriptor is \<open>fd\<close>, leaves alone: the other
  channels, the entries of the other descriptors, and the callbacks of the channel.
\<close>

definition chan_fd :: "ptr \<Rightarrow> fd \<Rightarrow> poller \<Rightarrow> bool" where
  "chan_fd q fd s \<longleftrightarrow> (case chans s q of None \<Rightarrow> True | Some ch \<Rightarrow> ch_fd ch = fd)"

definition poller_frame :: "ptr \<Rightarrow> fd \<Rightarrow> poller \<Rightarrow> poller \<Rightarrow> bool" where
  "poller_frame q fd s t \<longleftrightarrow> (chan_fd q fd s \<longrightarrow> chan_fd q fd t \<and>
     (\<forall>r. r \<noteq> q \<longrightarrow> chans t r = chans s r) \<and> (\<forall>g. g \<noteq> fd \<longrightarrow> channelMap t g = channelMap s g) \<and>
     (\<forall>ch. chans s q = Some ch \<longrightarrow> map_option callbacks_of (chans t q) = Some (callbacks_of ch)))"

lemma poller_frame_refl [simp]: "poller_frame q fd s s"
  by (simp add: poller_frame_def)

lemma poller_frame_trans: "poller_frame q fd s t \<Longrightarrow> poller_frame q fd t u \<Longrightarrow> poller_frame q fd s u"
  by (auto simp: poller_frame_def)

lemma poller_frame_same: "chans t = chans s \<Longrightarrow> channelMap t = channelMap s \<Longrightarrow> poller_frame q fd s t"
  by (simp add: poller_frame_def chan_fd_def)

lemma poller_frame_store:
  "chans s q = Some ch \<Longrightarrow> ch_fd ch' = ch_fd ch \<Longrightarrow> callbacks_of ch' = callbacks_of ch \<Longrightarrow> poller_frame q fd s (store q ch' s)"
  by (simp add: poller_frame_def chan_fd_def)

lemma EPollPoller_update_frame: "ends (EPollPoller_update os oper q s) (poller_frame q fd s)"
  by (auto simp: EPollPoller_update_def Let_def intro!: ends_value[where m = "m :: channel res" for m] poller_frame_same)

lemma deref_ends: "ends (deref q s) (\<lambda>ch. chans s q = Some ch)"
  by (simp add: deref_def split: option.split)

lemma updateChannel_frame: "ends (EPollPoller_updateChannel os q s) (poller_frame q fd s)"
proof (cases "chan_fd q fd s")
  case True
  have "ends (if ch_index ch = kNew \<or> ch_index ch = kDeleted
       then let s1 = (if ch_index ch = kNew then s\<lparr>channelMap := (channelMap s)(ch_fd ch \<mapsto> q)\<rparr> else s)
            in EPollPoller_update os EPOLL_CTL_ADD q (store q (set_index kAdded ch) s1)
       else if isNoneEvent ch
       then bindR (EPollPoller_update os EPOLL_CTL_DEL q s) (\<lambda>s1. Inr (store q (set_index kDeleted ch) s1))
       else EPollPoller_update os EPOLL_CTL_MOD q s) (poller_frame q fd s)"
    if ch: "chans s q = Some ch" for ch
  proof -
    have fd: "ch_fd ch = fd" using True ch by (simp add: chan_fd_def)
    have "poller_frame q fd s (store q (set_index kAdded ch) (s\<lparr>channelMap := (channelMap s)(ch_fd ch \<mapsto> q)\<rparr>))"
      "poller_frame q fd s (store q (set_index kAdded ch) s)"
      using ch fd by (auto simp: poller_frame_def chan_fd_def)
    then have "ends (EPollPoller_update os EPOLL_CTL_ADD q (store q (set_index kAdded ch)
          (if ch_index ch = kNew then s\<lparr>channelMap := (channelMap s)(ch_fd ch \<mapsto> q)\<rparr> else s))) (poller_frame q fd s)"
      by (intro ends_mono[OF EPollPoller_update_frame[where fd = fd]]) (auto elim: poller_frame_trans split: if_splits)
    moreover have "poller_frame q fd s (store q (set_index kDeleted ch) s1)" if "poller_frame q fd s s1" for s1
      using that ch fd by (auto simp: poller_frame_def chan_fd_def)
    then have "ends (bindR (EPollPoller_update os EPOLL_CTL_DEL q s) (\<lambda>s1. Inr (store q (set_index kDeleted ch) s1)))
        (poller_frame q fd s)"
      by (intro ends_seq[OF EPollPoller_update_frame[where fd = fd]]) simp
    ultimately show ?thesis
      using EPollPoller_update_frame[of os _ q s fd] by (simp add: Let_def)
  qed
  then show ?thesis unfolding EPollPoller_updateChannel_def by (rule ends_seq[OF deref_ends])
next
  case False
  then show ?thesis
    by (cases "EPollPoller_updateChannel os q s") (simp_all add: poller_frame_def)
qed

lemma set_interest_frame: "ends (Channel_set_interest os k q s) (poller_frame q fd s)"
proof -
  have "ends (EPollPoller_updateChannel os q (store q (change_events k ch) s)) (poller_frame q fd s)"
    if "chans s q = Some ch" for ch
  proof -
    have "poller_frame q fd s (store q (change_events k ch) s)"
      using that by (rule poller_frame_store) simp_all
    then show ?thesis using ends_mono[OF updateChannel_frame] poller_frame_trans by blast
  qed
  then show ?thesis unfolding Channel_set_interest_def by (rule ends_seq[OF deref_ends])
qed

lemma removeChannel_frame: "ends (EPollPoller_removeChannel os q s) (poller_frame q fd s)"
proof (cases "chan_fd q fd s")
  case True
  have "ends (let s1 = s\<lparr>channelMap := (channelMap s)(ch_fd ch := None)\<rparr>
       in bindR (if ch_index ch = kAdded then EPollPoller_update os EPOLL_CTL_DEL q s1 else Inr s1)
            (\<lambda>s2. Inr (store q (set_index kNew ch) s2))) (poller_frame q fd s)"
    if ch: "chans s q = Some ch" for ch
  proof -
    let ?s1 = "s\<lparr>channelMap := (channelMap s)(ch_fd ch := None)\<rparr>"
    have fd: "ch_fd ch = fd" using True ch by (simp add: chan_fd_def)
    have 1: "ends (if ch_index ch = kAdded then EPollPoller_update os EPOLL_CTL_DEL q ?s1 else Inr ?s1)
        (poller_frame q fd ?s1)"
      by (auto intro!: ends_if EPollPoller_update_frame)
    have "poller_frame q fd s (store q (set_index kNew ch) s2)" if "poller_frame q fd ?s1 s2" for s2
      using that ch fd by (auto simp: poller_frame_def chan_fd_def)
    then show ?thesis unfolding Let_def by (intro ends_seq[OF 1]) simp
  qed
  then show ?thesis unfolding EPollPoller_removeChannel_def by (rule ends_seq[OF deref_ends])
next
  case False
  then show ?thesis
    by (cases "EPollPoller_removeChannel os q s") (simp_all add: poller_frame_def)
qed

text \<open>A channel that is in the poller's map stays there under every interest operation.\<close>

definition listed :: "ptr \<Rightarrow> poller \<Rightarrow> bool" where
  "listed q s \<longleftrightarrow> (case chans s q of None \<Rightarrow> False | Some ch \<Rightarrow> ch_index ch \<noteq> kNew)"

definition stays_listed :: "poller \<Rightarrow> poller \<Rightarrow> bool" where
  "stays_listed s t \<longleftrightarrow> (\<forall>q. listed q s \<longrightarrow> listed q t)"

lemma stays_listed_refl [simp]: "stays_listed s s"
  by (simp add: stays_listed_def)

lemma stays_listed_trans: "stays_listed s t \<Longrightarrow> stays_listed t u \<Longrightarrow> stays_listed s u"
  by (simp add: stays_listed_def)

lemma stays_listed_chans: "chans t = chans s \<Longrightarrow> stays_listed s t"
  by (simp add: stays_listed_def listed_def)

lemma stays_listed_store: "listed q s \<Longrightarrow> ch_index ch \<noteq> kNew \<Longrightarrow> stays_listed s (store q ch s)"
  by (simp add: stays_listed_def listed_def)

lemma stays_listed_fresh: "\<not> listed q s \<Longrightarrow> stays_listed s (store q ch s)"
  by (auto simp: stays_listed_def listed_def)

lemma EPollPoller_update_listed: "ends (EPollPoller_update os oper q s) (stays_listed s)"
  by (auto simp: EPollPoller_update_def Let_def stays_listed_chans intro!: ends_value[where m = "m :: channel res" for m])

lemma stays_listed_index: "ch_index ch \<noteq> kNew \<Longrightarrow> stays_listed s t \<Longrightarrow> stays_listed s (store q ch t)"
  by (auto simp: stays_listed_def listed_def)

lemma set_interest_listed: "ends (Channel_set_interest os k q s) (stays_listed s)"
proof -
  have upd: "ends (EPollPoller_update os oper q t) (stays_listed s)" if "stays_listed s t" for oper t
    using ends_mono[OF EPollPoller_update_listed] that stays_listed_trans by blast
  have del: "ends (bindR (EPollPoller_update os EPOLL_CTL_DEL q t) (\<lambda>s1. Inr (store q (set_index kDeleted ch) s1))) (stays_listed s)"
    if "stays_listed s t" for ch t
    by (rule ends_seq[OF upd[OF that]]) (simp add: stays_listed_index set_index_def)
  have "ends (EPollPoller_updateChannel os q (store q (change_events k ch) s)) (stays_listed s)"
    if ch: "chans s q = Some ch" for ch
  proof -
    let ?s = "store q (change_events k ch) s"
    have 1: "stays_listed s ?s" using ch by (simp add: stays_listed_def listed_def)
    then have 2: "stays_listed s (store q (set_index kAdded c) (if b then ?s\<lparr>channelMap := m\<rparr> else ?s))" for c b m
      by (intro stays_listed_index) (auto simp: set_index_def stays_listed_def listed_def)
    show ?thesis
      unfolding EPollPoller_updateChannel_def Let_def
      by (intro ends_value[where m = "m :: channel res" for m] ends_if upd del 1 2)
  qed
  then show ?thesis unfolding Channel_set_interest_def by (rule ends_seq[OF deref_ends])
qed

text \<open>\<open>hasChannel\<close> and \<open>poll\<close>.\<close>

lemma hasChannel_spec:
  assumes "poller_ok s" and "chans s p = Some ch"
  shows "Poller_hasChannel p s = Inr (ch_index ch \<noteq> kNew)"
  using poller_okD(1)[OF assms] assms(2) by (auto simp: Poller_hasChannel_def chan_ok_def)

definition reported :: "(32 word \<times> ptr) list \<Rightarrow> ptr \<Rightarrow> 32 word option" where
  "reported es p = map_of (rev (map (\<lambda>(ev, q). (q, ev)) es)) p"

lemma reported_simps [simp]:
  "reported [] p = None"
  "reported ((ev, q) # es) p = (case reported es p of None \<Rightarrow> if p = q then Some ev else None | r \<Rightarrow> r)"
  by (auto simp: reported_def map_add_def split: option.splits)

definition with_revents :: "(32 word \<times> ptr) list \<Rightarrow> (ptr \<rightharpoonup> channel) \<Rightarrow> (ptr \<rightharpoonup> channel)" where
  "with_revents es m = (\<lambda>p. case reported es p of None \<Rightarrow> m p | Some ev \<Rightarrow> map_option (set_revents ev) (m p))"

lemma set_revents_twice [simp]: "set_revents a (set_revents b ch) = set_revents a ch"
  by (simp add: set_revents_def)

lemma fill_spec:
  "\<forall>(ev, p) \<in> set es. chans s p \<noteq> None \<Longrightarrow>
   \<exists>s'. fillActiveChannels es (s, act) = Inr (s', act @ map snd es) \<and>
     chans s' = with_revents es (chans s) \<and> channelMap s' = channelMap s \<and>
     ctlHist s' = ctlHist s \<and> eventList s' = eventList s"
proof (induction es arbitrary: s act)
  case Nil
  then show ?case by (simp add: with_revents_def)
next
  case (Cons e es)
  obtain ev p where e: "e = (ev, p)" by (cases e)
  with Cons.prems obtain ch where ch: "chans s p = Some ch" by auto
  let ?s = "store p (set_revents ev ch) s"
  have "\<forall>(ev, q) \<in> set es. chans ?s q \<noteq> None" using Cons.prems by auto
  from Cons.IH[OF this, of "act @ [p]"] obtain s' where
    s': "fillActiveChannels es (?s, act @ [p]) = Inr (s', (act @ [p]) @ map snd es)"
    "chans s' = with_revents es (chans ?s)" "channelMap s' = channelMap ?s"
    "ctlHist s' = ctlHist ?s" "eventList s' = eventList ?s" by blast
  have "with_revents es (chans ?s) = with_revents (e # es) (chans s)"
    using ch e by (auto simp: with_revents_def fun_eq_iff split: option.splits)
  with s' ch e show ?case by simp
qed

lemma with_revents_dom: "with_revents es m p = None \<longleftrightarrow> m p = None"
  by (simp add: with_revents_def split: option.splits)

lemma with_revents_Some:
  "with_revents es m p = Some ch \<Longrightarrow>
   \<exists>ch0. m p = Some ch0 \<and> (ch = ch0 \<or> (\<exists>ev. ch = set_revents ev ch0))"
  by (auto simp: with_revents_def split: option.splits)

lemma chan_ok_set_revents [simp]: "chan_ok s p (set_revents ev ch) = chan_ok s p ch"
  by (simp add: chan_ok_def)

lemma poller_ok_revents:
  assumes "poller_ok s" and "chans s' = with_revents es (chans s)"
    and "channelMap s' = channelMap s" and "ctlHist s' = ctlHist s"
  shows "poller_ok s'"
proof -
  have eq: "chan_ok s' p ch = chan_ok s p ch" for p ch using assms(3,4) by (simp add: chan_ok_def)
  have "chan_ok s' p ch" if "chans s' p = Some ch" for p ch
    using with_revents_Some[of es "chans s" p ch] that assms(2) poller_okD(1)[OF assms(1), of p]
    by (auto simp: eq)
  moreover have "\<exists>ch. chans s' p = Some ch \<and> ch_fd ch = fd" if "channelMap s' fd = Some p" for fd p
  proof -
    from that assms(3) poller_okD(2)[OF assms(1)] obtain ch where
      "chans s p = Some ch" "ch_fd ch = fd" by auto
    then show ?thesis using assms(2) by (auto simp: with_revents_def split: option.splits)
  qed
  ultimately show ?thesis using assms(1,3,4) by (simp add: poller_ok_def)
qed

text \<open>
  The documented answer of \<open>epoll_wait\<close>: at most as many events as asked for, each for a
  descriptor in the interest list, with the data given when it was added.
\<close>

definition wait_doc :: "(nat \<Rightarrow> (32 word \<times> ptr) list sys) \<Rightarrow> poller \<Rightarrow> bool" where
  "wait_doc wait s \<longleftrightarrow>
     (\<forall>n es. wait n = SysOk es \<longrightarrow> length es \<le> n \<and>
        (\<forall>(ev, p) \<in> set es. \<exists>fd m. watched s fd = Some (m, p)))"

lemma watched_chan:
  assumes "poller_ok s" and "watched s fd = Some (m, p)"
  shows "channelMap s fd = Some p \<and>
    (\<exists>ch. chans s p = Some ch \<and> ch_fd ch = fd \<and> ch_index ch = kAdded \<and> ch_events ch = m)"
proof -
  from assms poller_okD(3) obtain q where "channelMap s fd = Some q"
    by (cases "channelMap s fd") (auto simp: watched_def)
  with poller_okD(2)[OF assms(1)] obtain ch where ch: "chans s q = Some ch" "ch_fd ch = fd" by blast
  with poller_okD(1)[OF assms(1) ch(1)] assms(2) \<open>channelMap s fd = Some q\<close> show ?thesis
    by (auto simp: chan_ok_def watched_def)
qed

lemmas watched_mapped = watched_chan[THEN conjunct1]
lemmas watched_live = watched_chan[THEN conjunct2]

lemma poll_effect:
  assumes "poller_ok s" and "wait_doc wait s" and "wait (length (eventList s)) = SysOk es"
  shows "\<exists>s'. EPollPoller_poll wait (s, act) = Inr (s', act @ map snd es) \<and> poller_ok s' \<and>
    chans s' = with_revents es (chans s) \<and> watched s' = watched s \<and>
    length (eventList s') = (if es \<noteq> [] \<and> length es = length (eventList s)
      then 2 * length (eventList s) else length (eventList s))"
proof -
  let ?s = "s\<lparr>eventList := es @ drop (length es) (eventList s)\<rparr>"
  have len: "length es \<le> length (eventList s)" using assms(2,3) by (auto simp: wait_doc_def)
  have "\<forall>(ev, p) \<in> set es. chans ?s p \<noteq> None"
    using assms watched_live by (fastforce simp: wait_doc_def)
  from fill_spec[OF this, of act] obtain s' where
    s': "fillActiveChannels es (?s, act) = Inr (s', act @ map snd es)"
    "chans s' = with_revents es (chans s)" "channelMap s' = channelMap s"
    "ctlHist s' = ctlHist s" "eventList s' = eventList ?s" by auto
  have ok': "poller_ok (s'\<lparr>eventList := l\<rparr>)" for l
    using s' by (intro poller_ok_revents[OF assms(1)]) auto
  show ?thesis
  proof (cases "es = []")
    case True
    with assms(1,3) show ?thesis
      by (auto simp: EPollPoller_poll_def watched_def with_revents_def
          intro!: poller_ok_revents[OF assms(1), of _ "[]"])
  next
    case False
    let ?l = "if length es = length (eventList s') then
      eventList s' @ replicate (length (eventList s')) (0, 0) else eventList s'"
    have "EPollPoller_poll wait (s, act) = Inr (s'\<lparr>eventList := ?l\<rparr>, act @ map snd es)"
      using False assms(3) s'(1) by (auto simp: EPollPoller_poll_def Let_def)
    with False s' len ok'[of ?l] show ?thesis by (auto simp: watched_def)
  qed
qed

text \<open>What \<open>poll\<close> changes: \<open>revents_\<close> of channels, the vector, the list of active channels.\<close>

definition same_but_revents :: "poller \<Rightarrow> poller \<Rightarrow> bool" where
  "same_but_revents s t \<longleftrightarrow> channelMap t = channelMap s \<and> ctlHist t = ctlHist s \<and> (\<exists>es. chans t = with_revents es (chans s))"

lemma same_but_reventsD:
  assumes "same_but_revents s t"
  shows "channelMap t = channelMap s" "ctlHist t = ctlHist s" "watched t = watched s"
    "chans t q = chans s q \<or> (\<exists>ev ch. chans s q = Some ch \<and> chans t q = Some (set_revents ev ch))"
  using assms by (auto simp: same_but_revents_def watched_def with_revents_def split: option.split)
    (cases "chans s q"; auto)

lemma poll_safe:
  assumes "poller_ok s" and "wait_doc wait s"
  shows "\<exists>t new. EPollPoller_poll wait (s, act) = Inr (t, act @ new) \<and> poller_ok t \<and> same_but_revents s t \<and>
    (\<forall>q \<in> set new. \<exists>ch. chans t q = Some ch \<and> ch_index ch = kAdded)"
proof (cases "wait (length (eventList s))")
  case (SysErr e)
  moreover have "with_revents [] (chans s) = chans s" by (simp add: with_revents_def)
  then have "same_but_revents s s" unfolding same_but_revents_def by metis
  ultimately show ?thesis using assms(1) by (intro exI[of _ s] exI[of _ "[]"]) (simp add: EPollPoller_poll_def Let_def)
next
  case (SysOk es)
  let ?s = "s\<lparr>eventList := es @ drop (length es) (eventList s)\<rparr>"
  have live: "\<exists>ch. chans s q = Some ch \<and> ch_index ch = kAdded" if "(ev, q) \<in> set es" for ev q
    using assms SysOk that watched_live[OF assms(1)] by (fastforce simp: wait_doc_def)
  then have "\<forall>(ev, p) \<in> set es. chans ?s p \<noteq> None" by fastforce
  from fill_spec[OF this, of act] obtain t where t: "fillActiveChannels es (?s, act) = Inr (t, act @ map snd es)"
    "chans t = with_revents es (chans s)" "channelMap t = channelMap s" "ctlHist t = ctlHist s" "eventList t = eventList ?s"
    by auto
  let ?t = "if length es = length (eventList t) then t\<lparr>eventList := eventList t @ replicate (length (eventList t)) (0, 0)\<rparr> else t"
  have nil: "with_revents [] (chans s) = chans s" by (simp add: with_revents_def)
  have "EPollPoller_poll wait (s, act) = Inr (if es = [] then ?s else ?t, act @ map snd es)"
    using SysOk t(1) by (simp add: EPollPoller_poll_def Let_def)
  moreover have same: "same_but_revents s (if es = [] then ?s else ?t)"
    using t(2-4) nil unfolding same_but_revents_def by (intro conjI exI[of _ es]) simp_all
  moreover from same have "poller_ok (if es = [] then ?s else ?t)"
    using poller_ok_revents[OF assms(1)] unfolding same_but_revents_def by metis
  moreover have "\<exists>ch. chans (if es = [] then ?s else ?t) q = Some ch \<and> ch_index ch = kAdded" if "q \<in> set (map snd es)" for q
  proof -
    from that obtain ev where ev: "(ev, q) \<in> set es" by auto
    from live[OF this] obtain ch where "chans s q = Some ch" "ch_index ch = kAdded" by blast
    then have "\<exists>ch. chans t q = Some ch \<and> ch_index ch = kAdded" by (auto simp: t(2) with_revents_def split: option.split)
    with that show ?thesis by auto
  qed
  ultimately show ?thesis by blast
qed

section \<open>The contract of the abstract class Poller\<close>

text \<open>
  What the users of the abstract class \<open>Poller\<close> (the event loop and, through it, every
  channel) rely on: \<open>obj\<close> is the store of channels, \<open>watch\<close> what the poller watches,
  \<open>claim\<close> says that the channel's descriptor is not another channel's.
\<close>

locale demultiplexer =
  fixes okay :: "'s \<Rightarrow> bool" and obj :: "'s \<Rightarrow> ptr \<rightharpoonup> channel" and watch :: "'s \<Rightarrow> interest"
    and claim :: "'s \<Rightarrow> ptr \<Rightarrow> fd \<Rightarrow> bool"
    and set_interest :: "interest_op \<Rightarrow> ptr \<Rightarrow> 's \<Rightarrow> 's res" and remove :: "ptr \<Rightarrow> 's \<Rightarrow> 's res"
  assumes set_law: "okay s \<Longrightarrow> obj s p = Some ch \<Longrightarrow> claim s p (ch_fd ch) \<Longrightarrow>
      \<exists>s'. set_interest k p s = Inr s' \<and> okay s' \<and> claim s' p (ch_fd ch) \<and>
        obj s' = (obj s)(p \<mapsto> set_index (index_after (change_events k ch)) (change_events k ch)) \<and>
        watch s' = (watch s)(ch_fd ch := watched_after p (change_events k ch))"
    and remove_law: "okay s \<Longrightarrow> obj s p = Some ch \<Longrightarrow> claim s p (ch_fd ch) \<Longrightarrow>
      \<exists>s'. remove p s = Inr s' \<and> okay s' \<and> claim s' p (ch_fd ch) \<and>
        obj s' = (obj s)(p \<mapsto> set_index kNew ch) \<and> watch s' = (watch s)(ch_fd ch := None)"
begin

lemma set_dest:
  assumes "okay s" "obj s p = Some ch" "claim s p (ch_fd ch)" "set_interest k p s = Inr s'"
  shows "okay s'" "claim s' p (ch_fd ch)"
    "obj s' = (obj s)(p \<mapsto> set_index (index_after (change_events k ch)) (change_events k ch))"
    "watch s' = (watch s)(ch_fd ch := watched_after p (change_events k ch))"
  using set_law[OF assms(1-3), of k] assms(4) by auto

lemma remove_dest:
  assumes "okay s" "obj s p = Some ch" "claim s p (ch_fd ch)" "remove p s = Inr s'"
  shows "okay s'" "claim s' p (ch_fd ch)" "obj s' = (obj s)(p \<mapsto> set_index kNew ch)"
    "watch s' = (watch s)(ch_fd ch := None)"
  using remove_law[OF assms(1-3)] assms(4) by auto

lemma set_many:
  assumes "okay s" and "obj s p = Some ch" and "claim s p (ch_fd ch)"
  shows "\<exists>s' ch'. foldR (\<lambda>k. set_interest k p) ks s = Inr s' \<and> okay s' \<and>
    obj s' p = Some ch' \<and> ch_fd ch' = ch_fd ch \<and> claim s' p (ch_fd ch) \<and>
    ch_events ch' = ch_events (fold change_events ks ch) \<and>
    (\<forall>q. q \<noteq> p \<longrightarrow> obj s' q = obj s q) \<and> (\<forall>fd. fd \<noteq> ch_fd ch \<longrightarrow> watch s' fd = watch s fd)"
  using assms
proof (induction ks arbitrary: s ch)
  case Nil
  then show ?case by auto
next
  case (Cons k ks)
  from set_law[OF Cons.prems, of k] obtain s1 where s1: "set_interest k p s = Inr s1" "okay s1"
    "claim s1 p (ch_fd ch)"
    "obj s1 = (obj s)(p \<mapsto> set_index (index_after (change_events k ch)) (change_events k ch))"
    "watch s1 = (watch s)(ch_fd ch := watched_after p (change_events k ch))" by blast
  let ?ch = "set_index (index_after (change_events k ch)) (change_events k ch)"
  have "obj s1 p = Some ?ch" using s1(4) by simp
  moreover have "claim s1 p (ch_fd ?ch)" using s1(3) by simp
  ultimately obtain s' ch' where s': "foldR (\<lambda>k. set_interest k p) ks s1 = Inr s'" "okay s'"
    "obj s' p = Some ch'" "ch_fd ch' = ch_fd ?ch" "claim s' p (ch_fd ?ch)"
    "ch_events ch' = ch_events (fold change_events ks ?ch)"
    "\<forall>q. q \<noteq> p \<longrightarrow> obj s' q = obj s1 q" "\<forall>fd. fd \<noteq> ch_fd ?ch \<longrightarrow> watch s' fd = watch s1 fd"
    using Cons.IH[OF s1(2)] by blast
  have "ch_events (fold change_events ks ?ch) = ch_events (fold change_events (k # ks) ch)"
    using fold_change_events_cong[of ?ch "change_events k ch" ks] by simp
  with s1 s' show ?case by simp
qed

end

interpretation epoll: demultiplexer "\<lambda>s. ctl_doc os \<and> poller_ok s" chans watched fd_free
    "Channel_set_interest os" "EPollPoller_removeChannel os" for os
proof (unfold_locales, goal_cases)
  case (1 s p ch k)
  then have ok: "ctl_doc os" "poller_ok s" by simp_all
  from set_interest_effect[OF ok 1(2,3) refl, of k] ok(1) show ?case by (auto simp: fd_free_def)
next
  case (2 s p ch)
  then have ok: "ctl_doc os" "poller_ok s" by simp_all
  from removeChannel_effect[OF ok 2(2,3)] ok(1) show ?case by (auto simp: fd_free_def)
qed

section \<open>Programs of requests\<close>

text \<open>
  Any sequence of interest changes and removals, on channels with descriptors of their own,
  starting from a poller that has just been built.
\<close>

datatype request = Interest interest_op ptr | Remove ptr

fun request_ptr :: "request \<Rightarrow> ptr" where
  "request_ptr (Interest k p) = p"
| "request_ptr (Remove p) = p"

fun run_request :: "os \<Rightarrow> request \<Rightarrow> poller \<Rightarrow> poller res" where
  "run_request os (Interest k p) s = Channel_set_interest os k p s"
| "run_request os (Remove p) s = EPollPoller_removeChannel os p s"

definition own_fds :: "poller \<Rightarrow> bool" where
  "own_fds s \<longleftrightarrow> (\<forall>p q a b. chans s p = Some a \<longrightarrow> chans s q = Some b \<longrightarrow> ch_fd a = ch_fd b \<longrightarrow> p = q)"

lemma own_fds_free: "poller_ok s \<Longrightarrow> own_fds s \<Longrightarrow> chans s p = Some ch \<Longrightarrow> fd_free s p (ch_fd ch)"
  unfolding fd_free_def own_fds_def
  by (cases "channelMap s (ch_fd ch)") (auto dest: poller_okD(2))

lemma run_request_total:
  assumes "ctl_doc os" and "poller_ok s" and "own_fds s" and "chans s (request_ptr r) = Some ch"
  shows "\<exists>s'. run_request os r s = Inr s' \<and> poller_ok s' \<and> own_fds s' \<and> dom (chans s') = dom (chans s)"
proof -
  note free = own_fds_free[OF assms(2-4)]
  have own: "own_fds s'" if "chans s' = (chans s)(request_ptr r \<mapsto> ch')" "ch_fd ch' = ch_fd ch" for s' ch'
    using that assms(3,4) unfolding own_fds_def by (auto split: if_splits)
  show ?thesis
  proof (cases r)
    case (Interest k p)
    with set_interest_effect[OF assms(1,2,4) free refl, of k] own assms(4) show ?thesis by auto
  next
    case (Remove p)
    with removeChannel_effect[OF assms(1,2,4) free] own assms(4) show ?thesis by auto
  qed
qed

lemma run_requests_total:
  assumes "ctl_doc os" and "poller_ok s" and "own_fds s"
    and "\<forall>r \<in> set rs. chans s (request_ptr r) \<noteq> None"
  shows "\<exists>s'. foldR (run_request os) rs s = Inr s' \<and> poller_ok s' \<and> own_fds s' \<and>
    dom (chans s') = dom (chans s)"
proof -
  let ?P = "\<lambda>t. poller_ok t \<and> own_fds t \<and> dom (chans t) = dom (chans s)"
  have "\<exists>t'. run_request os r t = Inr t' \<and> ?P t'" if "r \<in> set rs" "?P t" for r t
  proof -
    from that assms(4) have "request_ptr r \<in> dom (chans t)" by auto
    then obtain ch where "chans t (request_ptr r) = Some ch" by auto
    with run_request_total[OF assms(1), of t r ch] that(2) show ?thesis by auto
  qed
  then show ?thesis using foldR_total[of ?P s rs "run_request os"] assms(2,3) by auto
qed

lemma EPollPoller_new_ok:
  assumes "0 \<le> epfd" and "\<forall>p ch. store0 p = Some ch \<longrightarrow> ch_index ch = kNew"
  shows "\<exists>s. EPollPoller_new epfd store0 = Inr s \<and> poller_ok s \<and> chans s = store0 \<and>
    watched s = Map.empty \<and> length (eventList s) = 16"
  using assms
  by (auto simp: EPollPoller_new_def poller_ok_def chan_ok_def watched_def kInitEventListSize_def)

section \<open>Properties\<close>

text \<open>A poller with two channels that have just been built, for the witnesses.\<close>

definition sample_poller :: poller where
  "sample_poller =
     \<lparr>chans = [7 \<mapsto> Channel_new 3, 9 \<mapsto> Channel_new 4], channelMap = Map.empty,
      eventList = replicate kInitEventListSize (0, 0), ctlHist = []\<rparr>"

lemma sample_poller_simps [simp]:
  "chans sample_poller 7 = Some (Channel_new 3)" "chans sample_poller 9 = Some (Channel_new 4)"
  "poller_ok sample_poller" "own_fds sample_poller" "watched sample_poller = Map.empty"
  "fd_free sample_poller p fd"
  by (auto simp: sample_poller_def poller_ok_def chan_ok_def own_fds_def kNew_def watched_def
      fd_free_def split: if_splits)

text \<open>C28: an interest operation of a channel (enable or disable reading or writing, disable
  all) succeeds whenever \<open>epoll_ctl\<close> behaves as its manual page says, keeps the agreement
  between index, map and kernel, and makes the poller watch the channel's descriptor with the
  channel's new mask; it stops watching it exactly when a watched channel's mask becomes
  empty, and nothing changes for other descriptors.\<close>

theorem Channel_set_interest_refines:
  assumes "ctl_doc os" and "poller_ok s" and "chans s p = Some ch" and "fd_free s p (ch_fd ch)"
  shows "\<exists>s'. Channel_set_interest os k p s = Inr s' \<and> poller_ok s' \<and>
    watched s' = (watched s)(ch_fd ch :=
      (if ch_index ch = kAdded \<and> isNoneEvent (change_events k ch) then None
       else Some (ch_events (change_events k ch), p)))"
  using set_interest_effect[OF assms refl, of k] by (auto simp: watched_after_def)

theorem Channel_set_interest_refines_witness:
  "\<exists>s'. Channel_set_interest sample_os EnableReading 7 sample_poller = Inr s' \<and>
    watched s' = [3 \<mapsto> (3, 7)]"
  using Channel_set_interest_refines[of sample_os sample_poller 7 "Channel_new 3" EnableReading]
  by (auto simp: kNew_def kAdded_def kReadEvent_def fun_upd_def)

text \<open>No program of interest changes and channel removals can make the process exit in
  \<open>epoll_ctl\<close> or follow a dangling channel pointer: starting from a new poller, with every
  channel on a descriptor of its own, every sequence of requests on existing channels runs to
  its end, in agreement with the kernel.\<close>

theorem Poller_requests_never_fail:
  assumes "ctl_doc os" and "EPollPoller_new epfd store0 = Inr s" and "own_fds s"
    and "\<forall>p ch. store0 p = Some ch \<longrightarrow> ch_index ch = kNew"
    and "\<forall>r \<in> set rs. request_ptr r \<in> dom store0"
  shows "\<exists>s'. foldR (run_request os) rs s = Inr s' \<and> poller_ok s'"
proof -
  from assms(2) have "0 \<le> epfd" by (auto simp: EPollPoller_new_def split: if_splits)
  with EPollPoller_new_ok[OF _ assms(4)] assms(2) have s: "poller_ok s" "chans s = store0" by force+
  with run_requests_total[OF assms(1) s(1) assms(3), of rs] assms(5) show ?thesis by auto
qed

theorem Poller_requests_never_fail_witness:
  "\<exists>s'. foldR (run_request sample_os)
      [Interest EnableReading 7, Interest DisableAll 7, Interest DisableAll 9, Remove 7, Remove 9,
       Interest EnableWriting 9] sample_poller = Inr s' \<and> poller_ok s'"
proof -
  have new: "EPollPoller_new 5 [7 \<mapsto> Channel_new 3, 9 \<mapsto> Channel_new 4] = Inr sample_poller"
    by (simp add: EPollPoller_new_def sample_poller_def)
  have fresh: "\<forall>p ch. [7 \<mapsto> Channel_new 3, 9 \<mapsto> Channel_new 4] p = Some ch \<longrightarrow> ch_index ch = kNew"
    by (auto simp: kNew_def split: if_splits)
  show ?thesis
    by (rule Poller_requests_never_fail[OF sample_os_doc(3) new sample_poller_simps(4) fresh]) (simp add: dom_def)
qed

text \<open>C32: one call of \<open>poll\<close> hands the event loop exactly the channels the kernel reported,
  in its order, each with the reported events in \<open>revents_\<close> (the last report where one
  channel has several); no reported pointer dangles, and the vector of events doubles exactly
  when the answer filled it.\<close>

theorem EPollPoller_poll_reports:
  assumes "poller_ok s" and "wait_doc wait s" and "wait (length (eventList s)) = SysOk es"
  shows "\<exists>s'. EPollPoller_poll wait (s, act) = Inr (s', act @ map snd es) \<and> poller_ok s' \<and>
    (\<forall>p. chans s' p = (case map_of (rev (map (\<lambda>(ev, q). (q, ev)) es)) p of
       None \<Rightarrow> chans s p | Some ev \<Rightarrow> map_option (set_revents ev) (chans s p))) \<and>
    length (eventList s') = (if es \<noteq> [] \<and> length es = length (eventList s)
      then 2 * length (eventList s) else length (eventList s))"
proof -
  obtain s' where "EPollPoller_poll wait (s, act) = Inr (s', act @ map snd es)" "poller_ok s'"
    "chans s' = with_revents es (chans s)"
    "length (eventList s') = (if es \<noteq> [] \<and> length es = length (eventList s)
      then 2 * length (eventList s) else length (eventList s))"
    using poll_effect[OF assms] by blast
  then show ?thesis unfolding with_revents_def reported_def by (intro exI[of _ s']) simp
qed

definition sample_watching :: poller where
  "sample_watching =
     \<lparr>chans = [7 \<mapsto> set_index kAdded (change_events EnableReading (Channel_new 3))],
      channelMap = [3 \<mapsto> 7], eventList = [(0, 0)],
      ctlHist = [(\<lparr>ctl_op = EPOLL_CTL_ADD, ctl_fd = 3, ctl_events = kReadEvent, ctl_ptr = 7\<rparr>, True)]\<rparr>"

lemma sample_watching_simps [simp]:
  "poller_ok sample_watching" "length (eventList sample_watching) = 1"
  "watched sample_watching = [3 \<mapsto> (kReadEvent, 7)]"
  by (auto simp: sample_watching_def poller_ok_def chan_ok_def watched_def ctl_apply_def
      split: if_splits)

theorem EPollPoller_poll_reports_witness:
  "\<exists>s'. EPollPoller_poll (\<lambda>n. if n = 0 then SysErr EINTR else SysOk [(1, 7)]) (sample_watching, []) =
      Inr (s', [7]) \<and> length (eventList s') = 2"
proof -
  have "wait_doc (\<lambda>n. if n = 0 then SysErr EINTR else SysOk [(1, 7)]) sample_watching"
    by (auto simp: wait_doc_def)
  from EPollPoller_poll_reports[OF sample_watching_simps(1) this, of "[(1, 7)]" "[]"]
  show ?thesis by auto
qed

text \<open>Disabling all events of a channel that has been disabled already does not leave it
  unwatched: the poller takes the channel at kDeleted for one to be added again and registers
  its descriptor with an empty mask, so that the kernel reports hangups and errors for it
  again.\<close>

theorem Channel_disableAll_twice_registers:
  assumes "ctl_doc os" and "poller_ok s" and "chans s p = Some ch" and "ch_index ch = kAdded"
  shows "\<exists>s1 s2. Channel_set_interest os DisableAll p s = Inr s1 \<and> watched s1 (ch_fd ch) = None \<and>
    Channel_set_interest os DisableAll p s1 = Inr s2 \<and> watched s2 (ch_fd ch) = Some (0, p)"
proof -
  have free: "fd_free s p (ch_fd ch)"
    using poller_okD(1)[OF assms(2,3)] assms(4) by (auto simp: chan_ok_def fd_free_def)
  have ok: "ctl_doc os \<and> poller_ok s" using assms(1,2) by simp
  from epoll.set_law[OF ok assms(3) free, of DisableAll] obtain s1 where
    s1: "Channel_set_interest os DisableAll p s = Inr s1" "ctl_doc os \<and> poller_ok s1"
    "fd_free s1 p (ch_fd ch)" "chans s1 p = Some (set_index kDeleted (change_events DisableAll ch))"
    "watched s1 (ch_fd ch) = None"
    using assms(4) by (auto simp: index_after_def watched_after_def isNoneEvent_def)
  from epoll.set_law[OF s1(2,4), of DisableAll] s1(3) obtain s2 where
    "Channel_set_interest os DisableAll p s1 = Inr s2" "watched s2 (ch_fd ch) = Some (0, p)"
    by (auto simp: watched_after_def kNoneEvent_def)
  with s1 show ?thesis by blast
qed

theorem Channel_disableAll_twice_registers_witness:
  "\<exists>s1 s2. Channel_set_interest sample_os DisableAll 7 sample_watching = Inr s1 \<and> watched s1 3 = None \<and>
    Channel_set_interest sample_os DisableAll 7 s1 = Inr s2 \<and> watched s2 3 = Some (0, 7)"
proof -
  let ?ch = "set_index kAdded (change_events EnableReading (Channel_new 3))"
  have "chans sample_watching 7 = Some ?ch" "ch_index ?ch = kAdded" "ch_fd ?ch = 3"
    by (simp_all add: sample_watching_def)
  with Channel_disableAll_twice_registers[OF sample_os_doc(3) sample_watching_simps(1), of 7 ?ch]
  show ?thesis by simp
qed

end
