(* ===== verification/EventLoop.thy ===== *)
theory EventLoop
  imports Poller
begin

text \<open>
  \<open>include/EventLoop.h\<close>, \<open>src/EventLoop.cpp\<close> and \<open>src/DefaultPoller.cpp\<close>: the loop object,
  its constructor and destructor, the task queue with its wake-up descriptor, one iteration
  of the loop and the loop itself. The tasks other threads queue are closures; \<open>Functor\<close> has
  one constructor for each closure the program builds. Operations that run closures work on
  the state \<open>'s\<close> of whatever holds the loop, through the accessors \<open>getL\<close> and \<open>mapL\<close>; the
  locale \<open>loop_host\<close> is their contract.
\<close>

section \<open>State\<close>

datatype Functor =
    F_connectEstablished nat
  | F_connectDestroyed nat
  | F_sendInLoop nat nat nat
  | F_shutdownInLoop nat
  | F_writeComplete nat
  | F_highWaterMark nat nat
  | F_removeConnectionInLoop nat
  | F_acceptorListen
  | F_user nat

text \<open>
  \<open>wakeWrites\<close> and \<open>wakeReads\<close> count the calls of \<open>write\<close> and \<open>read\<close> on the wake-up
  descriptor.
\<close>

record event_loop =
  looping :: bool
  quit :: bool
  threadId :: int
  pollReturnTime :: timestamp
  el_poller :: poller
  wakeupFd :: fd
  wakeupChannel :: ptr
  activeChannels :: "ptr list"
  callingPendingFunctors :: bool
  pendingFunctors :: "Functor list"
  wakeWrites :: nat
  wakeReads :: nat

section \<open>Construction and destruction\<close>

text \<open>\<open>Poller::newDefaultPoller\<close> returns a null pointer when MUDUO_USE_POLL is set.\<close>

definition newDefaultPoller :: "bool \<Rightarrow> int \<Rightarrow> (ptr \<rightharpoonup> channel) \<Rightarrow> poller option res" where
  "newDefaultPoller use_poll epfd chs =
     (if use_poll then Inr None else bindR (EPollPoller_new epfd chs) (\<lambda>p. Inr (Some p)))"

definition createEventfd :: "int \<Rightarrow> fd res" where
  "createEventfd evtfd = (if evtfd < 0 then Inl (Exit ''eventfd error:%d'') else Inr evtfd)"

text \<open>
  \<open>EventLoop::EventLoop\<close> in thread \<open>tid\<close>: \<open>loop_here\<close> is the thread-local pointer
  \<open>t_loopInThisThread\<close>, \<open>self\<close> the address of the new object, \<open>wp\<close> that of its wake-up
  channel; \<open>epfd\<close> and \<open>evtfd\<close> are the answers of \<open>epoll_create1\<close> and \<open>eventfd\<close>. Enabling the
  wake-up channel goes through \<open>poller_\<close>, which is undefined behaviour if that is null.
\<close>

definition EventLoop_new ::
    "os \<Rightarrow> bool \<Rightarrow> int \<Rightarrow> int \<Rightarrow> int \<Rightarrow> nat \<Rightarrow> ptr \<Rightarrow> nat option \<Rightarrow> (event_loop \<times> nat option) res" where
  "EventLoop_new os use_poll epfd evtfd tid self wp loop_here =
     bindR (newDefaultPoller use_poll epfd Map.empty) (\<lambda>poller.
     bindR (createEventfd evtfd) (\<lambda>wfd.
     if loop_here \<noteq> None then Inl (Exit ''Another EventLoop %p exists in this thread %d.'')
     else case poller of
         None \<Rightarrow> Inl (UB ''null Poller*'')
       | Some p0 \<Rightarrow>
           bindR (Channel_set_interest os EnableReading wp
                    (store wp ((Channel_new wfd)\<lparr>readCallback := Some LoopHandleRead\<rparr>) p0)) (\<lambda>p1.
             Inr (\<lparr>looping = False, quit = False, threadId = tid, pollReturnTime = 0, el_poller = p1,
                   wakeupFd = wfd, wakeupChannel = wp, activeChannels = [],
                   callingPendingFunctors = False, pendingFunctors = [],
                   wakeWrites = 0, wakeReads = 0\<rparr>, Some self))))"

definition with_poller :: "(poller \<Rightarrow> poller res) \<Rightarrow> event_loop \<Rightarrow> event_loop res" where
  "with_poller f L = bindR (f (el_poller L)) (\<lambda>p. Inr (L\<lparr>el_poller := p\<rparr>))"

definition EventLoop_updateChannel :: "os \<Rightarrow> ptr \<Rightarrow> event_loop \<Rightarrow> event_loop res" where
  "EventLoop_updateChannel os p = with_poller (EPollPoller_updateChannel os p)"

definition EventLoop_removeChannel :: "os \<Rightarrow> ptr \<Rightarrow> event_loop \<Rightarrow> event_loop res" where
  "EventLoop_removeChannel os p = with_poller (EPollPoller_removeChannel os p)"

definition EventLoop_hasChannel :: "ptr \<Rightarrow> event_loop \<Rightarrow> bool res" where
  "EventLoop_hasChannel p L = Poller_hasChannel p (el_poller L)"

text \<open>A channel's interest operation, applied to the loop that owns it.\<close>

definition set_interest :: "os \<Rightarrow> interest_op \<Rightarrow> ptr \<Rightarrow> event_loop \<Rightarrow> event_loop res" where
  "set_interest os k p = with_poller (Channel_set_interest os k p)"

definition EventLoop_delete :: "os \<Rightarrow> event_loop \<Rightarrow> (event_loop \<times> nat option) res" where
  "EventLoop_delete os L =
     bindR (set_interest os DisableAll (wakeupChannel L) L) (\<lambda>L1.
     bindR (EventLoop_removeChannel os (wakeupChannel L1) L1) (\<lambda>L2. Inr (L2, None)))"

section \<open>Threads, tasks and wake-ups\<close>

definition isInLoopThread :: "int \<Rightarrow> event_loop \<Rightarrow> bool" where
  "isInLoopThread tid L \<longleftrightarrow> threadId L = tid"

definition assertInLoopThread :: "int \<Rightarrow> event_loop \<Rightarrow> unit res" where
  "assertInLoopThread tid L =
     (if \<not> isInLoopThread tid L then Inl (Exit ''[EventLoop::assertInLoopThread]'') else Inr ())"

definition EventLoop_wakeup :: "event_loop \<Rightarrow> event_loop" where
  "EventLoop_wakeup L = L\<lparr>wakeWrites := Suc (wakeWrites L)\<rparr>"

definition EventLoop_handleRead :: "event_loop \<Rightarrow> event_loop" where
  "EventLoop_handleRead L = L\<lparr>wakeReads := Suc (wakeReads L)\<rparr>"

definition EventLoop_quit :: "int \<Rightarrow> event_loop \<Rightarrow> event_loop" where
  "EventLoop_quit tid L =
     (let L1 = L\<lparr>quit := True\<rparr> in if \<not> isInLoopThread tid L1 then EventLoop_wakeup L1 else L1)"

definition queueInLoop :: "int \<Rightarrow> Functor \<Rightarrow> event_loop \<Rightarrow> event_loop" where
  "queueInLoop tid cb L =
     (let L1 = L\<lparr>pendingFunctors := pendingFunctors L @ [cb]\<rparr>
      in if \<not> isInLoopThread tid L1 \<or> callingPendingFunctors L1 then EventLoop_wakeup L1 else L1)"

definition runInLoop ::
    "('s \<Rightarrow> event_loop) \<Rightarrow> ((event_loop \<Rightarrow> event_loop) \<Rightarrow> 's \<Rightarrow> 's) \<Rightarrow> (Functor \<Rightarrow> 's \<Rightarrow> 's res) \<Rightarrow>
     int \<Rightarrow> Functor \<Rightarrow> 's \<Rightarrow> 's res" where
  "runInLoop getL mapL run tid cb s =
     (if isInLoopThread tid (getL s) then run cb s else Inr (mapL (queueInLoop tid cb) s))"

definition doPendingFunctors ::
    "('s \<Rightarrow> event_loop) \<Rightarrow> ((event_loop \<Rightarrow> event_loop) \<Rightarrow> 's \<Rightarrow> 's) \<Rightarrow> (Functor \<Rightarrow> 's \<Rightarrow> 's res) \<Rightarrow>
     's \<Rightarrow> 's res" where
  "doPendingFunctors getL mapL run s =
     (let s1 = mapL (\<lambda>L. L\<lparr>callingPendingFunctors := True\<rparr>) s;
          functors = pendingFunctors (getL s1);
          s2 = mapL (\<lambda>L. L\<lparr>pendingFunctors := []\<rparr>) s1
      in bindR (foldR run functors s2) (\<lambda>s3.
           Inr (mapL (\<lambda>L. L\<lparr>callingPendingFunctors := False\<rparr>) s3)))"

text \<open>
  One turn of the loop: \<open>wait\<close> and \<open>now\<close> are what \<open>epoll_wait\<close> and the clock answer,
  \<open>handle p t\<close> is \<open>handleEvent(t)\<close> on the channel at \<open>p\<close>. The loop itself takes the answers
  of the environment as a list; the boolean tells whether \<open>loop()\<close> returned or still waits
  for its next event when the list ends.
\<close>

type_synonym answer = "(nat \<Rightarrow> (32 word \<times> ptr) list sys) \<times> timestamp"

definition loop_turn ::
    "('s \<Rightarrow> event_loop) \<Rightarrow> ((event_loop \<Rightarrow> event_loop) \<Rightarrow> 's \<Rightarrow> 's) \<Rightarrow>
     (ptr \<Rightarrow> timestamp \<Rightarrow> 's \<Rightarrow> 's res) \<Rightarrow> (Functor \<Rightarrow> 's \<Rightarrow> 's res) \<Rightarrow> answer \<Rightarrow> 's \<Rightarrow> 's res" where
  "loop_turn getL mapL handle run a s =
     (let s1 = mapL (\<lambda>L. L\<lparr>activeChannels := []\<rparr>) s in
      bindR (EPollPoller_poll (fst a) (el_poller (getL s1), activeChannels (getL s1))) (\<lambda>(p, act).
      let s2 = mapL (\<lambda>L. L\<lparr>el_poller := p, activeChannels := act, pollReturnTime := snd a\<rparr>) s1 in
      bindR (foldR (\<lambda>ptr. handle ptr (pollReturnTime (getL s2))) act s2) (\<lambda>s3.
        doPendingFunctors getL mapL run s3)))"

fun loop_while ::
    "('s \<Rightarrow> event_loop) \<Rightarrow> ((event_loop \<Rightarrow> event_loop) \<Rightarrow> 's \<Rightarrow> 's) \<Rightarrow>
     (ptr \<Rightarrow> timestamp \<Rightarrow> 's \<Rightarrow> 's res) \<Rightarrow> (Functor \<Rightarrow> 's \<Rightarrow> 's res) \<Rightarrow> answer list \<Rightarrow> 's \<Rightarrow> ('s \<times> bool) res" where
  "loop_while getL mapL handle run answers s =
     (if quit (getL s) then Inr (mapL (\<lambda>L. L\<lparr>looping := False\<rparr>) s, True)
      else case answers of
          [] \<Rightarrow> Inr (s, False)
        | a # as \<Rightarrow> bindR (loop_turn getL mapL handle run a s) (loop_while getL mapL handle run as))"

declare loop_while.simps [simp del]

definition EventLoop_loop ::
    "('s \<Rightarrow> event_loop) \<Rightarrow> ((event_loop \<Rightarrow> event_loop) \<Rightarrow> 's \<Rightarrow> 's) \<Rightarrow>
     (ptr \<Rightarrow> timestamp \<Rightarrow> 's \<Rightarrow> 's res) \<Rightarrow> (Functor \<Rightarrow> 's \<Rightarrow> 's res) \<Rightarrow> answer list \<Rightarrow> 's \<Rightarrow> ('s \<times> bool) res" where
  "EventLoop_loop getL mapL handle run answers s =
     loop_while getL mapL handle run answers (mapL (\<lambda>L. L\<lparr>looping := True, quit := False\<rparr>) s)"

section \<open>Facts about the operations on the loop alone\<close>

lemma with_poller_Inr [res_simps]:
  "with_poller f L = Inr L' \<longleftrightarrow> (\<exists>p. f (el_poller L) = Inr p \<and> L' = L\<lparr>el_poller := p\<rparr>)"
  by (auto simp: with_poller_def bindR_Inr_iff)

lemma queueInLoop_simps [simp]:
  "pendingFunctors (queueInLoop tid cb L) = pendingFunctors L @ [cb]"
  "el_poller (queueInLoop tid cb L) = el_poller L" "threadId (queueInLoop tid cb L) = threadId L"
  "callingPendingFunctors (queueInLoop tid cb L) = callingPendingFunctors L"
  "quit (queueInLoop tid cb L) = quit L" "looping (queueInLoop tid cb L) = looping L"
  "wakeupChannel (queueInLoop tid cb L) = wakeupChannel L" "wakeupFd (queueInLoop tid cb L) = wakeupFd L"
  "wakeWrites (queueInLoop tid cb L) =
     (if threadId L \<noteq> tid \<or> callingPendingFunctors L then Suc (wakeWrites L) else wakeWrites L)"
  by (simp_all add: queueInLoop_def Let_def EventLoop_wakeup_def isInLoopThread_def)

lemma isInLoopThread_poller [simp]: "isInLoopThread tid (L\<lparr>el_poller := p\<rparr>) = isInLoopThread tid L"
  by (simp add: isInLoopThread_def)

lemma isInLoopThread_queue [simp]: "isInLoopThread tid (queueInLoop t cb L) = isInLoopThread tid L"
  by (simp add: isInLoopThread_def)

section \<open>The contract of a state that holds a loop\<close>

text \<open>
  \<open>run\<close> executes a closure. The client promises only that a closure appends to the queue
  and never takes from it; the lemmas say what the task queue gives in return.
\<close>

locale loop_host =
  fixes getL :: "'s \<Rightarrow> event_loop" and mapL :: "(event_loop \<Rightarrow> event_loop) \<Rightarrow> 's \<Rightarrow> 's"
    and run :: "Functor \<Rightarrow> 's \<Rightarrow> 's res"
  assumes get_map: "getL (mapL f s) = f (getL s)"
    and run_appends: "run cb s = Inr t \<Longrightarrow> \<exists>new. pendingFunctors (getL t) = pendingFunctors (getL s) @ new"
begin

lemma batch_appends:
  "foldR run fs s = Inr t \<Longrightarrow> \<exists>new. pendingFunctors (getL t) = pendingFunctors (getL s) @ new"
  by (rule foldR_invariant[where P = "\<lambda>u. \<exists>new. pendingFunctors (getL u) = pendingFunctors (getL s) @ new"])
    (use run_appends in fastforce)+

lemma doPendingFunctors_unfold:
  "doPendingFunctors getL mapL run s =
     bindR (foldR run (pendingFunctors (getL s))
       (mapL (\<lambda>L. L\<lparr>pendingFunctors := []\<rparr>) (mapL (\<lambda>L. L\<lparr>callingPendingFunctors := True\<rparr>) s)))
       (\<lambda>t. Inr (mapL (\<lambda>L. L\<lparr>callingPendingFunctors := False\<rparr>) t))"
  by (simp add: doPendingFunctors_def Let_def get_map)

lemma doPendingFunctors_flag:
  "doPendingFunctors getL mapL run s = Inr t \<Longrightarrow> \<not> callingPendingFunctors (getL t)"
  by (auto simp: doPendingFunctors_unfold bindR_Inr_iff get_map)

lemma runInLoop_here:
  "isInLoopThread tid (getL s) \<Longrightarrow> runInLoop getL mapL run tid cb s = run cb s"
  by (simp add: runInLoop_def)

lemma runInLoop_elsewhere:
  "\<not> isInLoopThread tid (getL s) \<Longrightarrow> \<exists>t. runInLoop getL mapL run tid cb s = Inr t \<and>
     pendingFunctors (getL t) = pendingFunctors (getL s) @ [cb] \<and>
     wakeWrites (getL t) = Suc (wakeWrites (getL s))"
  by (auto simp: runInLoop_def get_map isInLoopThread_def)

end

text \<open>
  A turn of the loop whose closures set \<open>quit\<close> is the last one, and whatever \<open>quit\<close> was
  before \<open>loop()\<close> is forgotten.
\<close>

lemma loop_while_quit:
  "quit (getL s) \<Longrightarrow> loop_while getL mapL handle run answers s =
     Inr (mapL (\<lambda>L. L\<lparr>looping := False\<rparr>) s, True)"
  by (simp add: loop_while.simps)

lemma loop_while_waits: "\<not> quit (getL s) \<Longrightarrow> loop_while getL mapL handle run [] s = Inr (s, False)"
  by (simp add: loop_while.simps)

lemma loop_while_turn:
  "\<not> quit (getL s) \<Longrightarrow> loop_while getL mapL handle run (a # as) s =
     bindR (loop_turn getL mapL handle run a s) (loop_while getL mapL handle run as)"
  by (simp add: loop_while.simps[of _ _ _ _ "a # as"])

section \<open>Construction and destruction\<close>

lemma new_channel_poller:
  assumes "ctl_doc os" and "0 \<le> epfd"
  shows "\<exists>p1. EPollPoller_new epfd Map.empty = Inr p1 \<and>
    (\<exists>p2. Channel_set_interest os EnableReading wp
        (store wp ((Channel_new fd)\<lparr>readCallback := cb\<rparr>) p1) = Inr p2 \<and> poller_ok p2 \<and>
      dom (chans p2) = {wp} \<and> watched p2 = [fd \<mapsto> (kReadEvent, wp)])"
proof -
  obtain p1 where p1: "EPollPoller_new epfd Map.empty = Inr p1" "poller_ok p1"
      "chans p1 = Map.empty" "watched p1 = Map.empty" "channelMap p1 = Map.empty"
    using EPollPoller_new_ok[OF assms(2), of Map.empty] assms(2)
    by (auto simp: EPollPoller_new_def)
  let ?ch = "(Channel_new fd)\<lparr>readCallback := cb\<rparr>"
  let ?p = "store wp ?ch p1"
  have ch: "ch_fd ?ch = fd" "ch_index ?ch = kNew" "ch_events ?ch = 0"
    by (simp_all add: Channel_new_def kNew_def)
  have "poller_ok ?p" using p1 ch by (auto simp: poller_ok_def chan_ok_def watched_def)
  moreover have "fd_free ?p wp (ch_fd ?ch)" using p1(5) by (simp add: fd_free_def)
  ultimately show ?thesis
    using p1 ch set_interest_effect[OF assms(1), of ?p wp ?ch _ EnableReading]
    by (auto simp: watched_after_def isNoneEvent_def mask_defs watched_def)
qed

text \<open>C36: The constructor of an event loop ends the process when the epoll or the eventfd descriptor
  cannot be created or when its thread already has a loop, dereferences a null poller when
  MUDUO_USE_POLL is set, and otherwise yields an idle loop that belongs to the calling thread and
  watches exactly its wake-up descriptor, for reading.\<close>

theorem EventLoop_new_outcome:
  assumes "ctl_doc os"
  shows "case EventLoop_new os use_poll epfd evtfd tid self wp loop_here of
      Inl e \<Rightarrow> e = (if \<not> use_poll \<and> epfd < 0 then Exit ''epoll_create error:%d''
          else if evtfd < 0 then Exit ''eventfd error:%d''
          else if loop_here \<noteq> None then Exit ''Another EventLoop %p exists in this thread %d.''
          else UB ''null Poller*'') \<and> (use_poll \<or> epfd < 0 \<or> evtfd < 0 \<or> loop_here \<noteq> None)
    | Inr (L, here) \<Rightarrow> \<not> use_poll \<and> 0 \<le> epfd \<and> 0 \<le> evtfd \<and> loop_here = None \<and> here = Some self \<and>
        isInLoopThread tid L \<and> \<not> quit L \<and> \<not> looping L \<and> pendingFunctors L = [] \<and>
        poller_ok (el_poller L) \<and> wakeupFd L = evtfd \<and>
        watched (el_poller L) = [evtfd \<mapsto> (kReadEvent, wakeupChannel L)]"
proof (cases "use_poll \<or> epfd < 0 \<or> evtfd < 0 \<or> loop_here \<noteq> None")
  case True
  then show ?thesis
    by (cases use_poll; cases "epfd < 0"; cases "evtfd < 0"; cases loop_here)
      (auto simp: EventLoop_new_def newDefaultPoller_def createEventfd_def EPollPoller_new_def)
next
  case False
  then have "0 \<le> epfd" by simp
  from new_channel_poller[OF assms this, where wp = wp and fd = evtfd and cb = "Some LoopHandleRead"] False show ?thesis
    by (auto simp: EventLoop_new_def newDefaultPoller_def createEventfd_def isInLoopThread_def)
qed

theorem EventLoop_new_outcome_witness:
  "\<exists>L. EventLoop_new sample_os False 3 4 100 1 7 None = Inr (L, Some 1) \<and>
     watched (el_poller L) = [4 \<mapsto> (kReadEvent, wakeupChannel L)]"
  using EventLoop_new_outcome[OF sample_os_doc(3), where use_poll = False and epfd = 3 and evtfd = 4
      and tid = 100 and self = 1 and wp = 7 and loop_here = None]
  by (auto split: sum.splits)

text \<open>A loop with an empty poller, for the witnesses.\<close>

definition sample_loop :: event_loop where
  "sample_loop = \<lparr>looping = True, quit = False, threadId = 100, pollReturnTime = 0,
     el_poller = \<lparr>chans = Map.empty, channelMap = Map.empty, eventList = [(0, 0)], ctlHist = []\<rparr>,
     wakeupFd = 4, wakeupChannel = 8, activeChannels = [], callingPendingFunctors = False,
     pendingFunctors = [], wakeWrites = 0, wakeReads = 0\<rparr>"

lemma sample_loop_simps [simp]:
  "poller_ok (el_poller sample_loop)" "chans (el_poller sample_loop) = Map.empty"
  "channelMap (el_poller sample_loop) = Map.empty" "watched (el_poller sample_loop) = Map.empty"
  "threadId sample_loop = 100" "pendingFunctors sample_loop = []"
  by (simp_all add: sample_loop_def poller_ok_def watched_def)

end
