(* ===== verification/Wakeup.thy ===== *)
theory Wakeup
  imports Prelude
begin

text \<open>
  The task queue of \<open>src/EventLoop.cpp\<close> under interleaving. The loop thread runs \<open>loop()\<close>,
  \<open>handleRead()\<close> and \<open>doPendingFunctors()\<close>; any number of other threads run
  \<open>queueInLoop(cb)\<close> and \<open>quit()\<close>. One step is one access to shared data: the locked access
  to \<open>pendingFunctors_\<close>, a write of an atomic flag, a \<open>write\<close> or \<open>read\<close> of the wake-up
  descriptor. \<open>counter\<close> is the eventfd counter: a \<open>write\<close> adds one, a \<open>read\<close> takes all, and
  \<open>epoll_wait\<close> returns for the wake-up channel exactly while it is positive. \<open>queued\<close>,
  \<open>executed\<close>, \<open>early\<close> and \<open>quits\<close> are history variables.
\<close>

section \<open>States and steps\<close>

datatype loop_pc =
    Outside
  | Checking
  | Polling
  | Handling bool
  | Marked
  | Running "nat list"
  | Queued "nat list"
  | Returned

datatype client_pc = Idle | Emplaced | QuitSet

record wake_state =
  pend :: "nat list"
  counter :: nat
  calling :: bool
  quitFlag :: bool
  lpc :: loop_pc
  cpc :: "nat \<Rightarrow> client_pc"
  queued :: "nat list"
  executed :: "nat list"
  early :: bool
  quits :: nat

definition wake_init :: "wake_state \<Rightarrow> bool" where
  "wake_init s \<longleftrightarrow> s = \<lparr>pend = [], counter = 0, calling = False, quitFlag = False, lpc = Outside,
     cpc = (\<lambda>_. Idle), queued = [], executed = [], early = False, quits = 0\<rparr>"

text \<open>
  Another thread: \<open>queueInLoop\<close> emplaces the task under the lock, then writes to the wake-up
  descriptor, because it is not the loop thread; \<open>quit\<close> sets the flag, then writes.
\<close>

inductive client_step :: "wake_state \<Rightarrow> wake_state \<Rightarrow> bool" where
  emplace: "cpc s t = Idle \<Longrightarrow>
     client_step s (s\<lparr>pend := pend s @ [f], queued := queued s @ [f], cpc := (cpc s)(t := Emplaced)\<rparr>)"
| wake: "cpc s t = Emplaced \<Longrightarrow>
     client_step s (s\<lparr>counter := Suc (counter s), cpc := (cpc s)(t := Idle)\<rparr>)"
| set_quit: "cpc s t = Idle \<Longrightarrow>
     client_step s (s\<lparr>quitFlag := True, cpc := (cpc s)(t := QuitSet)\<rparr>)"
| wake_quit: "cpc s t = QuitSet \<Longrightarrow>
     client_step s (s\<lparr>counter := Suc (counter s), cpc := (cpc s)(t := Idle), quits := Suc (quits s)\<rparr>)"

text \<open>
  The loop thread. \<open>enter\<close> is the start of \<open>loop()\<close>; \<open>poll\<close> is the return of \<open>epoll_wait\<close>
  with the wake-up channel, \<open>read\<close> its \<open>handleRead\<close>; \<open>mark\<close>, \<open>swap\<close>, \<open>exec\<close> and \<open>unmark\<close> are
  \<open>doPendingFunctors\<close>; the loop test is \<open>stop\<close> or \<open>again\<close>.
\<close>

inductive loop_step :: "wake_state \<Rightarrow> wake_state \<Rightarrow> bool" where
  enter: "lpc s = Outside \<Longrightarrow> loop_step s (s\<lparr>quitFlag := False, lpc := Checking\<rparr>)"
| stop: "lpc s = Checking \<Longrightarrow> quitFlag s \<Longrightarrow> loop_step s (s\<lparr>lpc := Returned\<rparr>)"
| again: "lpc s = Checking \<Longrightarrow> \<not> quitFlag s \<Longrightarrow> loop_step s (s\<lparr>lpc := Polling\<rparr>)"
| poll: "lpc s = Polling \<Longrightarrow> 0 < counter s \<Longrightarrow> loop_step s (s\<lparr>lpc := Handling True\<rparr>)"
| read: "lpc s = Handling True \<Longrightarrow> loop_step s (s\<lparr>counter := 0, lpc := Handling False\<rparr>)"
| mark: "lpc s = Handling False \<Longrightarrow> loop_step s (s\<lparr>calling := True, lpc := Marked\<rparr>)"
| swap: "lpc s = Marked \<Longrightarrow> loop_step s (s\<lparr>lpc := Running (pend s), pend := [], early := False\<rparr>)"
| exec: "lpc s = Running (f # fs) \<Longrightarrow>
     loop_step s (s\<lparr>executed := executed s @ [f], lpc := Running fs\<rparr>)"
| unmark: "lpc s = Running [] \<Longrightarrow> loop_step s (s\<lparr>calling := False, lpc := Checking\<rparr>)"

text \<open>
  What the world outside the library adds: \<open>epoll_wait\<close> returns for another descriptor or
  after its 10 seconds; user code on the loop thread (before \<open>loop()\<close>, in an event callback,
  in a task) queues a task or calls \<open>quit\<close>. On its own thread \<open>queueInLoop\<close> writes to the
  wake-up descriptor only while \<open>callingPendingFunctors_\<close> is set.
\<close>

inductive user_step :: "wake_state \<Rightarrow> wake_state \<Rightarrow> bool" where
  other_event: "lpc s = Polling \<Longrightarrow> user_step s (s\<lparr>lpc := Handling (0 < counter s)\<rparr>)"
| queue_early: "lpc s = Outside \<Longrightarrow>
     user_step s (s\<lparr>pend := pend s @ [f], queued := queued s @ [f], early := True\<rparr>)"
| queue_handler: "lpc s = Handling b \<Longrightarrow>
     user_step s (s\<lparr>pend := pend s @ [f], queued := queued s @ [f]\<rparr>)"
| queue_task: "lpc s = Running fs \<Longrightarrow> calling s \<Longrightarrow>
     user_step s (s\<lparr>pend := pend s @ [f], queued := queued s @ [f], lpc := Queued fs\<rparr>)"
| wake_task: "lpc s = Queued fs \<Longrightarrow> user_step s (s\<lparr>counter := Suc (counter s), lpc := Running fs\<rparr>)"
| quit_handler: "lpc s = Handling b \<Longrightarrow> user_step s (s\<lparr>quitFlag := True, quits := Suc (quits s)\<rparr>)"
| quit_task: "lpc s = Running fs \<Longrightarrow> user_step s (s\<lparr>quitFlag := True, quits := Suc (quits s)\<rparr>)"

definition wake_step :: "wake_state \<Rightarrow> wake_state \<Rightarrow> bool" where
  "wake_step s t \<longleftrightarrow> client_step s t \<or> loop_step s t \<or> user_step s t"

inductive_cases client_stepE: "client_step s t"
inductive_cases loop_stepE: "loop_step s t"
inductive_cases user_stepE: "user_step s t"

section \<open>Invariant\<close>

fun batch :: "loop_pc \<Rightarrow> nat list" where
  "batch (Running fs) = fs"
| "batch (Queued fs) = fs"
| "batch _ = []"

fun in_batch :: "loop_pc \<Rightarrow> bool" where
  "in_batch Marked = True"
| "in_batch (Running fs) = True"
| "in_batch (Queued fs) = True"
| "in_batch _ = False"

text \<open>
  From these points the loop swaps the queue before it can block again (or has ended).
\<close>

fun will_swap :: "loop_pc \<Rightarrow> bool" where
  "will_swap (Handling b) = True"
| "will_swap Marked = True"
| "will_swap Returned = True"
| "will_swap _ = False"

text \<open>A wake-up is there or on its way.\<close>

definition wake_due :: "wake_state \<Rightarrow> bool" where
  "wake_due s \<longleftrightarrow> 0 < counter s \<or> (\<exists>t. cpc s t = Emplaced) \<or> (\<exists>fs. lpc s = Queued fs)"

definition quit_due :: "wake_state \<Rightarrow> bool" where
  "quit_due s \<longleftrightarrow> 0 < counter s \<or> (\<exists>t. cpc s t = QuitSet)"

definition wake_inv :: "wake_state \<Rightarrow> bool" where
  "wake_inv s \<longleftrightarrow>
     executed s @ batch (lpc s) @ pend s = queued s \<and>
     (calling s \<longleftrightarrow> in_batch (lpc s)) \<and>
     (pend s \<noteq> [] \<and> \<not> early s \<and> \<not> will_swap (lpc s) \<longrightarrow> wake_due s) \<and>
     (quitFlag s \<and> lpc s = Polling \<longrightarrow> quit_due s)"

lemma wake_inv_init: "wake_init s \<Longrightarrow> wake_inv s"
  by (auto simp: wake_init_def wake_inv_def)

lemma some_client_upd:
  assumes "cpc s t = Idle" and "y \<noteq> Idle"
  shows "(\<exists>u. ((cpc s)(t := x)) u = y) \<longleftrightarrow> x = y \<or> (\<exists>u. cpc s u = y)"
proof
  assume "\<exists>u. ((cpc s)(t := x)) u = y"
  then obtain u where u: "((cpc s)(t := x)) u = y" by blast
  then show "x = y \<or> (\<exists>u. cpc s u = y)" by (cases "u = t") auto
next
  assume "x = y \<or> (\<exists>u. cpc s u = y)"
  then show "\<exists>u. ((cpc s)(t := x)) u = y"
  proof
    assume "x = y"
    then show ?thesis by (intro exI[of _ t]) simp
  next
    assume "\<exists>u. cpc s u = y"
    then obtain u where "cpc s u = y" by blast
    with assms show ?thesis by (intro exI[of _ u]) auto
  qed
qed

lemma client_step_inv:
  assumes "wake_inv s" and "client_step s s'"
  shows "wake_inv s'"
  using assms(2)
proof (cases rule: client_step.cases)
  case (emplace t f)
  with assms(1) show ?thesis
    by (simp add: wake_inv_def wake_due_def quit_due_def some_client_upd del: fun_upd_apply)
next
  case (wake t)
  with assms(1) show ?thesis by (simp add: wake_inv_def wake_due_def quit_due_def)
next
  case (set_quit t)
  with assms(1) show ?thesis
    by (simp add: wake_inv_def wake_due_def quit_due_def some_client_upd del: fun_upd_apply)
next
  case (wake_quit t)
  with assms(1) show ?thesis by (simp add: wake_inv_def wake_due_def quit_due_def)
qed

lemma loop_step_inv: "wake_inv s \<Longrightarrow> loop_step s t \<Longrightarrow> wake_inv t"
  by (elim loop_stepE) (auto simp: wake_inv_def wake_due_def quit_due_def)

lemma user_step_inv: "wake_inv s \<Longrightarrow> user_step s t \<Longrightarrow> wake_inv t"
  by (elim user_stepE) (auto simp: wake_inv_def wake_due_def quit_due_def)

interpretation wakeup: safe_machine wake_init wake_step wake_inv
  by unfold_locales
    (auto simp: wake_step_def intro: wake_inv_init client_step_inv loop_step_inv user_step_inv)

section \<open>Properties\<close>


text \<open>While the loop sleeps in epoll_wait with quit_ set, the wake-up descriptor is readable or
  the thread that called quit() is about to write to it.\<close>

theorem no_sleep_on_quit:
  assumes "reach wake_init wake_step s" and "lpc s = Polling" and "quitFlag s"
  shows "0 < counter s \<or> (\<exists>t. cpc s t = QuitSet)"
  using wakeup.reach_inv[OF assms(1)] assms(2-) by (auto simp: wake_inv_def quit_due_def)

text \<open>C16: Under every interleaving the tasks run in the order they were queued, each exactly once:
  what has run, what is left of the swapped batch and what is pending make up what was queued.\<close>

theorem tasks_fifo_once:
  assumes "reach wake_init wake_step s"
  shows "executed s @ batch (lpc s) @ pend s = queued s"
  using wakeup.reach_inv[OF assms] by (simp add: wake_inv_def)

text \<open>The loop thread alone runs a whole batch.\<close>

lemma run_batch:
  "lpc s = Running fs \<Longrightarrow>
   loop_step\<^sup>*\<^sup>* s (s\<lparr>executed := executed s @ fs, calling := False, lpc := Checking\<rparr>)"
proof (induction fs arbitrary: s)
  case Nil
  then have "loop_step s (s\<lparr>calling := False, lpc := Checking\<rparr>)" by (rule unmark)
  then show ?case by simp
next
  case (Cons f fs)
  let ?t = "s\<lparr>executed := executed s @ [f], lpc := Running fs\<rparr>"
  from Cons.prems have "loop_step s ?t" by (rule exec)
  moreover have "loop_step\<^sup>*\<^sup>* ?t (?t\<lparr>executed := executed ?t @ fs, calling := False, lpc := Checking\<rparr>)"
    by (rule Cons.IH) simp
  ultimately show ?case by (simp add: converse_rtranclp_into_rtranclp)
qed

lemma swap_and_run:
  assumes "lpc s = Handling False"
  shows "loop_step\<^sup>*\<^sup>* s (s\<lparr>pend := [], early := False, executed := executed s @ pend s,
           calling := False, lpc := Checking\<rparr>)"
proof -
  let ?m = "s\<lparr>calling := True, lpc := Marked\<rparr>"
  let ?r = "?m\<lparr>lpc := Running (pend ?m), pend := [], early := False\<rparr>"
  have "loop_step s ?m" using assms by (rule mark)
  moreover have "loop_step ?m ?r" by (rule swap) simp
  moreover have "loop_step\<^sup>*\<^sup>* ?r (?r\<lparr>executed := executed ?r @ pend s, calling := False, lpc := Checking\<rparr>)"
    by (rule run_batch) simp
  ultimately show ?thesis by (simp add: converse_rtranclp_into_rtranclp)
qed

lemma wake_and_run:
  assumes "lpc s = Polling" and "0 < counter s"
  shows "loop_step\<^sup>*\<^sup>* s (s\<lparr>counter := 0, pend := [], early := False, executed := executed s @ pend s,
           calling := False, lpc := Checking\<rparr>)"
proof -
  let ?h = "s\<lparr>lpc := Handling True\<rparr>"
  let ?r = "?h\<lparr>counter := 0, lpc := Handling False\<rparr>"
  have "loop_step s ?h" using assms by (rule poll)
  moreover have "loop_step ?h ?r" by (rule read) simp
  moreover have "loop_step\<^sup>*\<^sup>* ?r (?r\<lparr>pend := [], early := False, executed := executed ?r @ pend ?r,
      calling := False, lpc := Checking\<rparr>)"
    by (rule swap_and_run) simp
  ultimately show ?thesis by (simp add: converse_rtranclp_into_rtranclp)
qed

lemma woken_loop_ends:
  assumes "lpc s = Polling" and "0 < counter s"
  shows "\<exists>s'. loop_step\<^sup>*\<^sup>* s s' \<and> executed s' = executed s @ pend s \<and> pend s' = [] \<and>
           lpc s' = (if quitFlag s then Returned else Polling)"
proof -
  let ?c = "s\<lparr>counter := 0, pend := [], early := False, executed := executed s @ pend s,
           calling := False, lpc := Checking\<rparr>"
  let ?e = "?c\<lparr>lpc := (if quitFlag s then Returned else Polling)\<rparr>"
  have "loop_step\<^sup>*\<^sup>* s ?c" using assms by (rule wake_and_run)
  moreover have "loop_step ?c ?e"
    using stop[of ?c] again[of ?c] by (cases "quitFlag s") simp_all
  ultimately show ?thesis by (intro exI[of _ ?e]) (simp add: rtranclp.rtrancl_into_rtrancl)
qed

text \<open>C18: A woken loop makes progress without help from other threads: from epoll_wait with the
  wake-up descriptor readable, the loop thread by itself runs everything that was queued, and leaves
  loop() if quit_ is set.\<close>

theorem woken_loop_runs_all:
  assumes "reach wake_init wake_step s" and "lpc s = Polling" and "0 < counter s"
  shows "\<exists>s'. loop_step\<^sup>*\<^sup>* s s' \<and> executed s' = queued s \<and> pend s' = [] \<and>
           lpc s' = (if quitFlag s then Returned else Polling)"
  using woken_loop_ends[OF assms(2,3)] wakeup.reach_inv[OF assms(1)] assms(2) by (simp add: wake_inv_def)

section \<open>Concrete runs\<close>

definition wake_start :: wake_state where
  "wake_start = \<lparr>pend = [], counter = 0, calling = False, quitFlag = False, lpc = Outside,
     cpc = (\<lambda>_. Idle), queued = [], executed = [], early = False, quits = 0\<rparr>"

lemmas wake_intros =
  emplace wake set_quit wake_quit enter stop again poll read mark swap exec unmark
  other_event queue_early queue_handler queue_task wake_task quit_handler quit_task

lemma all_idle [simp]: "(\<lambda>_. Idle)(t := Idle) = (\<lambda>_. Idle)"
  by (rule ext) simp

lemma reach_start: "reach wake_init wake_step wake_start"
  by (rule reach_init) (simp add: wake_init_def wake_start_def)

lemma reach_client: "reach wake_init wake_step s \<Longrightarrow> client_step s t \<Longrightarrow> reach wake_init wake_step t"
  by (erule reach_step) (simp add: wake_step_def)

lemma reach_loop: "reach wake_init wake_step s \<Longrightarrow> loop_step s t \<Longrightarrow> reach wake_init wake_step t"
  by (erule reach_step) (simp add: wake_step_def)

lemma reach_user: "reach wake_init wake_step s \<Longrightarrow> user_step s t \<Longrightarrow> reach wake_init wake_step t"
  by (erule reach_step) (simp add: wake_step_def)

text \<open>The loop enters \<open>epoll_wait\<close> first, then thread 1 queues task 7.\<close>

lemma reach_polling: "reach wake_init wake_step (wake_start\<lparr>lpc := Polling\<rparr>)"
proof -
  have "reach wake_init wake_step (wake_start\<lparr>quitFlag := False, lpc := Checking\<rparr>)"
    by (rule reach_loop[OF reach_start enter]) (simp add: wake_start_def)
  from reach_loop[OF this again] show ?thesis by (simp add: wake_start_def)
qed

lemma reach_emplaced:
  "reach wake_init wake_step
     (wake_start\<lparr>lpc := Polling, pend := [7], queued := [7], cpc := (\<lambda>_. Idle)(1 := Emplaced)\<rparr>)"
  using reach_client[OF reach_polling emplace[of _ 1 7]] by (simp add: wake_start_def)

lemma reach_woken:
  "reach wake_init wake_step
     (wake_start\<lparr>lpc := Polling, pend := [7], queued := [7], counter := 1\<rparr>)"
  using reach_client[OF reach_emplaced wake[of _ 1]] by (simp add: wake_start_def)

lemma reach_quitset:
  "reach wake_init wake_step
     (wake_start\<lparr>lpc := Polling, quitFlag := True, cpc := (\<lambda>_. Idle)(1 := QuitSet)\<rparr>)"
  using reach_client[OF reach_polling set_quit[of _ 1]] by (simp add: wake_start_def)


theorem no_sleep_on_quit_witness:
  "0 < (0::nat) \<or> (\<exists>t. ((\<lambda>_. Idle)((1::nat) := QuitSet)) t = QuitSet)"
  using no_sleep_on_quit[OF reach_quitset] by (simp add: wake_start_def)

theorem tasks_fifo_once_witness: "[] @ batch Polling @ [7] = [7::nat]"
  using tasks_fifo_once[OF reach_woken] by (simp add: wake_start_def)

theorem woken_loop_runs_all_witness:
  "\<exists>s'. loop_step\<^sup>*\<^sup>* (wake_start\<lparr>lpc := Polling, pend := [7], queued := [7], counter := 1\<rparr>) s' \<and>
     executed s' = [7] \<and> pend s' = [] \<and> lpc s' = Polling"
  using woken_loop_runs_all[OF reach_woken] by (simp add: wake_start_def)

section \<open>Tasks queued before \<open>quit()\<close>\<close>

text \<open>\<open>loop()\<close> has not passed the swap of its turn.\<close>

fun before_swap :: "loop_pc \<Rightarrow> bool" where
  "before_swap Polling = True"
| "before_swap (Handling b) = True"
| "before_swap Marked = True"
| "before_swap _ = False"

text \<open>On the way from \<open>s\<close>: nothing is taken back from the queue, and once the loop has swapped, the
  tasks of \<open>s\<close> have run or are in the batch.\<close>

definition swapped_since :: "wake_state \<Rightarrow> wake_state \<Rightarrow> bool" where
  "swapped_since s t \<longleftrightarrow> wake_inv t \<and> (\<exists>more. queued t = queued s @ more) \<and>
     (before_swap (lpc t) \<or> (\<exists>more. executed t @ batch (lpc t) = queued s @ more))"

lemma swapped_since_step:
  assumes "swapped_since s t" and "wake_step t u"
  shows "swapped_since s u"
proof -
  have inv: "wake_inv u"
    using assms by (auto simp: swapped_since_def wake_step_def intro: client_step_inv loop_step_inv user_step_inv)
  have old: "executed t @ batch (lpc t) @ pend t = queued t" using assms(1) by (simp add: swapped_since_def wake_inv_def)
  have "\<exists>more. queued u = queued t @ more"
    using assms(2) unfolding wake_step_def by (elim disjE client_stepE loop_stepE user_stepE) auto
  moreover have "(before_swap (lpc t) \<longrightarrow> before_swap (lpc u) \<or> executed u @ batch (lpc u) = queued t) \<and>
      (\<not> before_swap (lpc t) \<longrightarrow> before_swap (lpc u) \<or> executed u @ batch (lpc u) = executed t @ batch (lpc t))"
    using assms(2) old unfolding wake_step_def by (elim disjE client_stepE loop_stepE user_stepE) auto
  ultimately show ?thesis using assms(1) inv by (fastforce simp: swapped_since_def)
qed

lemma swapped_since_steps: "wake_step\<^sup>*\<^sup>* s t \<Longrightarrow> wake_inv s \<Longrightarrow> before_swap (lpc s) \<Longrightarrow> swapped_since s t"
proof (induction rule: rtranclp_induct)
  case base
  then show ?case by (simp add: swapped_since_def)
next
  case (step t u)
  then show ?case using swapped_since_step by blast
qed

text \<open>C17: quit() waits for the tasks that are queued while the loop has not swapped them out: from a state in
  which the loop is in epoll_wait, in its handlers or at the start of doPendingFunctors, however the
  threads go on and whoever calls quit(), by the time loop() returns it has run all those tasks, in
  order.\<close>

theorem quit_after_queued_tasks:
  assumes "reach wake_init wake_step s" and "before_swap (lpc s)"
    and "wake_step\<^sup>*\<^sup>* s t" and "lpc t = Returned"
  shows "\<exists>more. executed t = queued s @ more"
  using swapped_since_steps[OF assms(3) wakeup.reach_inv[OF assms(1)] assms(2)] assms(4) by (simp add: swapped_since_def)

lemma steps_client: "client_step s t \<Longrightarrow> wake_step\<^sup>*\<^sup>* s t"
  by (simp add: r_into_rtranclp wake_step_def)

lemma steps_loop: "loop_step\<^sup>*\<^sup>* s t \<Longrightarrow> wake_step\<^sup>*\<^sup>* s t"
  by (rule rtranclp_mono[THEN predicate2D, rotated]) (auto simp: wake_step_def)

text \<open>C39: A task can be lost although it was queued before quit(): when the loop is already running a batch,
  another thread that queues f (queueInLoop has returned) and then calls quit() can make loop() return
  after that batch, with f still in the queue and the wake-up for it unread.\<close>

theorem quit_loses_late_task:
  assumes "reach wake_init wake_step s" and "lpc s = Running fs" and "cpc s c = Idle"
  shows "\<exists>u t. wake_step\<^sup>*\<^sup>* s u \<and> queued u = queued s @ [f] \<and> cpc u c = Idle \<and> quitFlag u = quitFlag s \<and>
    wake_step\<^sup>*\<^sup>* u t \<and> lpc t = Returned \<and> pend t = pend s @ [f] \<and> executed t = executed s @ fs \<and>
    queued t = queued u"
proof -
  let ?e = "s\<lparr>pend := pend s @ [f], queued := queued s @ [f], cpc := (cpc s)(c := Emplaced)\<rparr>"
  let ?u = "?e\<lparr>counter := Suc (counter ?e), cpc := (cpc ?e)(c := Idle)\<rparr>"
  let ?q = "?u\<lparr>quitFlag := True, cpc := (cpc ?u)(c := QuitSet)\<rparr>"
  let ?w = "?q\<lparr>counter := Suc (counter ?q), cpc := (cpc ?q)(c := Idle), quits := Suc (quits ?q)\<rparr>"
  let ?c = "?w\<lparr>executed := executed ?w @ fs, calling := False, lpc := Checking\<rparr>"
  let ?t = "?c\<lparr>lpc := Returned\<rparr>"
  have "client_step s ?e" using assms(3) by (rule emplace)
  moreover have "client_step ?e ?u" by (rule wake) simp
  ultimately have u: "wake_step\<^sup>*\<^sup>* s ?u" by (meson steps_client rtranclp_trans)
  have "client_step ?u ?q" by (rule set_quit) simp
  moreover have "client_step ?q ?w" by (rule wake_quit) simp
  moreover have "loop_step\<^sup>*\<^sup>* ?w ?c" by (rule run_batch) (simp add: assms(2))
  moreover have "loop_step\<^sup>*\<^sup>* ?c ?t" by (rule r_into_rtranclp, rule stop) simp_all
  ultimately have "wake_step\<^sup>*\<^sup>* ?u ?t" by (meson steps_client steps_loop rtranclp_trans)
  with u show ?thesis by (intro exI[of _ ?u] exI[of _ ?t]) simp
qed

lemma reach_running: "reach wake_init wake_step (wake_start\<lparr>lpc := Running [7], calling := True, queued := [7]\<rparr>)"
proof -
  let ?h = "wake_start\<lparr>lpc := Handling True, pend := [7], queued := [7], counter := 1\<rparr>"
  have "reach wake_init wake_step ?h" using reach_loop[OF reach_woken poll] by (simp add: wake_start_def)
  from reach_loop[OF this read]
  have "reach wake_init wake_step (wake_start\<lparr>lpc := Handling False, pend := [7], queued := [7]\<rparr>)" by (simp add: wake_start_def)
  from reach_loop[OF this mark]
  have "reach wake_init wake_step (wake_start\<lparr>lpc := Marked, calling := True, pend := [7], queued := [7]\<rparr>)"
    by (simp add: wake_start_def)
  from reach_loop[OF this swap] show ?thesis by (simp add: wake_start_def)
qed

theorem quit_loses_late_task_witness:
  "\<exists>t. wake_step\<^sup>*\<^sup>* (wake_start\<lparr>lpc := Running [7], calling := True, queued := [7]\<rparr>) t \<and>
     lpc t = Returned \<and> executed t = [7] \<and> pend t = [8]"
  using quit_loses_late_task[OF reach_running, of "[7]" 1 8] by (simp add: wake_start_def) (blast intro: rtranclp_trans)

text \<open>A task queued in \<open>epoll_wait\<close>, then \<open>quit()\<close>.\<close>

theorem quit_after_queued_tasks_witness:
  "\<exists>t. wake_step\<^sup>*\<^sup>* (wake_start\<lparr>lpc := Polling, pend := [7], queued := [7], counter := 1\<rparr>) t \<and>
     lpc t = Returned \<and> (\<exists>more. executed t = [7] @ more)"
proof -
  let ?s = "wake_start\<lparr>lpc := Polling, pend := [7], queued := [7], counter := 1\<rparr>"
  let ?q = "?s\<lparr>quitFlag := True, cpc := (cpc ?s)(1 := QuitSet)\<rparr>"
  have q: "client_step ?s ?q" by (rule set_quit) (simp add: wake_start_def)
  obtain t where "loop_step\<^sup>*\<^sup>* ?q t" "lpc t = Returned"
    using woken_loop_ends[of ?q] by auto
  with q have t: "wake_step\<^sup>*\<^sup>* ?s t" "lpc t = Returned" by (meson steps_client steps_loop rtranclp_trans)+
  from quit_after_queued_tasks[OF reach_woken _ t] t show ?thesis by (auto simp: wake_start_def)
qed

section \<open>The two gaps before \<open>loop()\<close>\<close>

text \<open>
  \<open>asleep s\<close>: the loop is in \<open>epoll_wait\<close>, no thread is in the middle of a call, and nothing
  the loop thread can do by itself is enabled.
\<close>

definition asleep :: "wake_state \<Rightarrow> bool" where
  "asleep s \<longleftrightarrow> lpc s = Polling \<and> cpc s = (\<lambda>_. Idle) \<and> (\<nexists>t. loop_step s t)"

lemma polling_asleep: "lpc s = Polling \<Longrightarrow> cpc s = (\<lambda>_. Idle) \<Longrightarrow> counter s = 0 \<Longrightarrow> asleep s"
  by (auto simp: asleep_def elim: loop_stepE)

text \<open>A task queued by the owner thread before \<open>loop()\<close>: it is pending when the loop blocks.\<close>

lemma reach_early:
  "reach wake_init wake_step
     (wake_start\<lparr>lpc := Polling, pend := [7], queued := [7], early := True\<rparr>)"
proof -
  have "reach wake_init wake_step (wake_start\<lparr>pend := [7], queued := [7], early := True\<rparr>)"
    using reach_user[OF reach_start queue_early[of _ 7]] by (simp add: wake_start_def)
  from reach_loop[OF this enter]
  have "reach wake_init wake_step
     (wake_start\<lparr>lpc := Checking, pend := [7], queued := [7], early := True\<rparr>)"
    by (simp add: wake_start_def)
  from reach_loop[OF this again] show ?thesis by (simp add: wake_start_def)
qed

text \<open>A task that the owner thread queues before it calls loop() gets no wake-up: the loop can
  go to sleep with that task pending, and only another event or the poll timeout runs it.\<close>

theorem early_task_sleeps:
  "\<exists>s. reach wake_init wake_step s \<and> asleep s \<and> pend s = [7] \<and> executed s = []"
  by (rule exI[of _ "wake_start\<lparr>lpc := Polling, pend := [7], queued := [7], early := True\<rparr>"])
    (use reach_early in \<open>auto simp: wake_start_def intro: polling_asleep\<close>)

lemma reach_quit_first:
  "reach wake_init wake_step (wake_start\<lparr>quitFlag := True, counter := 1, quits := 1\<rparr>)"
proof -
  have "reach wake_init wake_step
      (wake_start\<lparr>quitFlag := True, cpc := (\<lambda>_. Idle)(1 := QuitSet)\<rparr>)"
    using reach_client[OF reach_start set_quit[of _ 1]] by (simp add: wake_start_def)
  from reach_client[OF this wake_quit[of _ 1]] show ?thesis by (simp add: wake_start_def)
qed

lemma loop_turn_to_sleep:
  assumes "reach wake_init wake_step s" and "lpc s = Outside"
  shows "\<exists>t. loop_step\<^sup>*\<^sup>* s t \<and> reach wake_init wake_step t \<and> lpc t = Polling \<and>
           counter t = counter s \<and> cpc t = cpc s \<and> quitFlag t = False \<and> quits t = quits s"
proof -
  let ?c = "s\<lparr>quitFlag := False, lpc := Checking\<rparr>"
  let ?p = "?c\<lparr>lpc := Polling\<rparr>"
  have c: "loop_step s ?c" using assms(2) by (rule enter)
  have p: "loop_step ?c ?p" by (rule again) simp_all
  have "loop_step\<^sup>*\<^sup>* s ?p" using c p by (auto intro: rtranclp.rtrancl_into_rtrancl)
  moreover have "reach wake_init wake_step ?p" using reach_loop[OF reach_loop[OF assms(1) c] p] .
  ultimately show ?thesis by (intro exI[of _ ?p]) simp
qed

lemma reach_loops: "loop_step\<^sup>*\<^sup>* s t \<Longrightarrow> reach wake_init wake_step s \<Longrightarrow> reach wake_init wake_step t"
  by (induction rule: rtranclp_induct) (auto intro: reach_loop)

lemma reach_quit_lost:
  "\<exists>s. reach wake_init wake_step s \<and> asleep s \<and> quits s = 1 \<and> quitFlag s = False"
proof -
  obtain s where s: "reach wake_init wake_step s" "lpc s = Polling" "counter s = 1"
      "cpc s = (\<lambda>_. Idle)" "quitFlag s = False" "quits s = 1"
    using loop_turn_to_sleep[OF reach_quit_first] by (auto simp: wake_start_def)
  let ?c = "s\<lparr>counter := 0, pend := [], early := False, executed := executed s @ pend s,
           calling := False, lpc := Checking\<rparr>"
  have "loop_step\<^sup>*\<^sup>* s ?c" using s(2,3) by (intro wake_and_run) simp_all
  then have c: "reach wake_init wake_step ?c" using s(1) by (rule reach_loops)
  have "loop_step ?c (?c\<lparr>lpc := Polling\<rparr>)" by (rule again) (simp_all add: s)
  from reach_loop[OF c this] show ?thesis
    by (intro exI[of _ "?c\<lparr>lpc := Polling\<rparr>"]) (simp add: s polling_asleep)
qed

text \<open>A quit() that completes before the loop thread enters loop() is lost: loop() resets quit_,
  consumes the wake-up, and blocks again with nobody left to wake it.\<close>

theorem quit_before_loop_is_lost:
  "\<exists>s. reach wake_init wake_step s \<and> asleep s \<and> quits s = 1 \<and> \<not> quitFlag s"
  using reach_quit_lost by simp

end
