(* ===== verification/EventLoopThreadPool.thy ===== *)
theory EventLoopThreadPool
  imports Posix
begin

text \<open>
  \<open>include/EventLoopThreadPool.h\<close> and \<open>src/EventLoopThreadPool.cpp\<close>: the pool that starts
  the I/O threads and hands out their loops in turn. Loops are named by their addresses.
\<close>

section \<open>State and operations\<close>

text \<open>\<open>threads\<close> holds the names of the \<open>EventLoopThread\<close> objects that were created.\<close>

record thread_pool =
  baseLoop :: ptr
  pool_name :: string
  pool_started :: bool
  numThreads :: int
  pool_next :: int
  threads :: "string list"
  loops :: "ptr list"

definition EventLoopThreadPool_new :: "ptr \<Rightarrow> string \<Rightarrow> thread_pool" where
  "EventLoopThreadPool_new base nameArg =
     \<lparr>baseLoop = base, pool_name = nameArg, pool_started = False, numThreads = 0, pool_next = 0,
      threads = [], loops = []\<rparr>"

definition setThreadNum :: "int \<Rightarrow> thread_pool \<Rightarrow> thread_pool" where
  "setThreadNum n P = P\<lparr>numThreads := n\<rparr>"

text \<open>
  The loop of \<open>start\<close> for \<open>i\<close> up to \<open>n\<close>: \<open>startLoop i\<close> is the address of the loop that the
  \<open>i\<close>-th new thread runs. The result also holds the loops on which the pool itself called
  the initialisation callback (the threads call it on their own loops).
\<close>

fun start_threads :: "(nat \<Rightarrow> ptr) \<Rightarrow> nat \<Rightarrow> nat \<Rightarrow> thread_pool \<Rightarrow> thread_pool" where
  "start_threads startLoop i 0 P = P"
| "start_threads startLoop i (Suc k) P =
     start_threads startLoop (Suc i) k
       (P\<lparr>threads := threads P @ [pool_name P @ to_string (int i)], loops := loops P @ [startLoop i]\<rparr>)"

definition EventLoopThreadPool_start ::
    "(nat \<Rightarrow> ptr) \<Rightarrow> bool \<Rightarrow> thread_pool \<Rightarrow> thread_pool \<times> ptr list" where
  "EventLoopThreadPool_start startLoop cb P =
     (let P1 = start_threads startLoop 0 (nat (numThreads P)) (P\<lparr>pool_started := True\<rparr>)
      in (P1, if numThreads P1 = 0 \<and> cb then [baseLoop P1] else []))"

definition getNextLoop :: "thread_pool \<Rightarrow> (ptr \<times> thread_pool) res" where
  "getNextLoop P =
     (if loops P \<noteq> []
      then (if 0 \<le> pool_next P \<and> nat (pool_next P) < length (loops P)
            then let loop = loops P ! nat (pool_next P); n = pool_next P + 1
                 in Inr (loop, P\<lparr>pool_next := (if int (length (loops P)) \<le> n then 0 else n)\<rparr>)
            else Inl (UB ''vector index out of range''))
      else Inr (baseLoop P, P))"

text \<open>The branch for a non-empty vector has no return statement.\<close>

definition getAllLoops :: "thread_pool \<Rightarrow> ptr list res" where
  "getAllLoops P =
     (if loops P = [] then Inr [baseLoop P] else Inl (UB ''missing return''))"

section \<open>Invariant and round robin\<close>

definition pool_ok :: "thread_pool \<Rightarrow> bool" where
  "pool_ok P \<longleftrightarrow> 0 \<le> pool_next P \<and> pool_next P < max 1 (int (length (loops P)))"

text \<open>The loop the pool hands out \<open>k\<close> calls from now.\<close>

definition loop_in_turn :: "nat \<Rightarrow> thread_pool \<Rightarrow> ptr" where
  "loop_in_turn k P =
     (if loops P = [] then baseLoop P else loops P ! ((nat (pool_next P) + k) mod length (loops P)))"

fun get_loops :: "nat \<Rightarrow> thread_pool \<Rightarrow> (ptr list \<times> thread_pool) res" where
  "get_loops 0 P = Inr ([], P)"
| "get_loops (Suc k) P = bindR (getNextLoop P) (\<lambda>(l, P1).
     bindR (get_loops k P1) (\<lambda>(ls, P2). Inr (l # ls, P2)))"

lemma start_threads_simps [simp]:
  "baseLoop (start_threads f i k P) = baseLoop P" "pool_name (start_threads f i k P) = pool_name P"
  "pool_next (start_threads f i k P) = pool_next P" "numThreads (start_threads f i k P) = numThreads P"
  "pool_started (start_threads f i k P) = pool_started P"
  "loops (start_threads f i k P) = loops P @ map f [i..<i + k]"
  "threads (start_threads f i k P) = threads P @ map (\<lambda>j. pool_name P @ to_string (int j)) [i..<i + k]"
  by (induction f i k P rule: start_threads.induct) (simp_all add: upt_conv_Cons del: upt_Suc)

lemma getNextLoop_spec:
  assumes "pool_ok P"
  shows "\<exists>P'. getNextLoop P = Inr (loop_in_turn 0 P, P') \<and> pool_ok P' \<and> loops P' = loops P \<and>
    baseLoop P' = baseLoop P \<and> (\<forall>k. loop_in_turn k P' = loop_in_turn (Suc k) P)"
proof (cases "loops P = []")
  case True
  with assms show ?thesis by (auto simp: getNextLoop_def loop_in_turn_def)
next
  case False
  let ?n = "length (loops P)" and ?i = "nat (pool_next P)"
  from assms False have i: "0 \<le> pool_next P" "?i < ?n" by (auto simp: pool_ok_def max_def nat_less_iff Suc_le_eq split: if_splits)
  let ?P = "P\<lparr>pool_next := (if int ?n \<le> pool_next P + 1 then 0 else pool_next P + 1)\<rparr>"
  have eq: "(nat (pool_next ?P) + k) mod ?n = (?i + Suc k) mod ?n" for k
  proof (cases "int ?n \<le> pool_next P + 1")
    case True
    with i have e: "?i + Suc k = ?n + k" by simp
    show ?thesis unfolding e using True by simp
  next
    case False
    with i have e: "nat (pool_next P + 1) + k = ?i + Suc k" by (simp add: nat_add_distrib)
    from False show ?thesis by (simp only: e[symmetric]) simp
  qed
  have "getNextLoop P = Inr (loop_in_turn 0 P, ?P)"
    using False i by (simp add: getNextLoop_def loop_in_turn_def)
  moreover have "pool_ok ?P" using i False by (simp add: pool_ok_def)
  moreover have "loop_in_turn k ?P = loop_in_turn (Suc k) P" for k
    using False eq[of k] by (simp add: loop_in_turn_def)
  ultimately show ?thesis by auto
qed

lemma get_loops_spec:
  "pool_ok P \<Longrightarrow> \<exists>P'. get_loops n P = Inr (map (\<lambda>k. loop_in_turn k P) [0..<n], P') \<and> pool_ok P' \<and>
     loops P' = loops P \<and> baseLoop P' = baseLoop P"
proof (induction n arbitrary: P)
  case 0
  then show ?case by simp
next
  case (Suc n)
  obtain P1 where P1: "getNextLoop P = Inr (loop_in_turn 0 P, P1)" "pool_ok P1" "loops P1 = loops P"
    "baseLoop P1 = baseLoop P" "\<forall>k. loop_in_turn k P1 = loop_in_turn (Suc k) P"
    using getNextLoop_spec[OF Suc.prems] by blast
  from Suc.IH[OF P1(2)] obtain P2 where
    "get_loops n P1 = Inr (map (\<lambda>k. loop_in_turn k P1) [0..<n], P2)" "pool_ok P2"
    "loops P2 = loops P1" "baseLoop P2 = baseLoop P1" by blast
  with P1 show ?case by (simp add: map_upt_Suc del: upt_Suc)
qed

lemma start_ok:
  assumes "EventLoopThreadPool_start startLoop cb (setThreadNum n (EventLoopThreadPool_new base name))
             = (P, inits)"
  shows "pool_ok P" "loops P = map startLoop [0..<nat n]" "baseLoop P = base" "pool_started P"
    "threads P = map (\<lambda>j. name @ to_string (int j)) [0..<nat n]" "pool_next P = 0"
  using assms
  by (auto simp: EventLoopThreadPool_start_def setThreadNum_def EventLoopThreadPool_new_def
      pool_ok_def Let_def)

section \<open>Properties\<close>

text \<open>C34: A pool started with n threads hands its loops out in turn: the k-th call of getNextLoop
  returns the loop of thread k mod n (the base loop when there are no threads), never indexes
  outside the vector, and leaves the vector as it is.\<close>

theorem getNextLoop_round_robin:
  assumes "EventLoopThreadPool_start startLoop cb (setThreadNum n (EventLoopThreadPool_new base name))
             = (P, inits)"
  shows "\<exists>P'. get_loops m P = Inr (map (\<lambda>k. if n \<le> 0 then base else startLoop (k mod nat n)) [0..<m], P')
           \<and> loops P' = loops P"
proof -
  from get_loops_spec[OF start_ok(1)[OF assms], of m] obtain P' where
    P': "get_loops m P = Inr (map (\<lambda>k. loop_in_turn k P) [0..<m], P')" "loops P' = loops P"
    by blast
  have "loop_in_turn k P = (if n \<le> 0 then base else startLoop (k mod nat n))" for k
    using start_ok[OF assms] by (auto simp: loop_in_turn_def)
  with P' show ?thesis by simp
qed

theorem getNextLoop_round_robin_witness:
  "\<exists>P'. get_loops 5 (fst (EventLoopThreadPool_start (\<lambda>i. 100 + i) False
      (setThreadNum 3 (EventLoopThreadPool_new 1 ''echo'')))) = Inr ([100, 101, 102, 100, 101], P')"
  using getNextLoop_round_robin[of "\<lambda>i. 100 + i" False 3 1 "''echo''" _ _ 5, OF prod.collapse[symmetric]]
  by (auto simp: upt_rec numeral_2_eq_2)

text \<open>Starting a pool gives every thread a name of its own, and calls the initialisation callback
  on the base loop exactly when no thread was asked for and a callback is set.\<close>

theorem pool_start_names_and_init:
  assumes "EventLoopThreadPool_start startLoop cb (setThreadNum n (EventLoopThreadPool_new base name))
             = (P, inits)"
  shows "distinct (threads P) \<and> length (threads P) = length (loops P) \<and>
         inits = (if n = 0 \<and> cb then [base] else [])"
  using assms start_ok[OF assms]
  by (auto simp: distinct_map inj_on_def EventLoopThreadPool_start_def setThreadNum_def
      EventLoopThreadPool_new_def)

theorem pool_start_names_and_init_witness:
  "distinct (threads (fst (EventLoopThreadPool_start (\<lambda>i. 100 + i) True
      (setThreadNum 3 (EventLoopThreadPool_new 1 ''echo'')))))"
  using pool_start_names_and_init[of "\<lambda>i. 100 + i" True 3 1 "''echo''", OF prod.collapse[symmetric]]
  by simp

text \<open>GetAllLoops is usable only while the pool has no I/O threads: with any started thread it
  falls off its end without a return value.\<close>

theorem getAllLoops_only_without_threads:
  assumes "EventLoopThreadPool_start startLoop cb (setThreadNum n (EventLoopThreadPool_new base name))
             = (P, inits)"
  shows "getAllLoops P = (if n \<le> 0 then Inr [base] else Inl (UB ''missing return''))"
  using start_ok[OF assms] by (auto simp: getAllLoops_def)

theorem getAllLoops_only_without_threads_witness:
  "getAllLoops (fst (EventLoopThreadPool_start (\<lambda>i. 100 + i) True
      (setThreadNum 3 (EventLoopThreadPool_new 1 ''echo'')))) = Inl (UB ''missing return'')"
  using getAllLoops_only_without_threads[of "\<lambda>i. 100 + i" True 3 1 "''echo''", OF prod.collapse[symmetric]]
  by simp

end
