(* ===== verification/InetAddress.thy ===== *)
theory InetAddress
  imports Posix
begin

text \<open>
  \<open>include/InetAddress.h\<close> and \<open>src/InetAddress.cpp\<close>: an IPv4 address with a port, kept in
  network byte order. The platform is little-endian: \<open>htons\<close> and \<open>ntohs\<close> swap the bytes of a
  port, and \<open>inet_ntop\<close> prints the bytes of an address from the lowest up. \<open>inet_addr\<close>, which
  reads an address, is a parameter.
\<close>

unbundle bit_operations_syntax

section \<open>Addresses and their byte order\<close>

record sockaddr_in =
  sin_family :: nat
  sin_port :: "16 word"
  s_addr :: "32 word"

definition AF_INET :: nat where
  "AF_INET = 2"

definition htons :: "16 word \<Rightarrow> 16 word" where
  "htons p = push_bit 8 p OR drop_bit 8 p"

definition ntohs :: "16 word \<Rightarrow> 16 word" where
  "ntohs p = push_bit 8 p OR drop_bit 8 p"

definition octet :: "nat \<Rightarrow> 32 word \<Rightarrow> nat" where
  "octet i a = unat a div 256 ^ i mod 256"

definition inet_ntop :: "32 word \<Rightarrow> string" where
  "inet_ntop a = dec (octet 0 a) @ ''.'' @ dec (octet 1 a) @ ''.'' @ dec (octet 2 a) @ ''.'' @ dec (octet 3 a)"

section \<open>Operations\<close>

definition InetAddress_new :: "(string \<Rightarrow> 32 word) \<Rightarrow> 16 word \<Rightarrow> string \<Rightarrow> sockaddr_in" where
  "InetAddress_new inet_addr port ip =
     \<lparr>sin_family = AF_INET, sin_port = htons port, s_addr = inet_addr ip\<rparr>"

definition toIp :: "sockaddr_in \<Rightarrow> string" where
  "toIp a = inet_ntop (s_addr a)"

definition toPort :: "sockaddr_in \<Rightarrow> 16 word" where
  "toPort a = ntohs (sin_port a)"

definition toIpPort :: "sockaddr_in \<Rightarrow> string" where
  "toIpPort a = toIp a @ '' : '' @ to_string (uint (toPort a))"

section \<open>Facts\<close>

text \<open>The manual page of \<open>inet_addr\<close>: dotted-decimal notation is read back as printed.\<close>

definition inet_addr_doc :: "(string \<Rightarrow> 32 word) \<Rightarrow> bool" where
  "inet_addr_doc inet_addr \<longleftrightarrow> (\<forall>a. inet_addr (inet_ntop a) = a)"

lemma ntohs_htons [simp]: "ntohs (htons p) = p"
  unfolding ntohs_def htons_def
  by (rule bit_word_eqI) (auto simp: bit_simps)

lemma htons_ntohs [simp]: "htons (ntohs p) = p"
  using ntohs_htons unfolding ntohs_def htons_def .

lemma octets: "unat a = octet 0 a + 256 * (octet 1 a + 256 * (octet 2 a + 256 * octet 3 a))"
  for a :: "32 word"
proof -
  define n where "n = unat a"
  have "n < 2 ^ 32" using unsigned_less[of a] by (simp add: n_def)
  then have top: "n div 16777216 < 256" by (simp add: less_mult_imp_div_less)
  have 1: "n = n mod 256 + 256 * (n div 256)" by simp
  have 2: "n div 256 = n div 256 mod 256 + 256 * (n div 65536)"
    using mod_mult_div_eq[of "n div 256" 256] by (simp add: div_mult2_eq[symmetric])
  have 3: "n div 65536 = n div 65536 mod 256 + 256 * (n div 16777216)"
    using mod_mult_div_eq[of "n div 65536" 256] by (simp add: div_mult2_eq[symmetric])
  show ?thesis
    using 1 2 3 top by (simp add: octet_def n_def[symmetric])
qed

text \<open>Numerals separated by a character that no numeral holds determine each other.\<close>

lemma dec_split:
  assumes "dec m @ c # xs = dec n @ c # ys" and "\<not> (48 \<le> (of_char c :: nat) \<and> (of_char c :: nat) < 58)"
  shows "m = n \<and> xs = ys"
proof -
  have clean: "takeWhile (\<lambda>d. d \<noteq> c) (dec k @ c # zs) = dec k" for k zs
  proof -
    have "\<forall>d \<in> set (dec k). d \<noteq> c" using assms(2) dec_digits by blast
    then show ?thesis by (simp add: takeWhile_append)
  qed
  from assms(1) have "takeWhile (\<lambda>d. d \<noteq> c) (dec m @ c # xs) = takeWhile (\<lambda>d. d \<noteq> c) (dec n @ c # ys)"
    by simp
  then have "m = n" unfolding clean by simp
  with assms(1) show ?thesis by simp
qed

lemma inet_ntop_suffix_inject:
  assumes "inet_ntop a @ CHR '' '' # xs = inet_ntop b @ CHR '' '' # ys"
  shows "a = b \<and> xs = ys"
proof -
  from assms have "octet 0 a = octet 0 b \<and> octet 1 a = octet 1 b \<and> octet 2 a = octet 2 b \<and>
      octet 3 a = octet 3 b \<and> xs = ys"
    unfolding inet_ntop_def by (auto dest!: dec_split)
  then show ?thesis using octets[of a] octets[of b] by (auto intro: word_unat_eq_iff[THEN iffD2])
qed

text \<open>A reader of dotted-decimal notation, for the witness.\<close>

fun split_dots :: "string \<Rightarrow> string list" where
  "split_dots [] = [[]]"
| "split_dots (c # s) =
     (if c = CHR ''.'' then [] # split_dots s
      else (case split_dots s of [] \<Rightarrow> [[c]] | w # ws \<Rightarrow> (c # w) # ws))"

definition read_quad :: "string \<Rightarrow> 32 word" where
  "read_quad s = (case split_dots s of
       [a, b, c, d] \<Rightarrow> of_nat (undec a + 256 * (undec b + 256 * (undec c + 256 * undec d)))
     | _ \<Rightarrow> - 1)"

lemma split_dots_word:
  "CHR ''.'' \<notin> set w \<Longrightarrow> split_dots (w @ CHR ''.'' # s) = w # split_dots s"
  "CHR ''.'' \<notin> set w \<Longrightarrow> split_dots w = [w]"
  by (induction w) auto

lemma dot_not_in_dec: "CHR ''.'' \<notin> set (dec n)"
  using dec_digits[of "CHR ''.''" n] by auto

lemma read_quad_doc: "inet_addr_doc read_quad"
  unfolding inet_addr_doc_def
proof
  fix a
  have "of_nat (octet 0 a + 256 * (octet 1 a + 256 * (octet 2 a + 256 * octet 3 a))) = a"
    by (simp only: octets[symmetric]) simp
  then show "read_quad (inet_ntop a) = a"
    by (simp add: read_quad_def inet_ntop_def split_dots_word dot_not_in_dec)
qed

section \<open>Properties\<close>

text \<open>An address built from a port and a printed IPv4 address gives both back, through the
  conversion of the port to network byte order.\<close>

theorem InetAddress_roundtrip:
  assumes "inet_addr_doc inet_addr"
  shows "toPort (InetAddress_new inet_addr port (inet_ntop a)) = port \<and>
    toIp (InetAddress_new inet_addr port (inet_ntop a)) = inet_ntop a \<and>
    toIpPort (InetAddress_new inet_addr port (inet_ntop a)) = inet_ntop a @ '' : '' @ to_string (uint port)"
  using assms
  by (simp add: toPort_def toIp_def toIpPort_def InetAddress_new_def inet_addr_doc_def)

theorem InetAddress_roundtrip_witness:
  "toPort (InetAddress_new read_quad 8000 (inet_ntop 16777343)) = 8000"
  using InetAddress_roundtrip[OF read_quad_doc, of 8000 16777343] by simp

text \<open>Different addresses print differently: \<open>toIpPort\<close> determines the IPv4 address and the port.\<close>

theorem toIpPort_injective:
  "toIpPort a = toIpPort b \<longleftrightarrow> s_addr a = s_addr b \<and> sin_port a = sin_port b"
proof
  assume "toIpPort a = toIpPort b"
  then have "s_addr a = s_addr b \<and> '': '' @ to_string (uint (toPort a)) = '': '' @ to_string (uint (toPort b))"
    unfolding toIpPort_def toIp_def by (intro inet_ntop_suffix_inject) simp
  then have "s_addr a = s_addr b" "htons (toPort a) = htons (toPort b)"
    by (auto intro: arg_cong[where f = htons] word_uint_eqI)
  then show "s_addr a = s_addr b \<and> sin_port a = sin_port b" by (simp add: toPort_def)
qed (simp add: toIpPort_def toIp_def toPort_def)


end
