(* ===== verification/TcpConnection.thy ===== *)
theory TcpConnection
  imports EventLoop Buffer InetAddress "HOL-Library.Sublist"
begin

text \<open>
  \<open>include/TcpConnection.h\<close> and \<open>src/TcpConnection.cpp\<close>: the connection object, what user code
  may ask of it, and what the event loop runs on it. A state \<open>cstate\<close> is one connection with
  the loop that owns it. User callbacks are scripts: functions that look at what they are
  given and answer with the calls they make on the connection. The lemmas here are the frame
  of the operations (\<open>keeps\<close>): what no operation of a connection changes.
\<close>

section \<open>State\<close>

datatype StateE = kDisconnected | kConnecting | kConnected | kDisconnecting

fun stateToString :: "StateE \<Rightarrow> string" where
  "stateToString kDisconnected = ''kDisconnected''"
| "stateToString kDisconnecting = ''kDisconnecting''"
| "stateToString kConnected = ''kConnected''"
| "stateToString kConnecting = ''kConnecting''"

datatype api = CallSend "char list" | CallShutdown | CallRetrieve nat | CallRetrieveAll

text \<open>
  \<open>conn_id\<close> is the object's identity, \<open>conn_loop\<close> the address of \<open>loop_\<close>, \<open>sockfd\<close> the descriptor of \<open>socket_\<close> and of \<open>channel_\<close>,
  \<open>conn_channel\<close> the address of \<open>channel_\<close>; \<open>conn_closeCallback\<close> tells whether the close
  callback is set (the server's \<open>removeConnection\<close>). \<open>sock_hist\<close> is the history of the system
  calls on the socket, newest first.
\<close>

record tcp_conn =
  conn_id :: nat
  conn_loop :: ptr
  conn_name :: string
  conn_state :: StateE
  reading :: bool
  sockfd :: fd
  conn_channel :: ptr
  localAddr :: sockaddr_in
  peerAddr :: sockaddr_in
  connectionCallback :: "(StateE \<Rightarrow> api list) option"
  messageCallback :: "(StateE \<Rightarrow> char list \<Rightarrow> timestamp \<Rightarrow> api list) option"
  writeCompleteCallback :: "(StateE \<Rightarrow> api list) option"
  highWaterMarkCallback :: "(StateE \<Rightarrow> nat \<Rightarrow> api list) option"
  conn_closeCallback :: bool
  highWaterMark :: nat
  inputBuffer :: buffer
  outputBuffer :: buffer
  sock_hist :: "sock_io list"

text \<open>
  \<open>strings\<close> is the heap of the \<open>std::string\<close> objects that exist, by address; \<open>upcalls\<close> lists
  the calls of the close callback, which is the last thing a handler does.
\<close>

record cstate =
  conn :: tcp_conn
  cloop :: event_loop
  strings :: "ptr \<rightharpoonup> char list"
  upcalls :: "nat list"

definition upd_loop :: "(event_loop \<Rightarrow> event_loop) \<Rightarrow> cstate \<Rightarrow> cstate" where
  "upd_loop f s = s\<lparr>cloop := f (cloop s)\<rparr>"

definition upd_conn :: "(tcp_conn \<Rightarrow> tcp_conn) \<Rightarrow> cstate \<Rightarrow> cstate" where
  "upd_conn f s = s\<lparr>conn := f (conn s)\<rparr>"

definition setState :: "StateE \<Rightarrow> cstate \<Rightarrow> cstate" where
  "setState st s = upd_conn (\<lambda>c. c\<lparr>conn_state := st\<rparr>) s"

definition push_io :: "sock_io \<Rightarrow> cstate \<Rightarrow> cstate" where
  "push_io io s = upd_conn (\<lambda>c. c\<lparr>sock_hist := io # sock_hist c\<rparr>) s"

definition chan_of :: "cstate \<Rightarrow> channel res" where
  "chan_of s = deref (conn_channel (conn s)) (el_poller (cloop s))"

definition conn_interest :: "os \<Rightarrow> interest_op \<Rightarrow> cstate \<Rightarrow> cstate res" where
  "conn_interest os k s =
     bindR (set_interest os k (conn_channel (conn s)) (cloop s)) (\<lambda>L. Inr (s\<lparr>cloop := L\<rparr>))"

section \<open>Construction\<close>

definition CheckLoopNotNull :: "ptr option \<Rightarrow> ptr res" where
  "CheckLoopNotNull loop =
     (case loop of None \<Rightarrow> Inl (Exit ''%s:%s:%d TcpConnection Loop is null!'') | Some l \<Rightarrow> Inr l)"

definition TcpConnection_new ::
    "ptr option \<Rightarrow> nat \<Rightarrow> string \<Rightarrow> fd \<Rightarrow> ptr \<Rightarrow> sockaddr_in \<Rightarrow> sockaddr_in \<Rightarrow> event_loop \<Rightarrow>
     (tcp_conn \<times> event_loop) res" where
  "TcpConnection_new loop obj nameArg fd cp localA peerA L =
     bindR (CheckLoopNotNull loop) (\<lambda>l.
     bindR (Buffer_new kInitialSize) (\<lambda>ib.
     bindR (Buffer_new kInitialSize) (\<lambda>ob.
       let ch = (Channel_new fd)\<lparr>readCallback := Some (ConnHandleRead obj),
                   writeCallback := Some (ConnHandleWrite obj),
                   closeCallback := Some (ConnHandleClose obj),
                   errorCallback := Some (ConnHandleError obj)\<rparr>
       in Inr (\<lparr>conn_id = obj, conn_loop = l, conn_name = nameArg, conn_state = kConnecting, reading = True,
                sockfd = fd, conn_channel = cp, localAddr = localA, peerAddr = peerA,
                connectionCallback = None, messageCallback = None, writeCompleteCallback = None,
                highWaterMarkCallback = None, conn_closeCallback = False,
                highWaterMark = 64 * 1024 * 1024, inputBuffer = ib, outputBuffer = ob,
                sock_hist = []\<rparr>,
               L\<lparr>el_poller := store cp ch (el_poller L)\<rparr>))))"

definition setConnectionCallback :: "(StateE \<Rightarrow> api list) option \<Rightarrow> tcp_conn \<Rightarrow> tcp_conn" where
  "setConnectionCallback cb c = c\<lparr>connectionCallback := cb\<rparr>"

definition setMessageCallback ::
    "(StateE \<Rightarrow> char list \<Rightarrow> timestamp \<Rightarrow> api list) option \<Rightarrow> tcp_conn \<Rightarrow> tcp_conn" where
  "setMessageCallback cb c = c\<lparr>messageCallback := cb\<rparr>"

definition setWriteCompleteCallback :: "(StateE \<Rightarrow> api list) option \<Rightarrow> tcp_conn \<Rightarrow> tcp_conn" where
  "setWriteCompleteCallback cb c = c\<lparr>writeCompleteCallback := cb\<rparr>"

definition setHighWaterMarkCallback ::
    "(StateE \<Rightarrow> nat \<Rightarrow> api list) option \<Rightarrow> nat \<Rightarrow> tcp_conn \<Rightarrow> tcp_conn" where
  "setHighWaterMarkCallback cb m c = c\<lparr>highWaterMarkCallback := cb, highWaterMark := m\<rparr>"

definition setCloseCallback :: "bool \<Rightarrow> tcp_conn \<Rightarrow> tcp_conn" where
  "setCloseCallback cb c = c\<lparr>conn_closeCallback := cb\<rparr>"

section \<open>Sending\<close>

text \<open>
  The first attempt of \<open>sendInLoop\<close>: with nothing queued it writes directly. The result is
  the state, the bytes written, the bytes remaining and \<open>faultError\<close>.
\<close>

definition send_direct ::
    "os \<Rightarrow> int \<Rightarrow> char list \<Rightarrow> nat \<Rightarrow> channel \<Rightarrow> cstate \<Rightarrow> (cstate \<times> nat \<times> nat \<times> bool) res" where
  "send_direct os tid data len ch s =
     (if \<not> isWriting ch \<and> readableBytes (outputBuffer (conn s)) = 0
      then bindR (mem_read data 0 len) (\<lambda>d.
        let ans = sys_write os (ch_fd ch) (sock_hist (conn s)) d; s1 = push_io (Wrote d ans) s
        in case ans of
             SysOk nwrote \<Rightarrow>
               let remaining = sz_sub len nwrote
               in Inr (if remaining = 0 \<and> writeCompleteCallback (conn s1) \<noteq> None
                       then upd_loop (queueInLoop tid (F_writeComplete (conn_id (conn s1)))) s1
                       else s1,
                       nwrote, remaining, False)
           | SysErr e \<Rightarrow> Inr (s1, 0, len, e \<noteq> EWOULDBLOCK \<and> (e = EPIPE \<or> e = ECONNRESET)))
      else Inr (s, 0, len, False))"

text \<open>The second part: the rest goes to the output buffer, and the channel waits for EPOLLOUT.\<close>

definition send_rest :: "os \<Rightarrow> int \<Rightarrow> char list \<Rightarrow> nat \<Rightarrow> nat \<Rightarrow> cstate \<Rightarrow> cstate res" where
  "send_rest os tid data nwrote remaining s =
     (let oldLen = readableBytes (outputBuffer (conn s));
          s1 = (if highWaterMark (conn s) \<le> sz_add oldLen remaining \<and> oldLen < highWaterMark (conn s) \<and>
                   highWaterMarkCallback (conn s) \<noteq> None
                then upd_loop (queueInLoop tid
                       (F_highWaterMark (conn_id (conn s)) (sz_add oldLen remaining))) s
                else s)
      in bindR (Buffer_append (drop nwrote data) remaining (outputBuffer (conn s1))) (\<lambda>b.
         let s2 = upd_conn (\<lambda>c. c\<lparr>outputBuffer := b\<rparr>) s1
         in bindR (chan_of s2) (\<lambda>ch.
              if \<not> isWriting ch then conn_interest os EnableWriting s2 else Inr s2)))"

definition sendInLoop :: "os \<Rightarrow> int \<Rightarrow> char list \<Rightarrow> nat \<Rightarrow> cstate \<Rightarrow> cstate res" where
  "sendInLoop os tid data len s =
     bindR (assertInLoopThread tid (cloop s)) (\<lambda>_.
     if conn_state (conn s) = kDisconnected then Inr s
     else bindR (chan_of s) (\<lambda>ch.
          bindR (send_direct os tid data len ch s) (\<lambda>(s1, nwrote, remaining, faultError).
          if \<not> faultError \<and> remaining > 0 then send_rest os tid data nwrote remaining s1
          else Inr s1)))"

text \<open>The closure that \<open>send\<close> binds holds the address of the characters, not the characters.\<close>

definition run_sendInLoop :: "os \<Rightarrow> int \<Rightarrow> ptr \<Rightarrow> nat \<Rightarrow> cstate \<Rightarrow> cstate res" where
  "run_sendInLoop os tid addr len s =
     (case strings s addr of
        None \<Rightarrow> Inl (UB ''dangling const char*'')
      | Some d \<Rightarrow> sendInLoop os tid d len s)"

definition TcpConnection_send :: "os \<Rightarrow> int \<Rightarrow> ptr \<Rightarrow> char list \<Rightarrow> cstate \<Rightarrow> cstate res" where
  "TcpConnection_send os tid addr msg s =
     (if conn_state (conn s) = kConnected
      then (if isInLoopThread tid (cloop s) then sendInLoop os tid msg (length msg) s
            else runInLoop cloop upd_loop (\<lambda>_. run_sendInLoop os tid addr (length msg)) tid
                   (F_sendInLoop (conn_id (conn s)) addr (length msg)) s)
      else Inr s)"

section \<open>Shutting down\<close>

text \<open>\<open>Socket::shutdownWrite\<close> ignores a failure, apart from logging it.\<close>

definition Socket_shutdownWrite :: "os \<Rightarrow> cstate \<Rightarrow> cstate" where
  "Socket_shutdownWrite os s = push_io (ShutWr (sys_shutdown os (sockfd (conn s)) (sock_hist (conn s)))) s"

definition shutdownInLoop :: "os \<Rightarrow> cstate \<Rightarrow> cstate res" where
  "shutdownInLoop os s =
     bindR (chan_of s) (\<lambda>ch.
       if \<not> isWriting ch then Inr (Socket_shutdownWrite os s) else Inr s)"

definition TcpConnection_shutdown :: "os \<Rightarrow> int \<Rightarrow> cstate \<Rightarrow> cstate res" where
  "TcpConnection_shutdown os tid s =
     (if conn_state (conn s) = kConnected
      then runInLoop cloop upd_loop (\<lambda>_. shutdownInLoop os) tid
             (F_shutdownInLoop (conn_id (conn s))) (setState kDisconnecting s)
      else Inr s)"

section \<open>User callbacks\<close>

fun user_call :: "os \<Rightarrow> int \<Rightarrow> api \<Rightarrow> cstate \<Rightarrow> cstate res" where
  "user_call os tid (CallSend msg) s = TcpConnection_send os tid 0 msg s"
| "user_call os tid CallShutdown s = TcpConnection_shutdown os tid s"
| "user_call os tid (CallRetrieve n) s =
     Inr (upd_conn (\<lambda>c. c\<lparr>inputBuffer := Buffer_retrieve n (inputBuffer c)\<rparr>) s)"
| "user_call os tid CallRetrieveAll s =
     bindR (retrieveAllAsString (inputBuffer (conn s))) (\<lambda>(msg, b).
       Inr (upd_conn (\<lambda>c. c\<lparr>inputBuffer := b\<rparr>) s))"

definition run_script :: "os \<Rightarrow> int \<Rightarrow> api list \<Rightarrow> cstate \<Rightarrow> cstate res" where
  "run_script os tid = foldR (user_call os tid)"

text \<open>Calling an empty \<open>std::function\<close> throws \<open>bad_function_call\<close>.\<close>

definition call_connectionCallback :: "os \<Rightarrow> int \<Rightarrow> cstate \<Rightarrow> cstate res" where
  "call_connectionCallback os tid s =
     (case connectionCallback (conn s) of
        None \<Rightarrow> Inl (Throw ''bad_function_call'')
      | Some f \<Rightarrow> run_script os tid (f (conn_state (conn s))) s)"

definition call_messageCallback :: "os \<Rightarrow> int \<Rightarrow> timestamp \<Rightarrow> cstate \<Rightarrow> cstate res" where
  "call_messageCallback os tid t s =
     (case messageCallback (conn s) of
        None \<Rightarrow> Inl (Throw ''bad_function_call'')
      | Some f \<Rightarrow> run_script os tid (f (conn_state (conn s)) (content (inputBuffer (conn s))) t) s)"

section \<open>Life cycle and event handlers\<close>

definition connectEstablished :: "os \<Rightarrow> int \<Rightarrow> cstate \<Rightarrow> cstate res" where
  "connectEstablished os tid s =
     (let s1 = setState kConnected s in
      bindR (chan_of s1) (\<lambda>ch.
      let s2 = upd_loop (\<lambda>L. L\<lparr>el_poller := store (conn_channel (conn s1))
                 (Channel_tie (conn_id (conn s1)) ch) (el_poller L)\<rparr>) s1 in
      bindR (conn_interest os EnableReading s2) (call_connectionCallback os tid)))"

definition connectDestroyed :: "os \<Rightarrow> int \<Rightarrow> cstate \<Rightarrow> cstate res" where
  "connectDestroyed os tid s =
     bindR (if conn_state (conn s) = kConnected
            then bindR (conn_interest os DisableAll (setState kDisconnected s))
                   (call_connectionCallback os tid)
            else Inr s) (\<lambda>s1.
     bindR (EventLoop_removeChannel os (conn_channel (conn s1)) (cloop s1)) (\<lambda>L.
       Inr (s1\<lparr>cloop := L\<rparr>)))"

definition TcpConnection_handleClose :: "os \<Rightarrow> int \<Rightarrow> cstate \<Rightarrow> cstate res" where
  "TcpConnection_handleClose os tid s =
     bindR (conn_interest os DisableAll (setState kDisconnected s)) (\<lambda>s1.
     bindR (call_connectionCallback os tid s1) (\<lambda>s2.
     if conn_closeCallback (conn s2)
     then Inr (s2\<lparr>upcalls := upcalls s2 @ [conn_id (conn s2)]\<rparr>)
     else Inl (Throw ''bad_function_call'')))"

text \<open>\<open>handleError\<close> asks for SO_ERROR and logs it.\<close>

definition TcpConnection_handleError :: "cstate \<Rightarrow> cstate res" where
  "TcpConnection_handleError s = Inr s"

definition TcpConnection_handleRead :: "os \<Rightarrow> int \<Rightarrow> timestamp \<Rightarrow> cstate \<Rightarrow> cstate res" where
  "TcpConnection_handleRead os tid receiveTime s =
     bindR (chan_of s) (\<lambda>ch.
     let read = sys_readv os (ch_fd ch) (sock_hist (conn s)); iov = readFd_iov (inputBuffer (conn s)) in
     bindR (Buffer_readFd read None (inputBuffer (conn s))) (\<lambda>(n, savedErrno, b).
     let s1 = upd_conn (\<lambda>c. c\<lparr>inputBuffer := b\<rparr>) (push_io (Got iov (read iov)) s) in
     if n > 0 then call_messageCallback os tid receiveTime s1
     else if n = 0 then TcpConnection_handleClose os tid s1
     else TcpConnection_handleError s1))"

definition TcpConnection_handleWrite :: "os \<Rightarrow> int \<Rightarrow> cstate \<Rightarrow> cstate res" where
  "TcpConnection_handleWrite os tid s =
     bindR (chan_of s) (\<lambda>ch.
     if isWriting ch
     then (let b = outputBuffer (conn s);
               write = sys_write os (ch_fd ch) (sock_hist (conn s));
               d = take (readableBytes b) (drop (peek b) (vec b)) in
       bindR (Buffer_writeFd write None b) (\<lambda>(n, savedErrno).
       let s1 = push_io (Wrote d (write d)) s in
       if n > 0
       then (let s2 = upd_conn (\<lambda>c. c\<lparr>outputBuffer := Buffer_retrieve (nat n) (outputBuffer c)\<rparr>) s1 in
         if readableBytes (outputBuffer (conn s2)) = 0
         then bindR (conn_interest os DisableWriting s2) (\<lambda>s3.
              let s4 = (if writeCompleteCallback (conn s3) \<noteq> None
                        then upd_loop (queueInLoop tid (F_writeComplete (conn_id (conn s3)))) s3
                        else s3)
              in if conn_state (conn s4) = kDisconnecting then shutdownInLoop os s4 else Inr s4)
         else Inr s2)
       else Inr s1))
     else Inr s)"

section \<open>What the loop runs on a connection\<close>

fun conn_invoke :: "os \<Rightarrow> int \<Rightarrow> callback \<Rightarrow> timestamp \<Rightarrow> cstate \<Rightarrow> cstate res" where
  "conn_invoke os tid (ConnHandleRead c) t s = TcpConnection_handleRead os tid t s"
| "conn_invoke os tid (ConnHandleWrite c) t s = TcpConnection_handleWrite os tid s"
| "conn_invoke os tid (ConnHandleClose c) t s = TcpConnection_handleClose os tid s"
| "conn_invoke os tid (ConnHandleError c) t s = TcpConnection_handleError s"
| "conn_invoke os tid _ t s = Inr s"

fun conn_functor :: "os \<Rightarrow> int \<Rightarrow> Functor \<Rightarrow> cstate \<Rightarrow> cstate res" where
  "conn_functor os tid (F_connectEstablished c) s = connectEstablished os tid s"
| "conn_functor os tid (F_connectDestroyed c) s = connectDestroyed os tid s"
| "conn_functor os tid (F_sendInLoop c addr len) s = run_sendInLoop os tid addr len s"
| "conn_functor os tid (F_shutdownInLoop c) s = shutdownInLoop os s"
| "conn_functor os tid (F_writeComplete c) s =
     (case writeCompleteCallback (conn s) of
        None \<Rightarrow> Inl (Throw ''bad_function_call'')
      | Some f \<Rightarrow> run_script os tid (f (conn_state (conn s))) s)"
| "conn_functor os tid (F_highWaterMark c n) s =
     (case highWaterMarkCallback (conn s) of
        None \<Rightarrow> Inl (Throw ''bad_function_call'')
      | Some f \<Rightarrow> run_script os tid (f (conn_state (conn s)) n) s)"
| "conn_functor os tid _ s = Inr s"

section \<open>Relations that every operation keeps\<close>

text \<open>
  A reflexive and transitive relation between the states before and after, which the single
  steps of the code keep, is kept by every operation of the connection.
\<close>

named_theorems conn_intros "operations of a connection that keep a relation"

lemma chan_of_ends: "ends (chan_of s) (\<lambda>ch. chans (el_poller (cloop s)) (conn_channel (conn s)) = Some ch)"
  unfolding chan_of_def by (rule deref_ends)

locale conn_relation =
  fixes R :: "cstate \<Rightarrow> cstate \<Rightarrow> bool"
  assumes R_refl: "R s s" and R_trans: "R s t \<Longrightarrow> R t u \<Longrightarrow> R s u"
    and R_push_io: "R s (push_io io s)" and R_state: "R s (setState st s)"
    and R_input: "R s (upd_conn (\<lambda>c. c\<lparr>inputBuffer := f c\<rparr>) s)"
    and R_output: "R s (upd_conn (\<lambda>c. c\<lparr>outputBuffer := f c\<rparr>) s)"
    and R_queue: "R s (upd_loop (queueInLoop tid F) s)"
    and R_upcalls: "R s (s\<lparr>upcalls := upcalls s @ us\<rparr>)"
    and R_interest: "ends (conn_interest os k s) (R s)"
    and R_tie: "chans (el_poller (cloop s)) (conn_channel (conn s)) = Some ch \<Longrightarrow>
      R s (upd_loop (\<lambda>L. L\<lparr>el_poller := store (conn_channel (conn s)) (Channel_tie i ch) (el_poller L)\<rparr>) s)"
begin

lemmas chain =
  R_trans[OF _ R_push_io] R_trans[OF _ R_state] R_trans[OF _ R_input] R_trans[OF _ R_output] R_trans[OF _ R_queue]
  R_trans[OF _ R_upcalls]

lemma then_R: "ends m (R s) \<Longrightarrow> R u s \<Longrightarrow> ends m (R u)"
  by (erule ends_mono) (rule R_trans)

text \<open>\<open>seq\<close> passes the relation through a step on the connection, \<open>skip_value\<close> skips a value.\<close>

lemmas seq = ends_seq[where P = "R u" and Q = "R u" for u]
lemmas skip_value =
  ends_value[where Q = "R u" and m = "m :: channel res" for u m]
  ends_value[where Q = "R u" and m = "m :: buffer res" for u m]
  ends_value[where Q = "R u" and m = "m :: unit res" for u m]
  ends_value[where Q = "R u" and m = "m :: (string \<times> buffer) res" for u m]
  ends_value[where Q = "R u" and m = "m :: (int \<times> errno option) res" for u m]
  ends_value[where Q = "R u" and m = "m :: (int \<times> errno option \<times> buffer) res" for u m]

lemmas rules = seq skip_value ends_rules chain

lemma conn_interest_R [conn_intros]: "R u s \<Longrightarrow> ends (conn_interest os k s) (R u)"
  by (rule then_R[OF R_interest])

lemma send_direct_R:
  "R u s \<Longrightarrow> ends (send_direct os tid data len ch s) (\<lambda>r. R u (fst r))"
  by (cases "mem_read data 0 len")
    (auto simp: send_direct_def Let_def intro: chain split: sys.splits)

lemma send_rest_R [conn_intros]: "R u s \<Longrightarrow> ends (send_rest os tid data n r s) (R u)"
  unfolding send_rest_def Let_def by (auto intro!: rules conn_interest_R)

lemma sendInLoop_R [conn_intros]: "R u s \<Longrightarrow> ends (sendInLoop os tid data len s) (R u)"
  unfolding sendInLoop_def
  by (auto intro!: rules send_rest_R ends_seq[OF send_direct_R])

lemma run_sendInLoop_R [conn_intros]: "R u s \<Longrightarrow> ends (run_sendInLoop os tid a len s) (R u)"
  unfolding run_sendInLoop_def by (auto intro!: rules sendInLoop_R)

lemma TcpConnection_send_R [conn_intros]: "R u s \<Longrightarrow> ends (TcpConnection_send os tid a m s) (R u)"
  unfolding TcpConnection_send_def runInLoop_def by (auto intro!: rules sendInLoop_R run_sendInLoop_R)

lemma shutdownInLoop_R [conn_intros]: "R u s \<Longrightarrow> ends (shutdownInLoop os s) (R u)"
  unfolding shutdownInLoop_def Socket_shutdownWrite_def by (auto intro!: rules)

lemma TcpConnection_shutdown_R [conn_intros]: "R u s \<Longrightarrow> ends (TcpConnection_shutdown os tid s) (R u)"
  unfolding TcpConnection_shutdown_def runInLoop_def by (auto intro!: rules shutdownInLoop_R)

lemma user_call_R [conn_intros]: "R u s \<Longrightarrow> ends (user_call os tid a s) (R u)"
  by (cases a) (auto intro!: rules TcpConnection_send_R TcpConnection_shutdown_R)

lemma run_script_R [conn_intros]: "R u s \<Longrightarrow> ends (run_script os tid as s) (R u)"
  unfolding run_script_def by (auto intro!: ends_foldR user_call_R)

lemma call_connectionCallback_R [conn_intros]: "R u s \<Longrightarrow> ends (call_connectionCallback os tid s) (R u)"
  unfolding call_connectionCallback_def by (auto intro!: rules run_script_R)

lemma call_messageCallback_R [conn_intros]: "R u s \<Longrightarrow> ends (call_messageCallback os tid now s) (R u)"
  unfolding call_messageCallback_def by (auto intro!: rules run_script_R)

lemma connectEstablished_R [conn_intros]: "R u s \<Longrightarrow> ends (connectEstablished os tid s) (R u)"
  unfolding connectEstablished_def Let_def
  by (rule ends_seq[OF chan_of_ends])
    (intro ends_seq[OF conn_interest_R[OF R_trans[OF _ R_tie]]] call_connectionCallback_R chain)

lemma handleClose_R [conn_intros]: "R u s \<Longrightarrow> ends (TcpConnection_handleClose os tid s) (R u)"
  unfolding TcpConnection_handleClose_def by (auto intro!: rules conn_interest_R call_connectionCallback_R)

lemma handleRead_R [conn_intros]: "R u s \<Longrightarrow> ends (TcpConnection_handleRead os tid now s) (R u)"
  unfolding TcpConnection_handleRead_def TcpConnection_handleError_def Let_def
  by (auto intro!: rules handleClose_R call_messageCallback_R)

lemma handleWrite_R [conn_intros]: "R u s \<Longrightarrow> ends (TcpConnection_handleWrite os tid s) (R u)"
  unfolding TcpConnection_handleWrite_def Let_def by (auto intro!: rules conn_interest_R shutdownInLoop_R)

lemma conn_invoke_R [conn_intros]: "R u s \<Longrightarrow> ends (conn_invoke os tid cb now s) (R u)"
  by (cases cb) (auto simp: TcpConnection_handleError_def intro!: handleRead_R handleWrite_R handleClose_R)

end

text \<open>With the removal of the channel from its poller.\<close>

locale conn_relation_remove = conn_relation +
  assumes R_remove: "ends (bindR (EventLoop_removeChannel os (conn_channel (conn s)) (cloop s)) (\<lambda>L. Inr (s\<lparr>cloop := L\<rparr>))) (R s)"
begin

lemma connectDestroyed_R [conn_intros]: "R u s \<Longrightarrow> ends (connectDestroyed os tid s) (R u)"
  unfolding connectDestroyed_def
  by (rule seq) (auto intro!: rules conn_interest_R call_connectionCallback_R then_R[OF R_remove])

lemma conn_functor_R [conn_intros]: "R u s \<Longrightarrow> ends (conn_functor os tid F s) (R u)"
  by (cases F)
    (auto intro!: rules connectEstablished_R connectDestroyed_R run_sendInLoop_R shutdownInLoop_R run_script_R)

end

section \<open>What no operation changes\<close>

text \<open>The part of a connection that is fixed once its callbacks are set.\<close>

record profile =
  p_id :: nat
  p_fd :: fd
  p_conn :: "(StateE \<Rightarrow> api list) option"
  p_msg :: "(StateE \<Rightarrow> char list \<Rightarrow> timestamp \<Rightarrow> api list) option"
  p_done :: "(StateE \<Rightarrow> api list) option"
  p_high :: "(StateE \<Rightarrow> nat \<Rightarrow> api list) option"
  p_close :: bool
  p_mark :: nat

definition profile_of :: "cstate \<Rightarrow> profile" where
  "profile_of s = \<lparr>p_id = conn_id (conn s), p_fd = sockfd (conn s), p_conn = connectionCallback (conn s),
     p_msg = messageCallback (conn s), p_done = writeCompleteCallback (conn s),
     p_high = highWaterMarkCallback (conn s), p_close = conn_closeCallback (conn s),
     p_mark = highWaterMark (conn s)\<rparr>"

definition keeps :: "cstate \<Rightarrow> cstate \<Rightarrow> bool" where
  "keeps s t \<longleftrightarrow> profile_of t = profile_of s \<and> conn_name (conn t) = conn_name (conn s) \<and>
     conn_loop (conn t) = conn_loop (conn s) \<and>
     conn_channel (conn t) = conn_channel (conn s) \<and> strings t = strings s \<and>
     threadId (cloop t) = threadId (cloop s) \<and> quit (cloop t) = quit (cloop s) \<and>
     wakeupChannel (cloop t) = wakeupChannel (cloop s) \<and> wakeupFd (cloop t) = wakeupFd (cloop s) \<and>
     callingPendingFunctors (cloop t) = callingPendingFunctors (cloop s) \<and>
     prefix (pendingFunctors (cloop s)) (pendingFunctors (cloop t)) \<and>
     prefix (upcalls s) (upcalls t) \<and>
     poller_frame (conn_channel (conn s)) (sockfd (conn s)) (el_poller (cloop s)) (el_poller (cloop t))"

lemma keeps_refl [simp, intro]: "keeps s s"
  by (simp add: keeps_def)

lemma keeps_trans [trans]: "keeps s t \<Longrightarrow> keeps t u \<Longrightarrow> keeps s u"
  by (auto simp: keeps_def profile_of_def intro: poller_frame_trans)

text \<open>Steps that change only fields the frame does not mention, or append to a queue.\<close>

lemma keeps_steps [simp]:
  "keeps s (push_io io s)" "keeps s (setState st s)"
  "keeps s (upd_conn (\<lambda>c. c\<lparr>inputBuffer := f c\<rparr>) s)"
  "keeps s (upd_conn (\<lambda>c. c\<lparr>outputBuffer := f c\<rparr>) s)"
  "keeps s (upd_loop (queueInLoop tid F) s)"
  "keeps s (s\<lparr>upcalls := upcalls s @ us\<rparr>)"
  by (simp_all add: keeps_def profile_of_def push_io_def setState_def upd_conn_def upd_loop_def)

lemma keeps_poller:
  "poller_frame (conn_channel (conn s)) (sockfd (conn s)) (el_poller (cloop s)) P \<Longrightarrow> keeps s (s\<lparr>cloop := (cloop s)\<lparr>el_poller := P\<rparr>\<rparr>)"
  by (simp add: keeps_def profile_of_def)

interpretation kept: conn_relation_remove keeps
proof
  show "keeps s t \<Longrightarrow> keeps t u \<Longrightarrow> keeps s u" for s t u by (rule keeps_trans)
  show "ends (conn_interest os k s) (keeps s)" for os k s
    unfolding conn_interest_def set_interest_def with_poller_def bindR_assoc
    by (rule ends_seq[OF set_interest_frame[where fd = "sockfd (conn s)"]]) (simp add: keeps_poller)
  show "keeps s (upd_loop (\<lambda>L. L\<lparr>el_poller := store (conn_channel (conn s)) (Channel_tie i ch) (el_poller L)\<rparr>) s)"
    if "chans (el_poller (cloop s)) (conn_channel (conn s)) = Some ch" for s i ch
    using keeps_poller[OF poller_frame_store[OF that, of "Channel_tie i ch"]] by (simp add: upd_loop_def)
  show "ends (bindR (EventLoop_removeChannel os (conn_channel (conn s)) (cloop s)) (\<lambda>L. Inr (s\<lparr>cloop := L\<rparr>))) (keeps s)" for os s
    unfolding EventLoop_removeChannel_def with_poller_def bindR_assoc
    by (rule ends_seq[OF removeChannel_frame[where fd = "sockfd (conn s)"]]) (simp add: keeps_poller)
qed simp_all

section \<open>A channel that the poller knows stays known\<close>

text \<open>Every operation but \<open>connectDestroyed\<close> leaves a channel of the poller's map there.\<close>

definition stays_known :: "cstate \<Rightarrow> cstate \<Rightarrow> bool" where
  "stays_known s t \<longleftrightarrow> keeps s t \<and> stays_listed (el_poller (cloop s)) (el_poller (cloop t))"

interpretation known: conn_relation stays_known
proof
  show "stays_known s u" if "stays_known s t" "stays_known t u" for s t u
    using that keeps_trans stays_listed_trans unfolding stays_known_def by metis
  show "ends (conn_interest os k s) (stays_known s)" for os k s
    unfolding stays_known_def
  proof (rule ends_conj)
    show "ends (conn_interest os k s) (keeps s)" by (rule kept.R_interest)
    show "ends (conn_interest os k s) (\<lambda>t. stays_listed (el_poller (cloop s)) (el_poller (cloop t)))"
      unfolding conn_interest_def set_interest_def with_poller_def bindR_assoc
      by (rule ends_seq[OF set_interest_listed]) simp
  qed
  show "stays_known s (upd_loop (\<lambda>L. L\<lparr>el_poller := store (conn_channel (conn s)) (Channel_tie i ch) (el_poller L)\<rparr>) s)"
    if "chans (el_poller (cloop s)) (conn_channel (conn s)) = Some ch" for s i ch
    using that kept.R_tie[OF that] by (simp add: stays_known_def upd_loop_def stays_listed_def listed_def Channel_tie_def)
qed (simp_all add: stays_known_def, simp_all add: push_io_def setState_def upd_conn_def upd_loop_def)

interpretation conn_host: loop_host cloop upd_loop "conn_functor os tid" for os tid
proof
  show "cloop (upd_loop f s) = f (cloop s)" for f s by (simp add: upd_loop_def)
  show "\<exists>new. pendingFunctors (cloop t) = pendingFunctors (cloop s) @ new"
    if "conn_functor os tid cb s = Inr t" for cb s t
    using ends_D[OF kept.conn_functor_R[OF keeps_refl] that] by (auto simp: keeps_def prefix_def)
qed

end
