(* ===== verification/ConnSpec.thy ===== *)
theory ConnSpec
  imports TcpConnection
begin

text \<open>
  The specification of a connection and the proof that \<open>TcpConnection\<close> implements it. An
  abstract connection has a state, the history of its socket, a backlog of bytes to send, the
  bytes received and not yet taken, and the tasks and close notices it has issued: no vector
  indices, no event masks, no poller. Its operations are total functions. \<open>implements\<close>
  relates the two levels; every operation keeps it, and fails only when memory runs out.
\<close>

section \<open>The abstract connection\<close>

record aconn =
  astate :: StateE
  ahist :: "sock_io list"
  abacklog :: "char list"
  ainput :: "char list"
  atasks :: "Functor list"
  anotices :: "nat list"

definition a_push :: "sock_io \<Rightarrow> aconn \<Rightarrow> aconn" where
  "a_push io a = a\<lparr>ahist := io # ahist a\<rparr>"

definition a_task :: "Functor \<Rightarrow> aconn \<Rightarrow> aconn" where
  "a_task F a = a\<lparr>atasks := atasks a @ [F]\<rparr>"

text \<open>Nothing waits for the socket to become writable.\<close>

definition a_idle :: "aconn \<Rightarrow> bool" where
  "a_idle a \<longleftrightarrow> abacklog a = [] \<or> astate a = kDisconnected"

text \<open>
  Sending: with an empty backlog the data goes to the kernel first. What the kernel did not
  take joins the backlog, except after EPIPE or ECONNRESET, when it is dropped.
\<close>

definition a_enqueue :: "profile \<Rightarrow> char list \<Rightarrow> aconn \<Rightarrow> aconn" where
  "a_enqueue p rest a =
     (let old = length (abacklog a); new = old + length rest;
          a1 = (if p_mark p \<le> new \<and> old < p_mark p \<and> p_high p \<noteq> None
                then a_task (F_highWaterMark (p_id p) new) a else a)
      in a1\<lparr>abacklog := abacklog a @ rest\<rparr>)"

definition a_send :: "os \<Rightarrow> profile \<Rightarrow> char list \<Rightarrow> aconn \<Rightarrow> aconn" where
  "a_send os p data a =
     (if astate a = kDisconnected then a
      else if abacklog a \<noteq> [] then (if data = [] then a else a_enqueue p data a)
      else let ans = sys_write os (p_fd p) (ahist a) data; a1 = a_push (Wrote data ans) a in
        case ans of
          SysOk k \<Rightarrow>
            if k = length data
            then (if p_done p \<noteq> None then a_task (F_writeComplete (p_id p)) a1 else a1)
            else a_enqueue p (drop k data) a1
        | SysErr e \<Rightarrow>
            if e = EPIPE \<or> e = ECONNRESET \<or> data = [] then a1 else a_enqueue p data a1)"

definition a_fin :: "os \<Rightarrow> profile \<Rightarrow> aconn \<Rightarrow> aconn" where
  "a_fin os p a =
     (if a_idle a then a_push (ShutWr (sys_shutdown os (p_fd p) (ahist a))) a else a)"

definition a_shutdown :: "os \<Rightarrow> profile \<Rightarrow> aconn \<Rightarrow> aconn" where
  "a_shutdown os p a =
     (if astate a = kConnected then a_fin os p (a\<lparr>astate := kDisconnecting\<rparr>) else a)"

fun a_call :: "os \<Rightarrow> profile \<Rightarrow> api \<Rightarrow> aconn \<Rightarrow> aconn" where
  "a_call os p (CallSend msg) a = (if astate a = kConnected then a_send os p msg a else a)"
| "a_call os p CallShutdown a = a_shutdown os p a"
| "a_call os p (CallRetrieve n) a = a\<lparr>ainput := drop n (ainput a)\<rparr>"
| "a_call os p CallRetrieveAll a = a\<lparr>ainput := []\<rparr>"

definition a_script :: "os \<Rightarrow> profile \<Rightarrow> api list \<Rightarrow> aconn \<Rightarrow> aconn" where
  "a_script os p = fold (a_call os p)"

definition a_notify :: "os \<Rightarrow> profile \<Rightarrow> aconn \<Rightarrow> aconn" where
  "a_notify os p a = a_script os p (case p_conn p of None \<Rightarrow> [] | Some f \<Rightarrow> f (astate a)) a"

definition a_established :: "os \<Rightarrow> profile \<Rightarrow> aconn \<Rightarrow> aconn" where
  "a_established os p a = a_notify os p (a\<lparr>astate := kConnected\<rparr>)"

definition a_destroyed :: "os \<Rightarrow> profile \<Rightarrow> aconn \<Rightarrow> aconn" where
  "a_destroyed os p a =
     (if astate a = kConnected then a_notify os p (a\<lparr>astate := kDisconnected\<rparr>) else a)"

definition a_close :: "os \<Rightarrow> profile \<Rightarrow> aconn \<Rightarrow> aconn" where
  "a_close os p a =
     (let a1 = a_notify os p (a\<lparr>astate := kDisconnected\<rparr>) in a1\<lparr>anotices := anotices a1 @ [p_id p]\<rparr>)"

text \<open>Reading takes the two sizes the buffer offers to \<open>readv\<close> as an argument.\<close>

definition a_read :: "os \<Rightarrow> profile \<Rightarrow> nat list \<Rightarrow> timestamp \<Rightarrow> aconn \<Rightarrow> aconn" where
  "a_read os p iov now a =
     (let ans = sys_readv os (p_fd p) (ahist a) iov; a1 = a_push (Got iov ans) a in
      case ans of
        SysErr e \<Rightarrow> a1
      | SysOk d \<Rightarrow>
          if d = [] then a_close os p a1
          else let a2 = a1\<lparr>ainput := ainput a1 @ d\<rparr>
               in a_script os p (case p_msg p of None \<Rightarrow> [] | Some f \<Rightarrow> f (astate a2) (ainput a2) now) a2)"

definition a_write :: "os \<Rightarrow> profile \<Rightarrow> aconn \<Rightarrow> aconn" where
  "a_write os p a =
     (if a_idle a then a
      else let ans = sys_write os (p_fd p) (ahist a) (abacklog a); a1 = a_push (Wrote (abacklog a) ans) a in
        case ans of
          SysErr e \<Rightarrow> a1
        | SysOk k \<Rightarrow>
            let a2 = a1\<lparr>abacklog := drop k (abacklog a1)\<rparr> in
            if abacklog a2 \<noteq> [] then a2
            else let a3 = (if p_done p \<noteq> None then a_task (F_writeComplete (p_id p)) a2 else a2)
                 in if astate a3 = kDisconnecting then a_fin os p a3 else a3)"

lemmas a_defs = a_push_def a_task_def

section \<open>The relation\<close>

definition abs_conn :: "cstate \<Rightarrow> aconn" where
  "abs_conn s = \<lparr>astate = conn_state (conn s), ahist = sock_hist (conn s),
     abacklog = content (outputBuffer (conn s)), ainput = content (inputBuffer (conn s)),
     atasks = pendingFunctors (cloop s), anotices = upcalls s\<rparr>"

definition writing :: "cstate \<Rightarrow> bool" where
  "writing s = (case chans (el_poller (cloop s)) (conn_channel (conn s)) of
       None \<Rightarrow> False | Some ch \<Rightarrow> isWriting ch)"

definition chan_live :: "cstate \<Rightarrow> bool" where
  "chan_live s \<longleftrightarrow> poller_ok (el_poller (cloop s)) \<and>
     (\<exists>ch. chans (el_poller (cloop s)) (conn_channel (conn s)) = Some ch \<and> ch_fd ch = sockfd (conn s) \<and>
        fd_free (el_poller (cloop s)) (conn_channel (conn s)) (sockfd (conn s)))"

text \<open>\<open>stands\<close> leaves open whether the channel waits for EPOLLOUT; \<open>implements\<close> fixes it.\<close>

definition stands :: "profile \<Rightarrow> int \<Rightarrow> aconn \<Rightarrow> cstate \<Rightarrow> bool" where
  "stands p tid a s \<longleftrightarrow> profile_of s = p \<and> abs_conn s = a \<and> threadId (cloop s) = tid \<and>
     buffer_ok (inputBuffer (conn s)) \<and> buffer_ok (outputBuffer (conn s)) \<and> chan_live s"

definition implements :: "profile \<Rightarrow> int \<Rightarrow> aconn \<Rightarrow> cstate \<Rightarrow> bool" where
  "implements p tid a s \<longleftrightarrow> stands p tid a s \<and> (writing s \<longleftrightarrow> \<not> a_idle a)"

lemma stands_simps:
  assumes "stands p tid a s"
  shows "conn_id (conn s) = p_id p" "sockfd (conn s) = p_fd p" "connectionCallback (conn s) = p_conn p"
    "messageCallback (conn s) = p_msg p" "writeCompleteCallback (conn s) = p_done p"
    "highWaterMarkCallback (conn s) = p_high p" "conn_closeCallback (conn s) = p_close p"
    "highWaterMark (conn s) = p_mark p" "conn_state (conn s) = astate a" "sock_hist (conn s) = ahist a"
    "content (outputBuffer (conn s)) = abacklog a" "content (inputBuffer (conn s)) = ainput a"
    "pendingFunctors (cloop s) = atasks a" "upcalls s = anotices a" "isInLoopThread tid (cloop s)"
    "buffer_ok (outputBuffer (conn s))" "buffer_ok (inputBuffer (conn s))"
    "readableBytes (outputBuffer (conn s)) = length (abacklog a)"
  using assms
  by (auto simp: stands_def profile_of_def abs_conn_def isInLoopThread_def readable_content)

lemma stands_steps:
  assumes "stands p tid a s"
  shows "stands p tid (a_push io a) (push_io io s)"
    "stands p tid (a\<lparr>astate := st\<rparr>) (setState st s)"
    "stands p tid (a_task F a) (upd_loop (queueInLoop tid' F) s)"
    "buffer_ok b \<Longrightarrow> stands p tid (a\<lparr>ainput := content b\<rparr>) (upd_conn (\<lambda>c. c\<lparr>inputBuffer := b\<rparr>) s)"
    "buffer_ok b \<Longrightarrow> stands p tid (a\<lparr>abacklog := content b\<rparr>) (upd_conn (\<lambda>c. c\<lparr>outputBuffer := b\<rparr>) s)"
    "stands p tid (a\<lparr>anotices := anotices a @ us\<rparr>) (s\<lparr>upcalls := upcalls s @ us\<rparr>)"
  using assms
  by (auto simp: stands_def profile_of_def abs_conn_def chan_live_def push_io_def setState_def
      upd_conn_def upd_loop_def a_defs)

lemma writing_steps [simp]:
  "writing (push_io io s) = writing s" "writing (setState st s) = writing s"
  "writing (upd_loop (queueInLoop tid F) s) = writing s"
  "writing (upd_conn (\<lambda>c. c\<lparr>inputBuffer := f c\<rparr>) s) = writing s"
  "writing (upd_conn (\<lambda>c. c\<lparr>outputBuffer := f c\<rparr>) s) = writing s"
  "writing (s\<lparr>upcalls := us\<rparr>) = writing s"
  by (simp_all add: writing_def push_io_def setState_def upd_conn_def upd_loop_def)

lemma implementsD: "implements p tid a s \<Longrightarrow> stands p tid a s" "implements p tid a s \<Longrightarrow> writing s \<longleftrightarrow> \<not> a_idle a"
  by (simp_all add: implements_def)

section \<open>The channel of a connection\<close>

lemma chan_of_stands:
  assumes "stands p tid a s"
  obtains ch where "chan_of s = Inr ch" "ch_fd ch = p_fd p" "isWriting ch = writing s"
    "chans (el_poller (cloop s)) (conn_channel (conn s)) = Some ch"
  using assms by (auto simp: stands_def chan_live_def chan_of_def writing_def profile_of_def)

fun writing_after :: "interest_op \<Rightarrow> bool \<Rightarrow> bool" where
  "writing_after EnableWriting w = True"
| "writing_after DisableWriting w = False"
| "writing_after DisableAll w = False"
| "writing_after _ w = w"

lemma isWriting_after: "isWriting (change_events k ch) = writing_after k (isWriting ch)"
  by (cases k) (simp_all del: change_events.simps)

text \<open>An interest operation on the connection's channel, by the contract of the poller.\<close>

lemma conn_interest_stands:
  assumes "ctl_doc os" and "stands p tid a s"
  shows "\<exists>t. conn_interest os k s = Inr t \<and> stands p tid a t \<and> writing t = writing_after k (writing s) \<and>
    conn_channel (conn t) = conn_channel (conn s)"
proof -
  let ?P = "el_poller (cloop s)" and ?q = "conn_channel (conn s)"
  from assms(2) obtain ch where ch: "chans ?P ?q = Some ch" "ch_fd ch = sockfd (conn s)"
      "fd_free ?P ?q (ch_fd ch)" "poller_ok ?P"
    by (auto simp: stands_def chan_live_def)
  from epoll.set_law[OF conjI[OF assms(1) ch(4)] ch(1) ch(3), of k] obtain P' where
    P': "Channel_set_interest os k ?q ?P = Inr P'" "poller_ok P'" "fd_free P' ?q (ch_fd ch)"
      "chans P' = (chans ?P)(?q \<mapsto> set_index (index_after (change_events k ch)) (change_events k ch))"
    by auto
  let ?t = "s\<lparr>cloop := (cloop s)\<lparr>el_poller := P'\<rparr>\<rparr>"
  have "conn_interest os k s = Inr ?t"
    using P'(1) by (simp add: conn_interest_def set_interest_def with_poller_def)
  moreover have "stands p tid a ?t"
    using assms(2) P' ch(2) by (auto simp: stands_def profile_of_def abs_conn_def chan_live_def)
  moreover have "writing ?t = writing_after k (writing s)"
    using P'(4) ch(1) by (simp add: writing_def isWriting_after del: change_events.simps)
  ultimately show ?thesis by (intro exI[of _ ?t]) simp
qed

section \<open>Every operation implements its specification\<close>

lemma safely_seq: "safely m P \<Longrightarrow> (\<And>x. P x \<Longrightarrow> safely (f x) Q) \<Longrightarrow> safely (bindR m f) Q"
  by (auto elim: safely_mono)

text \<open>The second part of \<open>sendInLoop\<close>.\<close>

lemma send_rest_stands:
  assumes "ctl_doc os" and "stands p tid a s" and "writing s \<longleftrightarrow> abacklog a \<noteq> []"
    and "astate a \<noteq> kDisconnected" and "k < length data" and "length data \<le> vec_max"
    and "length data - k = rem" and "data' = data"
  shows "safely (send_rest os tid data' k rem s) (implements p tid (a_enqueue p (drop k data) a))"
proof -
  note at = stands_simps[OF assms(2)]
  let ?n = "length (abacklog a) + rem"
  have len: "length (abacklog a) \<le> vec_max"
    using at(11,16) content_le_vec[of "outputBuffer (conn s)"] buffer_okD(4)[OF at(16)] by simp
  then have add: "sz_add (length (abacklog a)) rem = ?n"
    using assms(6,7) vec_max_size_mod by (intro sz_add_small) linarith
  let ?c = "p_mark p \<le> ?n \<and> length (abacklog a) < p_mark p \<and> p_high p \<noteq> None"
  let ?F = "F_highWaterMark (p_id p) ?n"
  define a1 where "a1 = (if ?c then a_task ?F a else a)"
  define s1 where "s1 = (if ?c then upd_loop (queueInLoop tid ?F) s else s)"
  have s1: "stands p tid a1 s1" "writing s1 = writing s"
    using stands_steps(3)[OF assms(2)] assms(2) by (auto simp: a1_def s1_def)
  have a1: "abacklog a1 = abacklog a" "astate a1 = astate a" by (simp_all add: a1_def a_task_def)
  have goal: "a_enqueue p (drop k data) a = a1\<lparr>abacklog := abacklog a @ drop k data\<rparr>"
    using assms(7) by (simp add: a_enqueue_def a1_def Let_def)
  note at1 = stands_simps[OF s1(1)]
  have app: "safely (Buffer_append (drop k data) rem (outputBuffer (conn s1)))
      (\<lambda>b. buffer_ok b \<and> content b = abacklog a @ drop k data)"
    using append_safely[OF at1(16), of rem "drop k data"] assms(6,7) at1(11) a1 by simp
  have rest: "safely (bindR (chan_of t) (\<lambda>ch. if \<not> isWriting ch then conn_interest os EnableWriting t else Inr t))
      (implements p tid (a_enqueue p (drop k data) a))"
    if t: "t = upd_conn (\<lambda>c. c\<lparr>outputBuffer := b\<rparr>) s1" and b: "buffer_ok b" "content b = abacklog a @ drop k data"
    for b t
  proof -
    have st: "stands p tid (a_enqueue p (drop k data) a) t"
      using stands_steps(5)[OF s1(1) b(1)] b(2) by (simp add: t goal)
    then obtain ch where "chan_of t = Inr ch" "isWriting ch = writing t" by (rule chan_of_stands)
    moreover have "\<not> a_idle (a_enqueue p (drop k data) a)"
      using assms(4,5) a1 by (simp add: goal a_idle_def)
    ultimately show ?thesis
      using st conn_interest_stands[OF assms(1) st, of EnableWriting] by (auto simp: implements_def)
  qed
  have s1': "s1 = (if highWaterMark (conn s) \<le> sz_add (readableBytes (outputBuffer (conn s))) rem \<and>
      readableBytes (outputBuffer (conn s)) < highWaterMark (conn s) \<and> highWaterMarkCallback (conn s) \<noteq> None
    then upd_loop (queueInLoop tid (F_highWaterMark (conn_id (conn s))
           (sz_add (readableBytes (outputBuffer (conn s))) rem))) s else s)"
    by (auto simp: s1_def at add)
  have "send_rest os tid data' k rem s =
      bindR (Buffer_append (drop k data) rem (outputBuffer (conn s1))) (\<lambda>b.
        bindR (chan_of (upd_conn (\<lambda>c. c\<lparr>outputBuffer := b\<rparr>) s1)) (\<lambda>ch.
          if \<not> isWriting ch then conn_interest os EnableWriting (upd_conn (\<lambda>c. c\<lparr>outputBuffer := b\<rparr>) s1)
          else Inr (upd_conn (\<lambda>c. c\<lparr>outputBuffer := b\<rparr>) s1)))"
    unfolding send_rest_def Let_def assms(8) s1' by (rule refl)
  then show ?thesis by (simp only:) (rule safely_seq[OF app], use rest in blast)
qed

lemma sendInLoop_implements:
  assumes "ctl_doc os" and "write_doc os" and "implements p tid a s" and "length data \<le> vec_max"
  shows "safely (sendInLoop os tid data (length data) s) (implements p tid (a_send os p data a))"
proof -
  note st = implementsD[OF assms(3)]
  note at = stands_simps[OF st(1)]
  obtain ch where ch: "chan_of s = Inr ch" "ch_fd ch = p_fd p" "isWriting ch = writing s"
    using chan_of_stands[OF st(1)] by blast
  note unf = sendInLoop_def assertInLoopThread_def send_direct_def Let_def
  show ?thesis
  proof (cases "astate a = kDisconnected")
    case True
    with assms(3) at show ?thesis by (simp add: unf a_send_def)
  next
    case False
    note conn = False
    show ?thesis
    proof (cases "abacklog a = []")
      case False
      then have w: "writing s" using st(2) conn by (simp add: a_idle_def)
      show ?thesis
      proof (cases "data = []")
        case True
        with assms(3) at conn w ch False show ?thesis by (simp add: unf a_send_def)
      next
        case False
        then have "safely (send_rest os tid data 0 (length data) s) (implements p tid (a_enqueue p data a))"
          using send_rest_stands[OF assms(1) st(1), of 0 data] w conn \<open>abacklog a \<noteq> []\<close> assms(4) by simp
        with at conn w ch False \<open>abacklog a \<noteq> []\<close> show ?thesis by (simp add: unf a_send_def)
      qed
    next
      case True
      then have w: "\<not> writing s" using st(2) by (simp add: a_idle_def)
      let ?ans = "sys_write os (p_fd p) (ahist a) data"
      let ?a = "a_push (Wrote data ?ans) a" and ?s = "push_io (Wrote data ?ans) s"
      have st1: "stands p tid ?a ?s" by (rule stands_steps(1)[OF st(1)])
      have imp: "implements p tid ?a ?s"
        using st1 w True by (simp add: implements_def a_idle_def a_push_def)
      have rest: "safely (send_rest os tid data k (length data - k) ?s) (implements p tid (a_enqueue p (drop k data) ?a))"
        if "k < length data" for k
        using send_rest_stands[OF assms(1) st1 _ _ that assms(4)] w True conn by (simp add: a_push_def)
      show ?thesis
      proof (cases ?ans)
        case (SysOk k)
        with assms(2) have k: "k \<le> length data" by (blast dest: write_docD)
        then have rem: "sz_sub (length data) k = length data - k"
          using assms(4) vec_max_size_mod by (intro sz_sub_small) simp_all
        have task: "implements p tid (a_task F ?a) (upd_loop (queueInLoop tid F) ?s)" for F
          using stands_steps(3)[OF st1] w True by (simp add: implements_def a_idle_def a_defs)
        show ?thesis
          using SysOk k rem rest[of k] at conn w ch True imp task stands_simps(1,5)[OF st1]
          by (cases "k = length data") (simp_all add: unf a_send_def)
      next
        case (SysErr e)
        then show ?thesis
          using rest[of 0] at conn w ch True imp
          by (cases "data = []") (auto simp: unf a_send_def)
      qed
    qed
  qed
qed

text \<open>
  What user code must respect: a string holds at most \<open>max_size()\<close> bytes. The connection,
  message and close callbacks are set before the connection is established.
\<close>

fun api_ok :: "api \<Rightarrow> bool" where
  "api_ok (CallSend m) \<longleftrightarrow> length m \<le> vec_max"
| "api_ok _ \<longleftrightarrow> True"

definition profile_ok :: "profile \<Rightarrow> bool" where
  "profile_ok p \<longleftrightarrow> p_close p \<and>
     (\<exists>f. p_conn p = Some f \<and> (\<forall>st. list_all api_ok (f st))) \<and>
     (\<exists>f. p_msg p = Some f \<and> (\<forall>st d now. length d \<le> vec_max \<longrightarrow> list_all api_ok (f st d now))) \<and>
     (case p_done p of None \<Rightarrow> True | Some f \<Rightarrow> \<forall>st. list_all api_ok (f st)) \<and>
     (case p_high p of None \<Rightarrow> True | Some f \<Rightarrow> \<forall>st n. list_all api_ok (f st n))"

definition env_ok :: "os \<Rightarrow> bool" where
  "env_ok os \<longleftrightarrow> ctl_doc os \<and> write_doc os \<and> readv_doc os"

lemma env_okD: "env_ok os \<Longrightarrow> ctl_doc os" "env_ok os \<Longrightarrow> write_doc os" "env_ok os \<Longrightarrow> readv_doc os"
  by (simp_all add: env_ok_def)

lemma shutdownInLoop_implements:
  assumes "implements p tid a s"
  shows "safely (shutdownInLoop os s) (implements p tid (a_fin os p a))"
proof -
  note st = implementsD[OF assms]
  obtain ch where ch: "chan_of s = Inr ch" "isWriting ch = writing s"
    using chan_of_stands[OF st(1)] by blast
  show ?thesis
    using assms st ch stands_simps[OF st(1)] stands_steps(1)[OF st(1)]
    by (simp add: shutdownInLoop_def Socket_shutdownWrite_def a_fin_def implements_def a_idle_def a_push_def)
qed

lemma TcpConnection_shutdown_implements:
  assumes "implements p tid a s"
  shows "safely (TcpConnection_shutdown os tid s) (implements p tid (a_shutdown os p a))"
proof (cases "astate a = kConnected")
  case True
  note st = implementsD[OF assms]
  have st1: "stands p tid (a\<lparr>astate := kDisconnecting\<rparr>) (setState kDisconnecting s)"
    by (rule stands_steps(2)[OF st(1)])
  then have "implements p tid (a\<lparr>astate := kDisconnecting\<rparr>) (setState kDisconnecting s)"
    using st(2) True by (simp add: implements_def a_idle_def)
  from shutdownInLoop_implements[OF this] show ?thesis
    using True stands_simps(9)[OF st(1)] stands_simps(15)[OF st1]
    by (simp add: TcpConnection_shutdown_def runInLoop_def a_shutdown_def)
next
  case False
  with assms stands_simps(9)[OF implementsD(1)[OF assms]] show ?thesis
    by (simp add: TcpConnection_shutdown_def a_shutdown_def)
qed

lemma TcpConnection_send_implements:
  assumes "env_ok os" and "implements p tid a s" and "length msg \<le> vec_max"
  shows "safely (TcpConnection_send os tid addr msg s)
    (implements p tid (if astate a = kConnected then a_send os p msg a else a))"
  using sendInLoop_implements[OF env_okD(1)[OF assms(1)] env_okD(2)[OF assms(1)] assms(2,3)] assms(2)
    stands_simps[OF implementsD(1)[OF assms(2)]]
  by (simp add: TcpConnection_send_def)

lemma user_call_implements:
  assumes "env_ok os" and "implements p tid a s" and "api_ok c"
  shows "safely (user_call os tid c s) (implements p tid (a_call os p c a))"
proof (cases c)
  case (CallSend m)
  with TcpConnection_send_implements[OF assms(1,2), of m] assms(3) show ?thesis by simp
next
  case CallShutdown
  with TcpConnection_shutdown_implements[OF assms(2)] show ?thesis by simp
next
  case (CallRetrieve n)
  note st = implementsD[OF assms(2)]
  note at = stands_simps[OF st(1)]
  have "buffer_ok (Buffer_retrieve n (inputBuffer (conn s)))"
    "content (Buffer_retrieve n (inputBuffer (conn s))) = drop n (ainput a)"
    using retrieve_spec[OF at(17)] at by simp_all
  with stands_steps(4)[OF st(1) this(1)] st CallRetrieve show ?thesis
    by (simp add: implements_def a_idle_def upd_conn_def) (simp add: writing_def)
next
  case CallRetrieveAll
  note st = implementsD[OF assms(2)]
  obtain b where "retrieveAllAsString (inputBuffer (conn s)) = Inr (content (inputBuffer (conn s)), b)"
    "buffer_ok b" "content b = []"
    using retrieveAllAsString_spec stands_simps(17)[OF st(1)] by blast
  with stands_steps(4)[OF st(1) this(2)] st CallRetrieveAll show ?thesis
    by (simp add: implements_def a_idle_def)
qed

lemma run_script_implements:
  assumes "env_ok os" and "implements p tid a s" and "list_all api_ok cs"
  shows "safely (run_script os tid cs s) (implements p tid (a_script os p cs a))"
  using assms(2,3) unfolding run_script_def a_script_def
proof (induction cs arbitrary: a s)
  case Nil
  then show ?case by simp
next
  case (Cons c cs)
  from Cons.prems have "safely (user_call os tid c s) (implements p tid (a_call os p c a))"
    by (intro user_call_implements[OF assms(1)]) simp_all
  moreover have "safely (foldR (user_call os tid) cs t)
      (implements p tid (fold (a_call os p) cs (a_call os p c a)))"
    if "implements p tid (a_call os p c a) t" for t
    using Cons.IH[OF that] Cons.prems(2) by simp
  ultimately show ?case by (simp, elim safely_mono)
qed

lemma call_connectionCallback_implements:
  assumes "env_ok os" and "profile_ok p" and "implements p tid a s"
  shows "safely (call_connectionCallback os tid s) (implements p tid (a_notify os p a))"
proof -
  from assms(2) obtain f where f: "p_conn p = Some f" "list_all api_ok (f (astate a))"
    by (auto simp: profile_ok_def)
  with run_script_implements[OF assms(1,3) f(2)] stands_simps[OF implementsD(1)[OF assms(3)]]
  show ?thesis by (simp add: call_connectionCallback_def a_notify_def)
qed

text \<open>Disabling the channel brings the connection to its disconnected form.\<close>

lemma disconnect_implements:
  assumes "ctl_doc os" and "implements p tid a s"
  shows "safely (conn_interest os DisableAll (setState kDisconnected s))
    (implements p tid (a\<lparr>astate := kDisconnected\<rparr>))"
  using conn_interest_stands[OF assms(1) stands_steps(2)[OF implementsD(1)[OF assms(2)], of kDisconnected],
      of DisableAll]
  by (auto simp: implements_def a_idle_def)

lemma handleClose_implements:
  assumes "env_ok os" and "profile_ok p" and "implements p tid a s"
  shows "safely (TcpConnection_handleClose os tid s) (implements p tid (a_close os p a))"
  unfolding TcpConnection_handleClose_def
proof (rule safely_seq[OF disconnect_implements[OF env_okD(1)[OF assms(1)] assms(3)]], rule safely_seq)
  let ?a = "a_notify os p (a\<lparr>astate := kDisconnected\<rparr>)"
  show "safely (call_connectionCallback os tid t) (implements p tid ?a)"
    if "implements p tid (a\<lparr>astate := kDisconnected\<rparr>) t" for t
    using that by (rule call_connectionCallback_implements[OF assms(1,2)])
  fix u
  assume u: "implements p tid ?a u"
  note st = implementsD[OF u]
  have "p_close p" using assms(2) by (simp add: profile_ok_def)
  with st stands_simps[OF st(1)] stands_steps(6)[OF st(1), of "[p_id p]"]
  show "safely (if conn_closeCallback (conn u) then Inr (u\<lparr>upcalls := upcalls u @ [conn_id (conn u)]\<rparr>)
      else Inl (Throw ''bad_function_call'')) (implements p tid (a_close os p a))"
    by (simp add: a_close_def Let_def implements_def a_idle_def)
qed

lemma poller_ok_store:
  assumes "poller_ok P" and "chans P q = Some ch" and "ch_fd ch' = ch_fd ch" and "ch_index ch' = ch_index ch"
    and "ch_events ch' = ch_events ch"
  shows "poller_ok (store q ch' P)"
proof -
  have "chan_ok (store q ch' P) r c = chan_ok P r c" for r c by (simp add: chan_ok_def)
  moreover have "chan_ok P q ch'"
    using poller_okD(1)[OF assms(1,2)] assms(3-5) by (simp add: chan_ok_def)
  moreover have "\<exists>c. chans (store q ch' P) r = Some c \<and> ch_fd c = fd" if "channelMap P fd = Some r" for r fd
    using poller_okD(2)[OF assms(1) that] assms(2,3) by (cases "r = q") auto
  ultimately show ?thesis using poller_okD(1,3)[OF assms(1)] by (auto simp: poller_ok_def)
qed

lemma tie_stands:
  fixes i :: nat
  assumes "stands p tid a s" and "chans (el_poller (cloop s)) (conn_channel (conn s)) = Some ch"
  defines "t \<equiv> upd_loop (\<lambda>L. L\<lparr>el_poller := store (conn_channel (conn s)) (Channel_tie i ch) (el_poller L)\<rparr>) s"
  shows "stands p tid a t" "writing t = writing s"
  using assms(1,2) poller_ok_store[of "el_poller (cloop s)" _ ch "Channel_tie i ch"]
  by (auto simp: t_def stands_def upd_loop_def profile_of_def abs_conn_def chan_live_def fd_free_def writing_def)

lemma connectEstablished_implements:
  assumes "env_ok os" and "profile_ok p" and "implements p tid a s" and "astate a \<noteq> kDisconnected"
  shows "safely (connectEstablished os tid s) (implements p tid (a_established os p a))"
proof -
  let ?a = "a\<lparr>astate := kConnected\<rparr>" and ?s = "setState kConnected s"
  note st = implementsD[OF assms(3)]
  note st1 = stands_steps(2)[OF st(1), of kConnected]
  obtain ch where ch: "chan_of ?s = Inr ch"
      "chans (el_poller (cloop ?s)) (conn_channel (conn ?s)) = Some ch"
    using chan_of_stands[OF st1] by blast
  let ?t = "upd_loop (\<lambda>L. L\<lparr>el_poller := store (conn_channel (conn ?s))
                 (Channel_tie (conn_id (conn ?s)) ch) (el_poller L)\<rparr>) ?s"
  note st2 = tie_stands[OF st1 ch(2), of "conn_id (conn ?s)"]
  have "safely (conn_interest os EnableReading ?t) (implements p tid ?a)"
    using conn_interest_stands[OF env_okD(1)[OF assms(1)] st2(1), of EnableReading] st2(2) st(2) assms(4)
    by (auto simp: implements_def a_idle_def)
  then show ?thesis
    using ch(1) call_connectionCallback_implements[OF assms(1,2), of tid ?a]
    by (auto simp: connectEstablished_def a_established_def Let_def elim!: safely_mono)
qed

lemma removeChannel_implements:
  assumes "ctl_doc os" and "implements p tid a s"
  shows "safely (bindR (EventLoop_removeChannel os (conn_channel (conn s)) (cloop s)) (\<lambda>L. Inr (s\<lparr>cloop := L\<rparr>)))
    (implements p tid a)"
proof -
  let ?P = "el_poller (cloop s)" and ?q = "conn_channel (conn s)"
  from assms(2) obtain ch where ch: "chans ?P ?q = Some ch" "ch_fd ch = sockfd (conn s)"
      "fd_free ?P ?q (ch_fd ch)" "poller_ok ?P"
    by (auto simp: implements_def stands_def chan_live_def)
  from epoll.remove_law[OF conjI[OF assms(1) ch(4)] ch(1) ch(3)] obtain P' where
    P': "EPollPoller_removeChannel os ?q ?P = Inr P'" "poller_ok P'" "fd_free P' ?q (ch_fd ch)"
      "chans P' = (chans ?P)(?q \<mapsto> set_index kNew ch)"
    by auto
  have "implements p tid a (s\<lparr>cloop := (cloop s)\<lparr>el_poller := P'\<rparr>\<rparr>)"
    using assms(2) P' ch
    by (auto simp: implements_def stands_def profile_of_def abs_conn_def chan_live_def writing_def)
  then show ?thesis using P'(1) by (simp add: EventLoop_removeChannel_def with_poller_def)
qed

lemma connectDestroyed_implements:
  assumes "env_ok os" and "profile_ok p" and "implements p tid a s"
  shows "safely (connectDestroyed os tid s) (implements p tid (a_destroyed os p a))"
  unfolding connectDestroyed_def
proof (rule safely_seq)
  show "safely (if conn_state (conn s) = kConnected
      then bindR (conn_interest os DisableAll (setState kDisconnected s)) (call_connectionCallback os tid)
      else Inr s) (implements p tid (a_destroyed os p a))"
    using safely_seq[OF disconnect_implements[OF env_okD(1)[OF assms(1)] assms(3)]
        call_connectionCallback_implements[OF assms(1,2)]]
      assms(3) stands_simps(9)[OF implementsD(1)[OF assms(3)]]
    by (simp add: a_destroyed_def)
qed (rule removeChannel_implements[OF env_okD(1)[OF assms(1)]])

text \<open>The bytes that \<open>writeFd\<close> passes to \<open>write\<close>, and what it returns.\<close>

lemma output_bytes:
  assumes "stands p tid a s"
  shows "take (readableBytes (outputBuffer (conn s)))
      (drop (peek (outputBuffer (conn s))) (vec (outputBuffer (conn s)))) = abacklog a"
    "mem_read (vec (outputBuffer (conn s))) (peek (outputBuffer (conn s)))
      (readableBytes (outputBuffer (conn s))) = Inr (abacklog a)"
    "length (abacklog a) \<le> vec_max"
proof -
  let ?b = "outputBuffer (conn s)"
  note at = stands_simps[OF assms]
  show 1: "take (readableBytes ?b) (drop (peek ?b) (vec ?b)) = abacklog a"
    using at(11,16) by (simp add: content_def readable_eq peek_def)
  then show "mem_read (vec ?b) (peek ?b) (readableBytes ?b) = Inr (abacklog a)"
    using buffer_okD(2,3)[OF at(16)] by (simp add: mem_read_def peek_def readable_eq[OF at(16)])
  show "length (abacklog a) \<le> vec_max"
    using at(11,16) content_le_vec[OF at(16)] buffer_okD(4)[OF at(16)] by simp
qed

lemma writeFd_returns:
  assumes "stands p tid a s"
  shows "write (abacklog a) = SysErr e \<Longrightarrow> Buffer_writeFd write None (outputBuffer (conn s)) = Inr (- 1, None)"
    "write (abacklog a) = SysOk k \<Longrightarrow> k \<le> length (abacklog a) \<Longrightarrow>
       Buffer_writeFd write None (outputBuffer (conn s)) = Inr (int k, None)"
  using output_bytes[OF assms] by (simp_all add: Buffer_writeFd_def ssize_of_def size_mod_def vec_max_def)

text \<open>The branch of \<open>handleWrite\<close> that finds the buffer drained.\<close>

definition after_drain :: "os \<Rightarrow> int \<Rightarrow> cstate \<Rightarrow> cstate res" where
  "after_drain os tid s2 = bindR (conn_interest os DisableWriting s2) (\<lambda>s3.
     let s4 = (if writeCompleteCallback (conn s3) \<noteq> None
               then upd_loop (queueInLoop tid (F_writeComplete (conn_id (conn s3)))) s3
               else s3)
     in if conn_state (conn s4) = kDisconnecting then shutdownInLoop os s4 else Inr s4)"

lemma after_drain_implements:
  assumes "ctl_doc os" and "stands p tid a s" and "abacklog a = []"
  defines "a' \<equiv> if p_done p \<noteq> None then a_task (F_writeComplete (p_id p)) a else a"
  shows "safely (after_drain os tid s)
    (implements p tid (if astate a = kDisconnecting then a_fin os p a' else a'))"
proof -
  obtain t where t: "conn_interest os DisableWriting s = Inr t" "stands p tid a t" "\<not> writing t"
    using conn_interest_stands[OF assms(1,2), of DisableWriting] by auto
  define t4 where "t4 = (if p_done p \<noteq> None then upd_loop (queueInLoop tid (F_writeComplete (p_id p))) t else t)"
  have imp: "implements p tid a' t4"
    using t stands_steps(3)[OF t(2)] assms(3) by (auto simp: t4_def a'_def implements_def a_idle_def a_defs)
  have "after_drain os tid s = (if conn_state (conn t4) = kDisconnecting then shutdownInLoop os t4 else Inr t4)"
    unfolding after_drain_def t(1) bindR.simps Let_def stands_simps(1,5)[OF t(2)] t4_def by (rule refl)
  moreover have "conn_state (conn t4) = astate a"
    using stands_simps(9)[OF implementsD(1)[OF imp]] by (simp add: a'_def a_defs)
  ultimately show ?thesis using shutdownInLoop_implements[OF imp] imp by simp
qed

text \<open>The whole handler, once \<open>write\<close> has accepted \<open>k\<close> bytes.\<close>

lemma write_some_implements:
  assumes "ctl_doc os" and "stands p tid a s" and "writing s" and "astate a \<noteq> kDisconnected"
    and "0 < k" and "k \<le> length (abacklog a)"
  defines "a2 \<equiv> a\<lparr>abacklog := drop k (abacklog a)\<rparr>"
    and "s2 \<equiv> upd_conn (\<lambda>c. c\<lparr>outputBuffer := Buffer_retrieve k (outputBuffer c)\<rparr>) s"
  defines "a3 \<equiv> if p_done p \<noteq> None then a_task (F_writeComplete (p_id p)) a2 else a2"
  shows "safely (if readableBytes (outputBuffer (conn s2)) = 0 then after_drain os tid s2 else Inr s2)
    (implements p tid (if abacklog a2 \<noteq> [] then a2
       else if astate a = kDisconnecting then a_fin os p a3 else a3))"
proof -
  note at = stands_simps[OF assms(2)]
  have b2: "buffer_ok (Buffer_retrieve k (outputBuffer (conn s)))"
    "content (Buffer_retrieve k (outputBuffer (conn s))) = drop k (abacklog a)"
    using retrieve_spec[OF at(16)] at(11) by simp_all
  have "s2 = upd_conn (\<lambda>c. c\<lparr>outputBuffer := Buffer_retrieve k (outputBuffer (conn s))\<rparr>) s"
    by (simp add: s2_def upd_conn_def)
  then have st2: "stands p tid a2 s2" "writing s2 = writing s"
    using stands_steps(5)[OF assms(2) b2(1)] b2(2) by (simp_all add: a2_def)
  show ?thesis
  proof (cases "abacklog a2 = []")
    case True
    have "astate a2 = astate a" by (simp add: a2_def)
    with True after_drain_implements[OF assms(1) st2(1) True] stands_simps(18)[OF st2(1)] show ?thesis
      by (simp only: a3_def[symmetric]) simp
  next
    case False
    with st2 assms(3,4) stands_simps(18)[OF st2(1)] show ?thesis
      by (simp add: implements_def a_idle_def a2_def)
  qed
qed

lemma handleWrite_implements:
  assumes "env_ok os" and "implements p tid a s"
  shows "safely (TcpConnection_handleWrite os tid s) (implements p tid (a_write os p a))"
proof -
  note st = implementsD[OF assms(2)]
  note at = stands_simps[OF st(1)]
  obtain ch where ch: "chan_of s = Inr ch" "ch_fd ch = p_fd p" "isWriting ch = writing s"
    using chan_of_stands[OF st(1)] by blast
  let ?d = "abacklog a"
  let ?ans = "sys_write os (p_fd p) (ahist a) ?d"
  let ?a1 = "a_push (Wrote ?d ?ans) a" and ?s1 = "push_io (Wrote ?d ?ans) s"
  note st1 = stands_steps(1)[OF st(1), of "Wrote ?d ?ans"]
  consider "a_idle a" | e where "\<not> a_idle a" "?ans = SysErr e" | "\<not> a_idle a" "?ans = SysOk 0"
    | k where "\<not> a_idle a" "?ans = SysOk k" "0 < k"
    by (cases ?ans) auto
  then show ?thesis
  proof cases
    case 1
    with st assms(2) ch show ?thesis by (simp add: TcpConnection_handleWrite_def a_write_def)
  next
    case (2 e)
    moreover have "implements p tid ?a1 ?s1"
      using st1 st(2) 2(1) by (simp add: implements_def a_idle_def a_push_def)
    ultimately show ?thesis
      using ch st(2) at writeFd_returns(1)[OF st(1), of "sys_write os (p_fd p) (ahist a)" e] output_bytes[OF st(1)]
      by (simp add: TcpConnection_handleWrite_def a_write_def Let_def)
  next
    case 3
    moreover have "implements p tid ?a1 ?s1"
      using st1 st(2) 3(1) by (simp add: implements_def a_idle_def a_push_def)
    moreover have "?a1\<lparr>abacklog := drop 0 (abacklog ?a1)\<rparr> = ?a1" by (simp add: a_push_def)
    ultimately show ?thesis
      using ch st(2) at writeFd_returns(2)[OF st(1), of "sys_write os (p_fd p) (ahist a)" 0] output_bytes[OF st(1)]
      by (simp add: TcpConnection_handleWrite_def a_write_def Let_def a_idle_def a_push_def)
  next
    case (4 k)
    from 4(2) env_okD(2)[OF assms(1)] have k: "k \<le> length ?d" by (blast dest: write_docD)
    have w: "writing ?s1" "astate ?a1 \<noteq> kDisconnected" "k \<le> length (abacklog ?a1)"
      using st(2) 4(1) k by (simp_all add: a_idle_def a_push_def)
    have "TcpConnection_handleWrite os tid s =
        (let s2 = upd_conn (\<lambda>c. c\<lparr>outputBuffer := Buffer_retrieve k (outputBuffer c)\<rparr>) ?s1
         in if readableBytes (outputBuffer (conn s2)) = 0 then after_drain os tid s2 else Inr s2)"
      using ch st(2) at 4 writeFd_returns(2)[OF st(1), of "sys_write os (p_fd p) (ahist a)" k] k output_bytes[OF st(1)]
      by (simp add: TcpConnection_handleWrite_def Let_def after_drain_def)
    moreover have "a_write os p a =
        (let a2 = ?a1\<lparr>abacklog := drop k (abacklog ?a1)\<rparr>;
             a3 = if p_done p \<noteq> None then a_task (F_writeComplete (p_id p)) a2 else a2
         in if abacklog a2 \<noteq> [] then a2 else if astate ?a1 = kDisconnecting then a_fin os p a3 else a3)"
      using 4 by (simp add: a_write_def Let_def a_defs)
    ultimately show ?thesis
      using write_some_implements[OF env_okD(1)[OF assms(1)] st1 w(1,2) 4(3) w(3)] by (simp only: Let_def)
  qed
qed

lemma call_messageCallback_implements:
  assumes "env_ok os" and "profile_ok p" and "implements p tid a s"
  shows "safely (call_messageCallback os tid now s) (implements p tid
    (a_script os p (case p_msg p of None \<Rightarrow> [] | Some f \<Rightarrow> f (astate a) (ainput a) now) a))"
proof -
  note at = stands_simps[OF implementsD(1)[OF assms(3)]]
  have "length (ainput a) \<le> vec_max"
    using at(12,17) content_le_vec[OF at(17)] buffer_okD(4)[OF at(17)] by simp
  with assms(2) obtain f where f: "p_msg p = Some f" "list_all api_ok (f (astate a) (ainput a) now)"
    by (auto simp: profile_ok_def)
  with run_script_implements[OF assms(1,3) f(2)] at show ?thesis by (simp add: call_messageCallback_def)
qed

lemma read_some_implements:
  assumes "env_ok os" and "implements p tid a s" and "readv (readFd_iov (inputBuffer (conn s))) = SysOk d"
    and "length d \<le> sum_list (readFd_iov (inputBuffer (conn s)))"
  shows "safely (Buffer_readFd readv None (inputBuffer (conn s))) (\<lambda>(n, e, b). n = int (length d) \<and>
    implements p tid (a\<lparr>ainput := ainput a @ d\<rparr>) (upd_conn (\<lambda>c. c\<lparr>inputBuffer := b\<rparr>) s))"
proof -
  note st = implementsD[OF assms(2)]
  note at = stands_simps[OF st(1)]
  show ?thesis
  proof (rule safely_mono[OF readFd_safely[of "inputBuffer (conn s)" readv d None, OF at(17) assms(3,4)]])
    fix r
    assume "case r of (n, e, b') \<Rightarrow> n = int (length d) \<and> e = None \<and> buffer_ok b' \<and>
      content b' = content (inputBuffer (conn s)) @ d"
    then obtain n e b where r: "r = (n, e, b)" "n = int (length d)" "buffer_ok b" "content b = ainput a @ d"
      using at(12) by auto
    from stands_steps(4)[OF st(1) r(3)] r st(2)
    show "case r of (n, e, b) \<Rightarrow> n = int (length d) \<and>
      implements p tid (a\<lparr>ainput := ainput a @ d\<rparr>) (upd_conn (\<lambda>c. c\<lparr>inputBuffer := b\<rparr>) s)"
      by (simp add: implements_def a_idle_def)
  qed
qed

lemma push_io_implements:
  "implements p tid a s \<Longrightarrow> implements p tid (a_push io a) (push_io io s)"
  using stands_steps(1) by (simp add: implements_def a_idle_def a_push_def)

lemma handleRead_implements:
  assumes "env_ok os" and "profile_ok p" and "implements p tid a s"
  shows "safely (TcpConnection_handleRead os tid now s)
    (implements p tid (a_read os p (readFd_iov (inputBuffer (conn s))) now a))"
proof -
  note st = implementsD[OF assms(3)]
  note at = stands_simps[OF st(1)]
  obtain ch where ch: "chan_of s = Inr ch" "ch_fd ch = p_fd p"
    using chan_of_stands[OF st(1)] by blast
  let ?iov = "readFd_iov (inputBuffer (conn s))"
  let ?readv = "sys_readv os (p_fd p) (ahist a)"
  let ?a1 = "a_push (Got ?iov (?readv ?iov)) a" and ?s1 = "push_io (Got ?iov (?readv ?iov)) s"
  have ib: "inputBuffer (conn ?s1) = inputBuffer (conn s)" by (simp add: push_io_def upd_conn_def)
  note imp1 = push_io_implements[OF assms(3), of "Got ?iov (?readv ?iov)"]
  define K where "K = (\<lambda>(n :: int, e :: errno option, b).
     let t = upd_conn (\<lambda>c. c\<lparr>inputBuffer := b\<rparr>) ?s1 in
     if n > 0 then call_messageCallback os tid now t
     else if n = 0 then TcpConnection_handleClose os tid t
     else TcpConnection_handleError t)"
  have code: "TcpConnection_handleRead os tid now s = bindR (Buffer_readFd ?readv None (inputBuffer (conn s))) K"
    unfolding TcpConnection_handleRead_def K_def Let_def ch(1) bindR.simps ch(2) at(10) by (rule refl)
  show ?thesis
  proof (cases "?readv ?iov")
    case (SysErr e)
    have "upd_conn (\<lambda>c. c\<lparr>inputBuffer := inputBuffer (conn s)\<rparr>) ?s1 = ?s1"
      by (simp add: upd_conn_def push_io_def)
    with code imp1 SysErr readFd_err[of ?readv "inputBuffer (conn s)" e] show ?thesis
      by (simp add: K_def a_read_def TcpConnection_handleError_def)
  next
    case (SysOk d)
    let ?a2 = "?a1\<lparr>ainput := ainput ?a1 @ d\<rparr>"
    have spec: "a_read os p ?iov now a = (if d = [] then a_close os p ?a2 else
        a_script os p (case p_msg p of None \<Rightarrow> [] | Some f \<Rightarrow> f (astate ?a2) (ainput ?a2) now) ?a2)"
      using SysOk by (cases "d = []"; cases "p_msg p") (simp_all add: a_read_def Let_def a_push_def)
    have len: "length d \<le> sum_list ?iov" using SysOk env_okD(3)[OF assms(1)] by (blast dest: readv_docD)
    have "safely (Buffer_readFd ?readv None (inputBuffer (conn s))) (\<lambda>(n, e, b). n = int (length d) \<and>
        implements p tid ?a2 (upd_conn (\<lambda>c. c\<lparr>inputBuffer := b\<rparr>) ?s1))"
      using read_some_implements[of os p tid ?a1 ?s1 ?readv d, OF assms(1) imp1] SysOk len ib by simp
    moreover have "safely (K r) (implements p tid (a_read os p ?iov now a))"
      if "case r of (n, e, b) \<Rightarrow> n = int (length d) \<and>
        implements p tid ?a2 (upd_conn (\<lambda>c. c\<lparr>inputBuffer := b\<rparr>) ?s1)" for r
      using that call_messageCallback_implements[OF assms(1,2)] handleClose_implements[OF assms(1,2)]
      by (cases "d = []") (auto simp: spec K_def Let_def)
    ultimately show ?thesis unfolding code by (rule safely_seq)
  qed
qed

section \<open>Events\<close>

text \<open>
  Everything that happens to a connection: the channel runs a callback, the loop runs a
  queued task, user code on the loop thread makes a call, another thread sends or shuts down.
\<close>

datatype conn_event =
    Invoke callback timestamp
  | Task Functor
  | UserCall api
  | RemoteSend ptr "char list"
  | RemoteShutdown

fun conn_step :: "os \<Rightarrow> int \<Rightarrow> conn_event \<Rightarrow> cstate \<Rightarrow> cstate res" where
  "conn_step os tid (Invoke cb now) s = conn_invoke os tid cb now s"
| "conn_step os tid (Task F) s = conn_functor os tid F s"
| "conn_step os tid (UserCall c) s = user_call os tid c s"
| "conn_step os tid (RemoteSend addr msg) s = TcpConnection_send os (tid + 1) addr msg s"
| "conn_step os tid RemoteShutdown s = TcpConnection_shutdown os (tid + 1) s"

fun a_invoke :: "os \<Rightarrow> profile \<Rightarrow> nat list \<Rightarrow> callback \<Rightarrow> timestamp \<Rightarrow> aconn \<Rightarrow> aconn" where
  "a_invoke os p iov (ConnHandleRead c) now a = a_read os p iov now a"
| "a_invoke os p iov (ConnHandleWrite c) now a = a_write os p a"
| "a_invoke os p iov (ConnHandleClose c) now a = a_close os p a"
| "a_invoke os p iov _ now a = a"

fun a_functor :: "os \<Rightarrow> profile \<Rightarrow> (ptr \<rightharpoonup> char list) \<Rightarrow> Functor \<Rightarrow> aconn \<Rightarrow> aconn" where
  "a_functor os p strs (F_connectEstablished c) a = a_established os p a"
| "a_functor os p strs (F_connectDestroyed c) a = a_destroyed os p a"
| "a_functor os p strs (F_sendInLoop c addr len) a =
     a_send os p (case strs addr of None \<Rightarrow> [] | Some d \<Rightarrow> d) a"
| "a_functor os p strs (F_shutdownInLoop c) a = a_fin os p a"
| "a_functor os p strs (F_writeComplete c) a =
     a_script os p (case p_done p of None \<Rightarrow> [] | Some f \<Rightarrow> f (astate a)) a"
| "a_functor os p strs (F_highWaterMark c n) a =
     a_script os p (case p_high p of None \<Rightarrow> [] | Some f \<Rightarrow> f (astate a) n) a"
| "a_functor os p strs _ a = a"

fun a_step :: "os \<Rightarrow> profile \<Rightarrow> (ptr \<rightharpoonup> char list) \<Rightarrow> nat list \<Rightarrow> conn_event \<Rightarrow> aconn \<Rightarrow> aconn" where
  "a_step os p strs iov (Invoke cb now) a = a_invoke os p iov cb now a"
| "a_step os p strs iov (Task F) a = a_functor os p strs F a"
| "a_step os p strs iov (UserCall c) a = a_call os p c a"
| "a_step os p strs iov (RemoteSend addr msg) a =
     (if astate a = kConnected then a_task (F_sendInLoop (p_id p) addr (length msg)) a else a)"
| "a_step os p strs iov RemoteShutdown a =
     (if astate a = kConnected then a_task (F_shutdownInLoop (p_id p)) (a\<lparr>astate := kDisconnecting\<rparr>) else a)"

text \<open>
  When an event can occur: a connection is established once, while it is kConnecting; the
  string behind a cross-thread send is still there, unchanged; \<open>shutdown\<close> changes the state
  before it queues its task; a notification task was queued because its callback is set.
\<close>

fun event_ok :: "profile \<Rightarrow> (ptr \<rightharpoonup> char list) \<Rightarrow> StateE \<Rightarrow> conn_event \<Rightarrow> bool" where
  "event_ok p strs st (Task (F_connectEstablished c)) \<longleftrightarrow> st = kConnecting"
| "event_ok p strs st (Task (F_sendInLoop c addr len)) \<longleftrightarrow>
     (case strs addr of None \<Rightarrow> False | Some d \<Rightarrow> length d = len \<and> len \<le> vec_max)"
| "event_ok p strs st (Task (F_shutdownInLoop c)) \<longleftrightarrow> st = kDisconnecting \<or> st = kDisconnected"
| "event_ok p strs st (Task (F_writeComplete c)) \<longleftrightarrow> p_done p \<noteq> None"
| "event_ok p strs st (Task (F_highWaterMark c n)) \<longleftrightarrow> p_high p \<noteq> None"
| "event_ok p strs st (UserCall c) \<longleftrightarrow> api_ok c"
| "event_ok p strs st _ \<longleftrightarrow> True"

lemma conn_functor_implements:
  assumes "env_ok os" and "profile_ok p" and "implements p tid a s"
    and "event_ok p (strings s) (astate a) (Task F)"
  shows "safely (conn_functor os tid F s) (implements p tid (a_functor os p (strings s) F a))"
proof -
  note at = stands_simps[OF implementsD(1)[OF assms(3)]]
  show ?thesis
  proof (cases F)
    case (F_connectEstablished c)
    with connectEstablished_implements[OF assms(1-3)] assms(4) show ?thesis by simp
  next
    case (F_connectDestroyed c)
    with connectDestroyed_implements[OF assms(1-3)] show ?thesis by simp
  next
    case (F_sendInLoop c addr len)
    with assms(4) sendInLoop_implements[OF env_okD(1)[OF assms(1)] env_okD(2)[OF assms(1)] assms(3)] show ?thesis
      by (auto simp: run_sendInLoop_def split: option.splits)
  next
    case (F_shutdownInLoop c)
    with shutdownInLoop_implements[OF assms(3)] show ?thesis by simp
  next
    case (F_writeComplete c)
    with assms(2,4) obtain f where f: "p_done p = Some f" "list_all api_ok (f (astate a))"
      by (auto simp: profile_ok_def)
    with run_script_implements[OF assms(1,3) f(2)] at F_writeComplete show ?thesis by simp
  next
    case (F_highWaterMark c n)
    with assms(2,4) obtain f where f: "p_high p = Some f" "list_all api_ok (f (astate a) n)"
      by (auto simp: profile_ok_def)
    with run_script_implements[OF assms(1,3) f(2)] at F_highWaterMark show ?thesis by simp
  qed (use assms(3) in simp_all)
qed

lemma conn_step_implements:
  assumes "env_ok os" and "profile_ok p" and "implements p tid a s"
    and "event_ok p (strings s) (astate a) e"
  shows "safely (conn_step os tid e s)
    (implements p tid (a_step os p (strings s) (readFd_iov (inputBuffer (conn s))) e a))"
proof (cases e)
  case (Invoke cb now)
  with handleRead_implements[OF assms(1-3)] handleWrite_implements[OF assms(1,3)]
    handleClose_implements[OF assms(1-3)] assms(3)
  show ?thesis by (cases cb) (simp_all add: TcpConnection_handleError_def)
next
  case (Task F)
  with conn_functor_implements[OF assms(1-3)] assms(4) show ?thesis by simp
next
  case (UserCall c)
  with user_call_implements[OF assms(1,3)] assms(4) show ?thesis by simp
next
  case (RemoteSend addr msg)
  note st = implementsD[OF assms(3)]
  note at = stands_simps[OF st(1)]
  have "\<not> isInLoopThread (tid + 1) (cloop s)" using st(1) by (simp add: stands_def isInLoopThread_def)
  with stands_steps(3)[OF st(1), of _ "tid + 1"] st at RemoteSend assms(3) show ?thesis
    by (simp add: TcpConnection_send_def runInLoop_def implements_def a_idle_def a_task_def)
next
  case RemoteShutdown
  note st = implementsD[OF assms(3)]
  note at = stands_simps[OF st(1)]
  note st1 = stands_steps(2)[OF st(1), of kDisconnecting]
  have "\<not> isInLoopThread (tid + 1) (cloop (setState kDisconnecting s))"
    using st1 by (simp add: stands_def isInLoopThread_def)
  with stands_steps(3)[OF st1, of _ "tid + 1"] st at stands_simps(1)[OF st1] RemoteShutdown assms(3) show ?thesis
    by (simp add: TcpConnection_shutdown_def runInLoop_def implements_def a_idle_def a_task_def)
qed

section \<open>Runs\<close>

text \<open>\<open>allow\<close> selects the events that occur in a run.\<close>

definition conn_next :: "os \<Rightarrow> int \<Rightarrow> (conn_event \<Rightarrow> bool) \<Rightarrow> cstate \<Rightarrow> cstate \<Rightarrow> bool" where
  "conn_next os tid allow s t \<longleftrightarrow>
     (\<exists>e. allow e \<and> event_ok (profile_of s) (strings s) (conn_state (conn s)) e \<and> conn_step os tid e s = Inr t)"

definition a_next :: "os \<Rightarrow> profile \<Rightarrow> (ptr \<rightharpoonup> char list) \<Rightarrow> (conn_event \<Rightarrow> bool) \<Rightarrow> aconn \<Rightarrow> aconn \<Rightarrow> bool" where
  "a_next os p strs allow a b \<longleftrightarrow>
     (\<exists>e iov. allow e \<and> event_ok p strs (astate a) e \<and> b = a_step os p strs iov e a)"

lemma conn_step_keeps: "keeps u s \<Longrightarrow> ends (conn_step os tid e s) (keeps u)"
  by (cases e) (auto intro: conn_intros)

lemma conn_next_simulates:
  assumes "env_ok os" and "profile_ok p" and "implements p tid a s" and "conn_next os tid allow s t"
  shows "\<exists>b. a_next os p (strings s) allow a b \<and> implements p tid b t \<and> strings t = strings s"
proof -
  note at = stands_simps[OF implementsD(1)[OF assms(3)]]
  have prof: "profile_of s = p" using assms(3) by (simp add: implements_def stands_def)
  from assms(4) obtain e where e: "allow e" "event_ok p (strings s) (astate a) e" "conn_step os tid e s = Inr t"
    by (auto simp: conn_next_def prof at)
  have "strings t = strings s" using ends_D[OF conn_step_keeps[OF keeps_refl] e(3)] by (simp add: keeps_def)
  moreover have "implements p tid (a_step os p (strings s) (readFd_iov (inputBuffer (conn s))) e a) t"
    using safely_Inr_D[OF conn_step_implements[OF assms(1-3) e(2)] e(3)] .
  ultimately show ?thesis using e(1,2) by (auto simp: a_next_def)
qed

interpretation conn_sim: forward_simulation "conn_next os tid allow" "a_next os p strs allow"
    "\<lambda>a s. env_ok os \<and> profile_ok p \<and> implements p tid a s \<and> strings s = strs"
  for os tid allow p strs
  by unfold_locales (use conn_next_simulates in blast)

end
