(* ===== verification/ConnProps.thy ===== *)
theory ConnProps
  imports ConnSpec
begin

text \<open>
  Properties of a connection over whole runs: the byte stream, the life cycle, the half-close,
  the notifications, the echo server. They are shown for the abstract connection and carried
  to \<open>TcpConnection\<close> by the simulation of \<open>ConnSpec\<close>.
\<close>

section \<open>The life cycle as an order\<close>

fun rank :: "StateE \<Rightarrow> nat" where
  "rank kConnecting = 0"
| "rank kConnected = 1"
| "rank kDisconnecting = 2"
| "rank kDisconnected = 3"

lemma rank_inject: "rank a = rank b \<Longrightarrow> a = b"
  by (cases a; cases b) simp_all

instantiation StateE :: linorder
begin

definition less_eq_StateE :: "StateE \<Rightarrow> StateE \<Rightarrow> bool" where
  "less_eq_StateE a b \<longleftrightarrow> rank a \<le> rank b"

definition less_StateE :: "StateE \<Rightarrow> StateE \<Rightarrow> bool" where
  "less_StateE a b \<longleftrightarrow> rank a < rank b"

instance
  by standard (auto simp: less_eq_StateE_def less_StateE_def intro: rank_inject)

end

lemma StateE_order [simp]:
  "a \<le> kDisconnected" "kConnecting \<le> a" "kConnected \<le> kDisconnecting"
  "kConnected \<le> a \<longleftrightarrow> a \<noteq> kConnecting" "kDisconnecting \<le> a \<longleftrightarrow> a = kDisconnecting \<or> a = kDisconnected"
  by (cases a; simp add: less_eq_StateE_def)+

lemma kDisconnected_top: "kDisconnected \<le> a \<Longrightarrow> a = kDisconnected"
  by (cases a) (simp_all add: less_eq_StateE_def)

text \<open>A script of a disconnected connection sends nothing and leaves it disconnected.\<close>

lemma a_script_disconnected:
  "astate a = kDisconnected \<Longrightarrow> astate (a_script os p cs a) = kDisconnected"
proof -
  have "astate (a_call os p c b) = kDisconnected" if "astate b = kDisconnected" for c b
    using that by (cases c) (simp_all add: a_shutdown_def)
  then show "astate a = kDisconnected \<Longrightarrow> astate (a_script os p cs a) = kDisconnected"
    unfolding a_script_def by (induction cs arbitrary: a) auto
qed

section \<open>Relations that every event keeps\<close>

text \<open>
  \<open>R\<close> relates the connection before and after. The laws speak of the elementary moves; the
  lemmas put together scripts, handlers and events. \<open>allow\<close> may exclude the sends that other
  threads queued, which are the only sends that do not test for kConnected.
\<close>

locale conn_moves =
  fixes os :: os and p :: profile and allow :: "conn_event \<Rightarrow> bool" and R :: "aconn \<Rightarrow> aconn \<Rightarrow> bool"
  assumes R_refl: "R a a"
    and R_trans: "R a b \<Longrightarrow> R b c \<Longrightarrow> R a c"
    and R_send: "astate a = kConnected \<Longrightarrow> R a (a_send os p d a)"
    and R_queued: "allow (Task (F_sendInLoop i addr n)) \<Longrightarrow> R a (a_send os p d a)"
    and R_shutdown: "R a (a_shutdown os p a)"
    and R_fin: "kDisconnecting \<le> astate a \<Longrightarrow> R a (a_fin os p a)"
    and R_write: "R a (a_write os p a)"
    and R_input: "R a (a\<lparr>ainput := x\<rparr>)"
    and R_got: "R a (a_push (Got iov r) a)"
    and R_connect: "astate a = kConnecting \<Longrightarrow> R a (a\<lparr>astate := kConnected\<rparr>)"
    and R_remote_shutdown: "allow RemoteShutdown \<Longrightarrow> astate a = kConnected \<Longrightarrow>
          R a (a_task (F_shutdownInLoop (p_id p)) (a\<lparr>astate := kDisconnecting\<rparr>))"
    and R_remote_send: "allow (RemoteSend addr m) \<Longrightarrow> astate a = kConnected \<Longrightarrow>
          R a (a_task (F_sendInLoop (p_id p) addr (length m)) a)"
    and R_disconnect: "R a (a\<lparr>astate := kDisconnected\<rparr>)"
    and R_notice: "astate a = kDisconnected \<Longrightarrow> R a (a\<lparr>anotices := anotices a @ [p_id p]\<rparr>)"
begin

lemma R_call: "R a (a_call os p c a)"
  by (cases c) (simp_all add: R_refl R_send R_shutdown R_input)

lemma R_script: "R a (a_script os p cs a)"
  unfolding a_script_def
  by (induction cs arbitrary: a) (auto intro: R_refl R_trans[OF R_call])

lemma R_notify: "R a (a_notify os p a)"
  unfolding a_notify_def by (rule R_script)

lemma R_close: "R a (a_close os p a)"
  unfolding a_close_def Let_def
  by (rule R_trans[OF R_disconnect R_trans[OF R_notify R_notice]]) (simp add: a_notify_def a_script_disconnected)

lemma R_read: "R a (a_read os p iov now a)"
proof (cases "sys_readv os (p_fd p) (ahist a) iov")
  case (SysErr e)
  then show ?thesis by (simp add: a_read_def R_got)
next
  case (SysOk d)
  let ?a = "a_push (Got iov (SysOk d)) a"
  have "R a (a_close os p ?a)" by (rule R_trans[OF R_got R_close])
  moreover have "R a (a_script os p cs (?a\<lparr>ainput := ainput ?a @ d\<rparr>))" for cs
    by (rule R_trans[OF R_got R_trans[OF R_input R_script]])
  ultimately show ?thesis using SysOk by (cases "d = []") (simp_all add: a_read_def Let_def)
qed

lemma R_functor:
  assumes "allow (Task F)" and "event_ok p strs (astate a) (Task F)"
  shows "R a (a_functor os p strs F a)"
proof (cases F)
  case (F_connectEstablished c)
  with assms(2) show ?thesis by (auto simp: a_established_def intro: R_trans[OF R_connect R_notify])
next
  case (F_connectDestroyed c)
  then show ?thesis by (auto simp: a_destroyed_def intro: R_refl R_trans[OF R_disconnect R_notify])
next
  case (F_sendInLoop c addr n)
  with assms(1) show ?thesis by (auto intro: R_queued)
next
  case (F_shutdownInLoop c)
  with assms(2) show ?thesis by (auto intro: R_fin)
qed (auto intro: R_refl R_script)

lemma R_step:
  assumes "allow e" and "event_ok p strs (astate a) e"
  shows "R a (a_step os p strs iov e a)"
proof (cases e)
  case (Invoke cb now)
  then show ?thesis by (cases cb) (simp_all add: R_refl R_read R_write R_close)
next
  case (Task F)
  with R_functor assms show ?thesis by simp
next
  case (UserCall c)
  then show ?thesis by (simp add: R_call)
next
  case (RemoteSend addr msg)
  with assms(1) show ?thesis by (simp add: R_refl R_remote_send)
next
  case RemoteShutdown
  with assms(1) show ?thesis by (simp add: R_refl R_remote_shutdown)
qed

lemma R_runs: "(a_next os p strs allow)\<^sup>*\<^sup>* a b \<Longrightarrow> R a b"
  by (induction rule: rtranclp_induct) (auto simp: a_next_def intro: R_refl R_trans R_step)

end

section \<open>The byte stream\<close>

text \<open>
  What the kernel has accepted, in order; what was read, in order; and the stream of a
  connection: the accepted bytes followed by the backlog.
\<close>

fun wire :: "sock_io list \<Rightarrow> char list" where
  "wire [] = []"
| "wire (Wrote d (SysOk k) # h) = wire h @ take k d"
| "wire (io # h) = wire h"

fun received :: "sock_io list \<Rightarrow> char list" where
  "received [] = []"
| "received (Got iov (SysOk d) # h) = received h @ d"
| "received (io # h) = received h"

definition stream :: "aconn \<Rightarrow> char list" where
  "stream a = wire (ahist a) @ abacklog a"

definition conn_stream :: "cstate \<Rightarrow> char list" where
  "conn_stream s = wire (sock_hist (conn s)) @ content (outputBuffer (conn s))"

lemma stream_simps [simp]:
  "stream (a\<lparr>ainput := x\<rparr>) = stream a" "stream (a\<lparr>astate := st\<rparr>) = stream a"
  "stream (a\<lparr>anotices := us\<rparr>) = stream a" "stream (a_task F a) = stream a"
  "stream (a_push (Got iov r) a) = stream a" "stream (a_push (ShutWr r') a) = stream a"
  "stream (a_push (Wrote d (SysErr e)) a) = stream a"
  "stream (a_fin os p a) = stream a" "stream (a_shutdown os p a) = stream a"
  "stream (a_enqueue p d a) = stream a @ d"
  by (simp_all add: stream_def a_task_def a_push_def a_fin_def a_shutdown_def a_enqueue_def Let_def)

text \<open>Data that the kernel refuses with EPIPE or ECONNRESET at the first attempt are dropped.\<close>

definition send_dropped :: "os \<Rightarrow> profile \<Rightarrow> char list \<Rightarrow> aconn \<Rightarrow> bool" where
  "send_dropped os p d a \<longleftrightarrow> astate a = kDisconnected \<or>
     (abacklog a = [] \<and> sys_write os (p_fd p) (ahist a) d \<in> {SysErr EPIPE, SysErr ECONNRESET})"

lemma stream_send:
  assumes "write_doc os"
  shows "stream (a_send os p d a) = stream a @ (if send_dropped os p d a then [] else d)"
proof (cases "astate a = kDisconnected \<or> abacklog a \<noteq> []")
  case True
  then show ?thesis by (auto simp: a_send_def send_dropped_def)
next
  case False
  then have a: "astate a \<noteq> kDisconnected" "abacklog a = []" by simp_all
  show ?thesis
  proof (cases "sys_write os (p_fd p) (ahist a) d")
    case (SysErr e)
    with a show ?thesis by (auto simp: a_send_def send_dropped_def Let_def)
  next
    case (SysOk k)
    have "stream (a_push (Wrote d (SysOk k)) a) = stream a @ take k d"
      using a by (simp add: stream_def a_push_def)
    with a SysOk write_docD[OF assms SysOk] show ?thesis
      by (cases "k = length d") (simp_all add: a_send_def send_dropped_def Let_def)
  qed
qed

lemma stream_write:
  assumes "write_doc os"
  shows "stream (a_write os p a) = stream a"
proof (cases "a_idle a")
  case True
  then show ?thesis by (simp add: a_write_def)
next
  case False
  show ?thesis
  proof (cases "sys_write os (p_fd p) (ahist a) (abacklog a)")
    case (SysErr e)
    with False show ?thesis by (simp add: a_write_def)
  next
    case (SysOk k)
    let ?b = "(a_push (Wrote (abacklog a) (SysOk k)) a)\<lparr>abacklog := drop k (abacklog a)\<rparr>"
    have "stream ?b = stream a" by (simp add: stream_def a_push_def)
    moreover have "stream (a_write os p a) = stream ?b"
      using False SysOk by (auto simp: a_write_def Let_def a_push_def)
    ultimately show ?thesis by simp
  qed
qed

lemma astate_simps [simp]:
  "astate (a_push io a) = astate a" "astate (a_task F a) = astate a"
  "astate (a_enqueue p d a) = astate a" "astate (a_fin os p a) = astate a"
  by (simp_all add: a_push_def a_task_def a_enqueue_def a_fin_def Let_def)

lemma ainput_simps [simp]: "ainput (a_push io a) = ainput a" "ainput (a_task F a) = ainput a"
  by (simp_all add: a_push_def a_task_def)

lemma astate_send [simp]: "astate (a_send os p d a) = astate a"
  by (simp add: a_send_def Let_def split: sys.split)

lemma astate_write [simp]: "astate (a_write os p a) = astate a"
  by (simp add: a_write_def Let_def split: sys.split)

text \<open>The two relations: the stream only grows, and the life cycle only advances.\<close>

definition grows :: "os \<Rightarrow> aconn \<Rightarrow> aconn \<Rightarrow> bool" where
  "grows os a b \<longleftrightarrow> (if write_doc os then prefix (stream a) (stream b) else True)"

interpretation grow: conn_moves os p allow "grows os" for os p allow
  by unfold_locales (auto simp: grows_def stream_send stream_write split: if_splits)

definition advances :: "aconn \<Rightarrow> aconn \<Rightarrow> bool" where
  "advances a b \<longleftrightarrow> astate a \<le> astate b"

interpretation life: conn_moves os p allow advances for os p allow
  by unfold_locales (auto simp: advances_def a_shutdown_def)

text \<open>The notifications that a send queues.\<close>

lemma a_enqueue_simps [simp]:
  "abacklog (a_enqueue p rest a) = abacklog a @ rest"
  "atasks (a_enqueue p rest a) = atasks a @
     (let new = length (abacklog a) + length rest in
      if length (abacklog a) < p_mark p \<and> p_mark p \<le> new \<and> p_high p \<noteq> None
      then [F_highWaterMark (p_id p) new] else [])"
  by (auto simp: a_enqueue_def a_task_def Let_def)

lemma tasks_send:
  assumes "write_doc os" and "astate a \<noteq> kDisconnected"
  shows "atasks (a_send os p d a) = atasks a @
    (if abacklog a = [] \<and> sys_write os (p_fd p) (ahist a) d = SysOk (length d) \<and> p_done p \<noteq> None
     then [F_writeComplete (p_id p)] else []) @
    (let new = length (abacklog (a_send os p d a)) in
     if length (abacklog a) < p_mark p \<and> p_mark p \<le> new \<and> p_high p \<noteq> None
     then [F_highWaterMark (p_id p) new] else [])"
proof (cases "abacklog a = []")
  case False
  with assms(2) show ?thesis by (cases "d = []") (simp_all add: a_send_def Let_def)
next
  case True
  show ?thesis
  proof (cases "sys_write os (p_fd p) (ahist a) d")
    case (SysErr e)
    with True assms(2) show ?thesis
      by (cases "e = EPIPE \<or> e = ECONNRESET \<or> d = []") (auto simp: a_send_def a_push_def Let_def)
  next
    case (SysOk k)
    with True assms(2) write_docD[OF assms(1) SysOk] show ?thesis
      by (cases "k = length d"; cases "p_done p") (auto simp: a_send_def a_push_def a_task_def Let_def)
  qed
qed

section \<open>Half-close\<close>

definition has_fin :: "sock_io list \<Rightarrow> bool" where
  "has_fin h \<longleftrightarrow> list_ex (\<lambda>io. case io of ShutWr r \<Rightarrow> True | _ \<Rightarrow> False) h"

text \<open>No write follows the shutdown of the write side.\<close>

fun fin_last :: "sock_io list \<Rightarrow> bool" where
  "fin_last [] = True"
| "fin_last (Wrote d r # h) = (\<not> has_fin h \<and> fin_last h)"
| "fin_last (io # h) = fin_last h"

lemma has_fin_simps [simp]:
  "\<not> has_fin []" "has_fin (Wrote d r # h) = has_fin h" "has_fin (Got iov r' # h) = has_fin h"
  "has_fin (ShutWr r'' # h)"
  by (simp_all add: has_fin_def)

definition fin_inv :: "aconn \<Rightarrow> bool" where
  "fin_inv a \<longleftrightarrow> fin_last (ahist a) \<and> (has_fin (ahist a) \<longrightarrow> kDisconnecting \<le> astate a \<and> a_idle a)"

definition fin_keeps :: "aconn \<Rightarrow> aconn \<Rightarrow> bool" where
  "fin_keeps a b \<longleftrightarrow> (fin_inv a \<longrightarrow> fin_inv b)"

fun local_event :: "conn_event \<Rightarrow> bool" where
  "local_event (Task (F_sendInLoop c addr n)) = False"
| "local_event e = True"

lemma a_idle_simps [simp]:
  "a_idle (a_task F a) = a_idle a" "a_idle (a_push io a) = a_idle a"
  "a_idle (a\<lparr>ainput := x\<rparr>) = a_idle a" "a_idle (a\<lparr>anotices := us\<rparr>) = a_idle a"
  "a_idle (a\<lparr>astate := kDisconnected\<rparr>)"
  "a_idle (a_fin os p a) = a_idle a"
  by (simp_all add: a_idle_def a_task_def a_push_def a_fin_def)

lemma ahist_simps [simp]:
  "ahist (a_task F a) = ahist a" "ahist (a_push io a) = io # ahist a"
  "ahist (a_enqueue p d a) = ahist a"
  "ahist (a_fin os p a) = (if a_idle a then ShutWr (sys_shutdown os (p_fd p) (ahist a)) # ahist a else ahist a)"
  by (simp_all add: a_task_def a_push_def a_enqueue_def a_fin_def Let_def)

lemma fin_inv_send: "fin_inv a \<Longrightarrow> astate a = kConnected \<Longrightarrow> fin_inv (a_send os p d a)"
  by (auto simp: fin_inv_def a_send_def Let_def split: sys.split)

lemma fin_inv_fin: "fin_inv a \<Longrightarrow> kDisconnecting \<le> astate a \<Longrightarrow> fin_inv (a_fin os p a)"
  by (auto simp: fin_inv_def a_fin_def)

lemma fin_inv_shutdown: "fin_inv a \<Longrightarrow> fin_inv (a_shutdown os p a)"
  unfolding a_shutdown_def by (auto simp: fin_inv_def intro!: fin_inv_fin)

lemma fin_inv_write:
  assumes "fin_inv a"
  shows "fin_inv (a_write os p a)"
proof (cases "a_idle a")
  case True
  with assms show ?thesis by (simp add: a_write_def)
next
  case False
  with assms have no: "\<not> has_fin (ahist a)" "fin_last (ahist a)" by (auto simp: fin_inv_def)
  show ?thesis
  proof (cases "sys_write os (p_fd p) (ahist a) (abacklog a)")
    case (SysErr e)
    with False no show ?thesis by (simp add: a_write_def fin_inv_def)
  next
    case (SysOk k)
    let ?b = "(a_push (Wrote (abacklog a) (SysOk k)) a)\<lparr>abacklog := drop k (abacklog a)\<rparr>"
    let ?c = "if p_done p \<noteq> None then a_task (F_writeComplete (p_id p)) ?b else ?b"
    have c: "fin_inv ?b" "fin_inv ?c" using no by (auto simp: fin_inv_def)
    have "a_write os p a = (if abacklog ?b \<noteq> [] then ?b
        else if astate ?c = kDisconnecting then a_fin os p ?c else ?c)"
      using False SysOk by (auto simp: a_write_def Let_def a_push_def)
    with c fin_inv_fin[OF c(2)] show ?thesis by (simp split: if_splits)
  qed
qed

interpretation fin: conn_moves os p local_event fin_keeps for os p
proof unfold_locales
  show "fin_keeps a (a\<lparr>astate := kConnected\<rparr>)" if "astate a = kConnecting" for a
    using that by (auto simp: fin_keeps_def fin_inv_def)
  show "fin_keeps a (a_task (F_shutdownInLoop (p_id p)) (a\<lparr>astate := kDisconnecting\<rparr>))" if "astate a = kConnected" for a
    using that by (auto simp: fin_keeps_def fin_inv_def)
  show "fin_keeps a (a_shutdown os p a)" for a by (simp add: fin_keeps_def fin_inv_shutdown)
  show "fin_keeps a (a_write os p a)" for a by (simp add: fin_keeps_def fin_inv_write)
qed (auto simp: fin_keeps_def fin_inv_send fin_inv_fin, auto simp: fin_inv_def)

section \<open>The echo server\<close>

text \<open>
  \<open>onConnection\<close> and \<open>onMessage\<close> of \<open>example/testserver.cpp\<close>: the first only logs, the second
  takes everything out of the input buffer and sends it back.
\<close>

definition EchoServer_onConnection :: "StateE \<Rightarrow> api list" where
  "EchoServer_onConnection st = []"

definition EchoServer_onMessage :: "StateE \<Rightarrow> char list \<Rightarrow> timestamp \<Rightarrow> api list" where
  "EchoServer_onMessage st input now = [CallRetrieveAll, CallSend input]"

definition echo_profile :: "profile \<Rightarrow> bool" where
  "echo_profile p \<longleftrightarrow> p_conn p = Some EchoServer_onConnection \<and> p_msg p = Some EchoServer_onMessage \<and>
     p_done p = None \<and> p_high p = None \<and> p_close p"

lemma echo_profile_ok: "echo_profile p \<Longrightarrow> profile_ok p"
  by (simp add: echo_profile_def profile_ok_def EchoServer_onConnection_def EchoServer_onMessage_def)

text \<open>No write was answered with EPIPE or ECONNRESET.\<close>

fun reset_free :: "sock_io list \<Rightarrow> bool" where
  "reset_free [] = True"
| "reset_free (Wrote d (SysErr e) # h) = (e \<noteq> EPIPE \<and> e \<noteq> ECONNRESET \<and> reset_free h)"
| "reset_free (io # h) = reset_free h"

fun io_event :: "conn_event \<Rightarrow> bool" where
  "io_event (Invoke cb now) = True"
| "io_event (Task (F_connectDestroyed c)) = True"
| "io_event e = False"

definition echo_inv :: "aconn \<Rightarrow> bool" where
  "echo_inv a \<longleftrightarrow> astate a \<noteq> kConnecting \<and>
     (reset_free (ahist a) \<longrightarrow> prefix (stream a) (received (ahist a)) \<and>
        (astate a = kConnected \<longrightarrow> stream a = received (ahist a) \<and> ainput a = []))"

lemma received_send: "received (ahist (a_send os p d a)) = received (ahist a)"
  by (simp add: a_send_def Let_def split: sys.split)

lemma reset_free_send:
  "reset_free (ahist (a_send os p d a)) \<Longrightarrow> reset_free (ahist a) \<and> (astate a = kConnected \<longrightarrow> \<not> send_dropped os p d a)"
  by (auto simp: a_send_def send_dropped_def Let_def split: sys.splits if_splits)

lemma echo_notify: "echo_profile p \<Longrightarrow> a_notify os p a = a"
  by (simp add: echo_profile_def a_notify_def a_script_def EchoServer_onConnection_def)

lemma echo_inv_disconnect: "echo_inv a \<Longrightarrow> echo_inv (a\<lparr>astate := kDisconnected, anotices := us\<rparr>)"
  by (simp add: echo_inv_def stream_def)

lemma echo_inv_write:
  assumes "write_doc os" and "echo_inv a"
  shows "echo_inv (a_write os p a)"
proof -
  have "reset_free (ahist (a_write os p a)) \<longrightarrow> reset_free (ahist a)"
    "received (ahist (a_write os p a)) = received (ahist a)" "ainput (a_write os p a) = ainput a"
    by (simp_all add: a_write_def a_fin_def a_task_def a_push_def Let_def split: sys.split)
  with assms(2) show ?thesis by (auto simp: echo_inv_def stream_write[OF assms(1)])
qed

lemma echo_inv_message:
  assumes "write_doc os" and "echo_inv a" and "d \<noteq> []"
  shows "echo_inv (a_script os p (EchoServer_onMessage st (ainput a @ d) now)
           ((a_push (Got iov (SysOk d)) a)\<lparr>ainput := ainput a @ d\<rparr>))"
proof -
  let ?b = "(a_push (Got iov (SysOk d)) a)\<lparr>ainput := []\<rparr>"
  have script: "a_script os p (EchoServer_onMessage st (ainput a @ d) now)
        ((a_push (Got iov (SysOk d)) a)\<lparr>ainput := ainput a @ d\<rparr>) =
      (if astate a = kConnected then a_send os p (ainput a @ d) ?b else ?b)"
    by (simp add: a_script_def EchoServer_onMessage_def a_push_def)
  have b: "stream ?b = stream a" "received (ahist ?b) = received (ahist a) @ d"
    "reset_free (ahist ?b) = reset_free (ahist a)" "astate ?b = astate a" by simp_all
  show ?thesis
  proof (cases "astate a = kConnected")
    case True
    let ?c = "a_send os p (ainput a @ d) ?b"
    have "ainput ?c = []" by (simp add: a_send_def a_enqueue_def a_task_def a_push_def Let_def split: sys.split)
    with True script b assms(2) reset_free_send[of os p "ainput a @ d" ?b] show ?thesis
      by (auto simp: echo_inv_def stream_send[OF assms(1)] received_send)
  next
    case False
    with script b assms(2) show ?thesis by (auto simp: echo_inv_def prefix_def)
  qed
qed

lemma echo_inv_step:
  assumes "write_doc os" and "echo_profile p" and "echo_inv a" and "io_event e"
  shows "echo_inv (a_step os p strs iov e a)"
proof -
  have close: "echo_inv (a_close os p b)" if "echo_inv b" for b
    using that echo_inv_disconnect[of b "anotices b @ [p_id p]"] by (simp add: a_close_def echo_notify[OF assms(2)])
  have msg: "p_msg p = Some EchoServer_onMessage" using assms(2) by (simp add: echo_profile_def)
  have read: "echo_inv (a_read os p iov now a)" for now
  proof (cases "sys_readv os (p_fd p) (ahist a) iov")
    case (SysErr e)
    with assms(3) show ?thesis by (simp add: a_read_def echo_inv_def)
  next
    case (SysOk d)
    have "echo_inv (a_push (Got iov (SysOk [])) a)" using assms(3) by (simp add: echo_inv_def)
    with SysOk close echo_inv_message[OF assms(1,3), of d p "astate a" now iov] msg show ?thesis
      by (cases "d = []") (simp_all add: a_read_def a_push_def)
  qed
  show ?thesis
  proof (cases e)
    case (Invoke cb now)
    with read close assms(3) echo_inv_write[OF assms(1,3)] show ?thesis by (cases cb) simp_all
  next
    case (Task F)
    have "echo_inv (a\<lparr>astate := kDisconnected\<rparr>)"
      using echo_inv_disconnect[OF assms(3), of "anotices a"] by simp
    with Task assms(3,4) show ?thesis by (cases F) (simp_all add: a_destroyed_def echo_notify[OF assms(2)])
  qed (use assms(4) in simp_all)
qed

lemma echo_inv_runs:
  assumes "write_doc os" and "echo_profile p"
  shows "(a_next os p strs io_event)\<^sup>*\<^sup>* a b \<Longrightarrow> echo_inv a \<Longrightarrow> echo_inv b"
  by (induction rule: rtranclp_induct) (auto simp: a_next_def intro: echo_inv_step[OF assms])

section \<open>Well-formed connections\<close>

definition conn_ok :: "int \<Rightarrow> cstate \<Rightarrow> bool" where
  "conn_ok tid s \<longleftrightarrow> profile_ok (profile_of s) \<and> implements (profile_of s) tid (abs_conn s) s"

text \<open>A run of a well-formed connection is a run of its abstraction.\<close>

lemma conn_runs:
  assumes "env_ok os" and "conn_ok tid s" and "(conn_next os tid allow)\<^sup>*\<^sup>* s t"
  shows "(a_next os (profile_of s) (strings s) allow)\<^sup>*\<^sup>* (abs_conn s) (abs_conn t)"
    "conn_ok tid t" "profile_of t = profile_of s" "strings t = strings s"
proof -
  obtain b where b: "(a_next os (profile_of s) (strings s) allow)\<^sup>*\<^sup>* (abs_conn s) b"
      "implements (profile_of s) tid b t" "strings t = strings s"
    using conn_sim.simulates_runs[OF assms(3)] assms(1,2) by (fastforce simp: conn_ok_def)
  then have t: "abs_conn t = b" "profile_of t = profile_of s" by (simp_all add: implements_def stands_def)
  with b assms(2) show "(a_next os (profile_of s) (strings s) allow)\<^sup>*\<^sup>* (abs_conn s) (abs_conn t)"
    "conn_ok tid t" "profile_of t = profile_of s" "strings t = strings s"
    by (simp_all add: conn_ok_def)
qed

lemma abs_conn_fields [simp]:
  "astate (abs_conn s) = conn_state (conn s)" "ahist (abs_conn s) = sock_hist (conn s)"
  "abacklog (abs_conn s) = content (outputBuffer (conn s))" "ainput (abs_conn s) = content (inputBuffer (conn s))"
  "atasks (abs_conn s) = pendingFunctors (cloop s)" "anotices (abs_conn s) = upcalls s"
  "stream (abs_conn s) = conn_stream s"
  by (simp_all add: abs_conn_def stream_def conn_stream_def)

lemma conn_ok_writing:
  "conn_ok tid s \<Longrightarrow> writing s \<longleftrightarrow> content (outputBuffer (conn s)) \<noteq> [] \<and> conn_state (conn s) \<noteq> kDisconnected"
  by (simp add: conn_ok_def implements_def a_idle_def)

text \<open>
  A connection that has just been constructed on a loop whose poller knows neither its
  channel nor its descriptor, with the callbacks that the server sets.
\<close>

lemma new_conn_implements:
  assumes "TcpConnection_new (Some l) obj name fd cp la pa L = Inr (c, L')"
    and "poller_ok (el_poller L)" and "chans (el_poller L) cp = None" and "channelMap (el_poller L) fd = None"
    and "s = \<lparr>conn = c\<lparr>connectionCallback := f1, messageCallback := f2, writeCompleteCallback := f3,
        highWaterMarkCallback := f4, conn_closeCallback := True, highWaterMark := m\<rparr>,
      cloop = L', strings = strs, upcalls = []\<rparr>"
  shows "implements (profile_of s) (threadId L) (abs_conn s) s"
    "abs_conn s = \<lparr>astate = kConnecting, ahist = [], abacklog = [], ainput = [],
       atasks = pendingFunctors L, anotices = []\<rparr>"
proof -
  let ?ch = "(Channel_new fd)\<lparr>readCallback := Some (ConnHandleRead obj), writeCallback := Some (ConnHandleWrite obj),
      closeCallback := Some (ConnHandleClose obj), errorCallback := Some (ConnHandleError obj)\<rparr>"
  let ?P = "store cp ?ch (el_poller L)"
  obtain b where b: "Buffer_new kInitialSize = Inr b" "buffer_ok b" "content b = []"
    using Buffer_new_spec[of kInitialSize] by (auto simp: kCheapPrepend_def kInitialSize_def vec_max_def)
  have c: "sockfd c = fd" "conn_channel c = cp" "conn_state c = kConnecting" "sock_hist c = []"
    "inputBuffer c = b" "outputBuffer c = b" and L': "L' = L\<lparr>el_poller := ?P\<rparr>"
    using assms(1) b(1) by (auto simp: TcpConnection_new_def CheckLoopNotNull_def Let_def)
  have ch: "ch_index ?ch = kNew" "ch_fd ?ch = fd" "\<not> isWriting ?ch"
    by (simp_all add: Channel_new_def kNew_def isWriting_def)
  have unmapped: "channelMap (el_poller L) fd' \<noteq> Some cp" for fd'
    using poller_okD(2)[OF assms(2), of fd' cp] assms(3) by auto
  have "poller_ok ?P"
  proof -
    have "chan_ok ?P q d = chan_ok (el_poller L) q d" for q d by (simp add: chan_ok_def)
    moreover have "chan_ok ?P cp ?ch" using ch(1) unmapped by (simp add: chan_ok_def)
    moreover have "\<exists>d. chans ?P q = Some d \<and> ch_fd d = fd'" if "channelMap (el_poller L) fd' = Some q" for q fd'
      using poller_okD(2)[OF assms(2) that] unmapped that by (cases "q = cp") auto
    ultimately show ?thesis using poller_okD(1,3)[OF assms(2)] by (auto simp: poller_ok_def)
  qed
  with b c L' ch assms(4,5) show "implements (profile_of s) (threadId L) (abs_conn s) s"
    by (simp add: implements_def stands_def chan_live_def writing_def a_idle_def fd_free_def abs_conn_def)
  show "abs_conn s = \<lparr>astate = kConnecting, ahist = [], abacklog = [], ainput = [],
       atasks = pendingFunctors L, anotices = []\<rparr>"
    using b c L' assms(5) by (simp add: abs_conn_def)
qed

section \<open>A concrete connection\<close>

definition sample_addr :: sockaddr_in where
  "sample_addr = \<lparr>sin_family = AF_INET, sin_port = htons 8000, s_addr = 16777343\<rparr>"

text \<open>Connection 5 of an echo server: descriptor 3, channel at address 7, loop thread 100.\<close>

definition sample_new :: cstate where
  "sample_new = (case TcpConnection_new (Some 1) 5 ''echo-1'' 3 7 sample_addr sample_addr sample_loop of
     Inr (c, L) \<Rightarrow>
       \<lparr>conn = c\<lparr>connectionCallback := Some EchoServer_onConnection, messageCallback := Some EchoServer_onMessage,
          writeCompleteCallback := None, highWaterMarkCallback := None, conn_closeCallback := True,
          highWaterMark := 64 * 1024 * 1024\<rparr>,
        cloop = L, strings = [200 \<mapsto> ''late''], upcalls = []\<rparr>)"

definition sample_up :: cstate where
  "sample_up = (case connectEstablished sample_os 100 sample_new of Inr t \<Rightarrow> t)"

lemma sample_env: "env_ok sample_os"
  by (simp add: env_ok_def)

lemma sample_new_facts:
  "implements (profile_of sample_new) 100 (abs_conn sample_new) sample_new"
  "abs_conn sample_new = \<lparr>astate = kConnecting, ahist = [], abacklog = [], ainput = [], atasks = [], anotices = []\<rparr>"
  "echo_profile (profile_of sample_new)" "conn_state (conn sample_new) = kConnecting"
  "strings sample_new = [200 \<mapsto> ''late'']" "p_fd (profile_of sample_new) = 3"
proof -
  obtain b where "Buffer_new kInitialSize = Inr b"
    using Buffer_new_spec[of kInitialSize] by (auto simp: kCheapPrepend_def kInitialSize_def vec_max_def)
  then obtain c L where c: "TcpConnection_new (Some 1) 5 ''echo-1'' 3 7 sample_addr sample_addr sample_loop = Inr (c, L)"
    by (auto simp: TcpConnection_new_def CheckLoopNotNull_def Let_def)
  have P: "poller_ok (el_poller sample_loop)" "chans (el_poller sample_loop) 7 = None"
    "channelMap (el_poller sample_loop) 3 = None"
    by (simp_all add: sample_loop_def poller_ok_def)
  note new = new_conn_implements[OF c P]
  have s: "sample_new = \<lparr>conn = c\<lparr>connectionCallback := Some EchoServer_onConnection,
          messageCallback := Some EchoServer_onMessage, writeCompleteCallback := None,
          highWaterMarkCallback := None, conn_closeCallback := True, highWaterMark := 64 * 1024 * 1024\<rparr>,
        cloop = L, strings = [200 \<mapsto> ''late''], upcalls = []\<rparr>"
    unfolding sample_new_def c by simp
  from new[OF s] show "implements (profile_of sample_new) 100 (abs_conn sample_new) sample_new"
    "abs_conn sample_new = \<lparr>astate = kConnecting, ahist = [], abacklog = [], ainput = [], atasks = [], anotices = []\<rparr>"
    by (simp_all add: sample_loop_def)
  then show "conn_state (conn sample_new) = kConnecting" by (simp add: abs_conn_def)
  show "echo_profile (profile_of sample_new)" by (simp add: s echo_profile_def profile_of_def)
  show "strings sample_new = [200 \<mapsto> ''late'']" by (simp add: s)
  have "sockfd c = 3" using c by (auto simp: TcpConnection_new_def CheckLoopNotNull_def Let_def bindR_Inr_iff)
  then show "p_fd (profile_of sample_new) = 3" by (simp add: s profile_of_def)
qed

lemma sample_new_ok: "conn_ok 100 sample_new"
  using sample_new_facts(1,3) by (simp add: conn_ok_def echo_profile_ok)

text \<open>With an empty connection script, establishing cannot run out of memory.\<close>

lemma established_total:
  assumes "ctl_doc os" and "implements p tid a s" and "p_conn p = Some f" and "f kConnected = []"
  shows "\<exists>t. connectEstablished os tid s = Inr t"
proof -
  let ?s = "setState kConnected s"
  note st1 = stands_steps(2)[OF implementsD(1)[OF assms(2)], of kConnected]
  obtain ch where ch: "chan_of ?s = Inr ch"
      "chans (el_poller (cloop ?s)) (conn_channel (conn ?s)) = Some ch"
    using chan_of_stands[OF st1] by blast
  note st2 = tie_stands[OF st1 ch(2), of "conn_id (conn ?s)"]
  from conn_interest_stands[OF assms(1) st2(1), of EnableReading] obtain t where
    t: "conn_interest os EnableReading (upd_loop (\<lambda>L. L\<lparr>el_poller := store (conn_channel (conn ?s))
                 (Channel_tie (conn_id (conn ?s)) ch) (el_poller L)\<rparr>) ?s) = Inr t"
       "stands p tid (a\<lparr>astate := kConnected\<rparr>) t" by blast
  then show ?thesis using ch(1) assms(3,4) stands_simps(3,9)[OF t(2)]
    by (simp add: connectEstablished_def call_connectionCallback_def run_script_def Let_def)
qed

lemma sample_up_step: "connectEstablished sample_os 100 sample_new = Inr sample_up"
  using established_total[OF sample_os_doc(3) sample_new_facts(1)] sample_new_facts(3)
  by (auto simp: sample_up_def echo_profile_def EchoServer_onConnection_def)

lemma sample_up_run: "conn_next sample_os 100 local_event sample_new sample_up"
  "conn_next sample_os 100 (\<lambda>_. True) sample_new sample_up"
  using sample_up_step sample_new_facts(4)
  by (auto simp: conn_next_def intro!: exI[of _ "Task (F_connectEstablished 5)"])

lemma sample_up_runs:
  "(conn_next sample_os 100 local_event)\<^sup>*\<^sup>* sample_new sample_up"
  "(conn_next sample_os 100 (\<lambda>_. True))\<^sup>*\<^sup>* sample_new sample_up"
  using sample_up_run by (blast intro: r_into_rtranclp)+

lemma sample_up_facts:
  "conn_ok 100 sample_up" "profile_of sample_up = profile_of sample_new" "strings sample_up = [200 \<mapsto> ''late'']"
  "abs_conn sample_up = \<lparr>astate = kConnected, ahist = [], abacklog = [], ainput = [], atasks = [], anotices = []\<rparr>"
proof -
  have run: "(conn_next sample_os 100 (\<lambda>_. True))\<^sup>*\<^sup>* sample_new sample_up" using sample_up_run(2) by blast
  from conn_runs[OF sample_env sample_new_ok run] sample_new_facts(5)
  show "conn_ok 100 sample_up" "profile_of sample_up = profile_of sample_new"
    "strings sample_up = [200 \<mapsto> ''late'']" by simp_all
  have "implements (profile_of sample_new) 100 (a_established sample_os (profile_of sample_new) (abs_conn sample_new)) sample_up"
    using connectEstablished_implements[OF sample_env echo_profile_ok[OF sample_new_facts(3)] sample_new_facts(1)]
      sample_new_facts(4) sample_up_step by simp
  then show "abs_conn sample_up = \<lparr>astate = kConnected, ahist = [], abacklog = [], ainput = [], atasks = [], anotices = []\<rparr>"
    by (simp add: implements_def stands_def a_established_def echo_notify[OF sample_new_facts(3)] sample_new_facts(2))
qed

section \<open>Properties\<close>

text \<open>C1: Refinement. Every event of a well-formed connection (a readable, writable, closed or failed
  socket, a queued task, a call by user code, a send or shutdown by another thread) does to the
  connection exactly what the specification says, keeps it well formed, and can fail only when a
  vector would exceed its maximal size.\<close>

theorem TcpConnection_refines_spec:
  assumes "env_ok os" and "conn_ok tid s" and "event_ok (profile_of s) (strings s) (conn_state (conn s)) e"
  shows "case conn_step os tid e s of
      Inl err \<Rightarrow> err = Throw ''length_error''
    | Inr t \<Rightarrow> conn_ok tid t \<and> profile_of t = profile_of s \<and>
        abs_conn t = a_step os (profile_of s) (strings s) (readFd_iov (inputBuffer (conn s))) e (abs_conn s)"
proof -
  have "safely (conn_step os tid e s) (implements (profile_of s) tid
      (a_step os (profile_of s) (strings s) (readFd_iov (inputBuffer (conn s))) e (abs_conn s)))"
    using assms by (intro conn_step_implements) (simp_all add: conn_ok_def)
  then show ?thesis
    using assms(2) by (cases "conn_step os tid e s") (auto simp: conn_ok_def implements_def stands_def)
qed

theorem TcpConnection_refines_spec_witness:
  "case conn_step sample_os 100 (Invoke (ConnHandleRead 5) 0) sample_up of
     Inl err \<Rightarrow> err = Throw ''length_error'' | Inr t \<Rightarrow> conn_ok 100 t"
  using TcpConnection_refines_spec[OF sample_env sample_up_facts(1), of "Invoke (ConnHandleRead 5) 0"]
  by (auto split: sum.splits)

text \<open>C10: send on the loop thread appends the message to the connection's byte stream (what the kernel
  accepted, then the output buffer), behind everything sent before, unless the kernel answers the
  direct write with EPIPE or ECONNRESET. It queues the write-complete callback exactly when the
  kernel took the whole message at once, and the high-water-mark callback exactly when the output
  buffer reaches the mark with this message.\<close>

theorem send_in_order_with_notifications:
  assumes "env_ok os" and "conn_ok tid s" and "conn_state (conn s) = kConnected" and "length msg \<le> vec_max"
  defines "ans \<equiv> sys_write os (sockfd (conn s)) (sock_hist (conn s)) msg"
    and "old \<equiv> content (outputBuffer (conn s))"
  shows "case TcpConnection_send os tid addr msg s of
      Inl err \<Rightarrow> err = Throw ''length_error''
    | Inr t \<Rightarrow>
        conn_stream t = conn_stream s @ (if old = [] \<and> ans \<in> {SysErr EPIPE, SysErr ECONNRESET} then [] else msg) \<and>
        pendingFunctors (cloop t) = pendingFunctors (cloop s) @
          (if old = [] \<and> ans = SysOk (length msg) \<and> writeCompleteCallback (conn s) \<noteq> None
           then [F_writeComplete (conn_id (conn s))] else []) @
          (let new = length (content (outputBuffer (conn t))) in
           if length old < highWaterMark (conn s) \<and> highWaterMark (conn s) \<le> new \<and> highWaterMarkCallback (conn s) \<noteq> None
           then [F_highWaterMark (conn_id (conn s)) new] else [])"
proof -
  let ?p = "profile_of s" and ?a = "abs_conn s"
  have imp: "implements ?p tid ?a s" using assms(2) by (simp add: conn_ok_def)
  note prof = stands_simps(1-8)[OF implementsD(1)[OF imp], symmetric]
  have safe: "safely (TcpConnection_send os tid addr msg s) (implements ?p tid (a_send os ?p msg ?a))"
    using TcpConnection_send_implements[OF assms(1) imp assms(4)] assms(3) by simp
  have tasks: "atasks (a_send os ?p msg ?a) = atasks ?a @
      (if old = [] \<and> ans = SysOk (length msg) \<and> p_done ?p \<noteq> None then [F_writeComplete (p_id ?p)] else []) @
      (let new = length (abacklog (a_send os ?p msg ?a)) in
       if length old < p_mark ?p \<and> p_mark ?p \<le> new \<and> p_high ?p \<noteq> None
       then [F_highWaterMark (p_id ?p) new] else [])"
    using tasks_send[OF env_okD(2)[OF assms(1)], of ?a ?p msg] assms(3) prof(2)
    by (simp add: old_def ans_def)
  have strm: "stream (a_send os ?p msg ?a) = stream ?a @
      (if old = [] \<and> ans \<in> {SysErr EPIPE, SysErr ECONNRESET} then [] else msg)"
    using assms(3) stream_send[OF env_okD(2)[OF assms(1)]] prof(2)
    by (simp add: send_dropped_def old_def ans_def)
  show ?thesis
  proof (cases "TcpConnection_send os tid addr msg s")
    case (Inl err)
    with safe show ?thesis by simp
  next
    case (Inr t)
    with safe have "abs_conn t = a_send os ?p msg ?a" by (simp add: implements_def stands_def)
    with tasks strm have "stream (abs_conn t) = stream ?a @
        (if old = [] \<and> ans \<in> {SysErr EPIPE, SysErr ECONNRESET} then [] else msg)"
      "atasks (abs_conn t) = atasks ?a @
      (if old = [] \<and> ans = SysOk (length msg) \<and> p_done ?p \<noteq> None then [F_writeComplete (p_id ?p)] else []) @
      (let new = length (abacklog (abs_conn t)) in
       if length old < p_mark ?p \<and> p_mark ?p \<le> new \<and> p_high ?p \<noteq> None
       then [F_highWaterMark (p_id ?p) new] else [])" by simp_all
    from this[unfolded prof abs_conn_fields] show ?thesis unfolding Inr sum.case by (rule conjI)
  qed
qed

theorem send_in_order_with_notifications_witness:
  "case TcpConnection_send sample_os 100 0 ''abcdef'' sample_up of
     Inl err \<Rightarrow> err = Throw ''length_error'' | Inr t \<Rightarrow> conn_stream t = conn_stream sample_up @ ''abcdef''"
proof -
  have "conn_state (conn sample_up) = kConnected" using sample_up_facts(4) by (simp add: abs_conn_def)
  from send_in_order_with_notifications[OF sample_env sample_up_facts(1) this, of "''abcdef''" 0]
  show ?thesis by (auto simp: vec_max_def sample_os_def split: sum.splits)
qed

text \<open>C14: In every run of a well-formed connection, whatever the interleaving of its events, bytes
  enter its stream only at the end: the stream (accepted by the kernel, then waiting) is never
  reordered, shortened or changed.\<close>

theorem stream_only_grows:
  assumes "env_ok os" and "conn_ok tid s" and "(conn_next os tid (\<lambda>_. True))\<^sup>*\<^sup>* s t"
  shows "prefix (conn_stream s) (conn_stream t)"
  using grow.R_runs[OF conn_runs(1)[OF assms]] env_okD(2)[OF assms(1)] by (simp add: grows_def)

theorem stream_only_grows_witness: "prefix (conn_stream sample_new) (conn_stream sample_up)"
  using stream_only_grows[OF sample_env sample_new_ok sample_up_runs(2)] .







text \<open>The echo server sends back exactly what it received: after any sequence of socket events on
  an established connection, as long as no write failed with EPIPE or ECONNRESET, the bytes
  accepted by the kernel followed by the output buffer are the bytes read, in order, while the
  connection is up (and an initial part of them after it went down). No event makes the server
  fail, memory apart.\<close>

theorem echo_server_echoes:
  assumes "env_ok os" and "conn_ok tid s" and "echo_profile (profile_of s)"
    and "conn_state (conn s) = kConnected" and "sock_hist (conn s) = []"
    and "content (outputBuffer (conn s)) = []" and "content (inputBuffer (conn s)) = []"
    and "list_all io_event es"
  shows "case foldR (conn_step os tid) es s of
      Inl err \<Rightarrow> err = Throw ''length_error''
    | Inr t \<Rightarrow> reset_free (sock_hist (conn t)) \<longrightarrow>
        prefix (conn_stream t) (received (sock_hist (conn t))) \<and>
        (conn_state (conn t) = kConnected \<longrightarrow> conn_stream t = received (sock_hist (conn t)))"
proof -
  let ?P = "\<lambda>t. conn_ok tid t \<and> profile_of t = profile_of s \<and> echo_inv (abs_conn t)"
  have "?P s" using assms(2-7) by (simp add: echo_inv_def conn_stream_def)
  moreover have "safely (conn_step os tid e u) ?P" if e: "e \<in> set es" and u: "?P u" for e u
  proof -
    have io: "io_event e" using e assms(8) by (simp add: list_all_iff)
    then have ev: "event_ok (profile_of u) (strings u) (conn_state (conn u)) e"
      by (cases e rule: io_event.cases) simp_all
    have pu: "profile_ok (profile_of u)" "implements (profile_of u) tid (abs_conn u) u"
      using u unfolding conn_ok_def by blast+
    have "safely (conn_step os tid e u) (implements (profile_of u) tid
        (a_step os (profile_of u) (strings u) (readFd_iov (inputBuffer (conn u))) e (abs_conn u)))"
      using conn_step_implements[OF assms(1) pu] ev by simp
    moreover have "echo_inv (a_step os (profile_of u) (strings u) (readFd_iov (inputBuffer (conn u))) e (abs_conn u))"
      using echo_inv_step[OF env_okD(2)[OF assms(1)] _ _ io] u assms(3) by simp
    ultimately show ?thesis
      by (elim safely_mono) (use u pu in \<open>auto simp: implements_def stands_def conn_ok_def\<close>)
  qed
  ultimately have "safely (foldR (conn_step os tid) es s) ?P" by (rule safely_foldR)
  then show ?thesis by (cases "foldR (conn_step os tid) es s") (auto simp: echo_inv_def)
qed

theorem echo_server_echoes_witness:
  "case foldR (conn_step sample_os 100)
       [Invoke (ConnHandleRead 5) 0, Invoke (ConnHandleWrite 5) 0, Invoke (ConnHandleRead 5) 1] sample_up of
      Inl err \<Rightarrow> err = Throw ''length_error''
    | Inr t \<Rightarrow> reset_free (sock_hist (conn t)) \<longrightarrow> prefix (conn_stream t) (received (sock_hist (conn t)))"
proof -
  have up: "conn_state (conn sample_up) = kConnected" "sock_hist (conn sample_up) = []"
    "content (outputBuffer (conn sample_up)) = []" "content (inputBuffer (conn sample_up)) = []"
    using sample_up_facts(4) by (simp_all add: abs_conn_def)
  have "echo_profile (profile_of sample_up)" by (simp add: sample_up_facts(2) sample_new_facts(3))
  from echo_server_echoes[OF sample_env sample_up_facts(1) this up,
      of "[Invoke (ConnHandleRead 5) 0, Invoke (ConnHandleWrite 5) 0, Invoke (ConnHandleRead 5) 1]"]
  show ?thesis by (auto split: sum.splits)
qed

lemma a_notify_disconnected:
  assumes "astate a = kDisconnected"
  shows "astate (a_notify os p a) = kDisconnected" "stream (a_notify os p a) = stream a"
    "anotices (a_notify os p a) = anotices a" "atasks (a_notify os p a) = atasks a"
proof -
  have call: "astate (a_call os p c b) = kDisconnected \<and> stream (a_call os p c b) = stream b \<and>
      anotices (a_call os p c b) = anotices b \<and> atasks (a_call os p c b) = atasks b" if "astate b = kDisconnected" for c b
    using that by (cases c) (simp_all add: a_shutdown_def)
  have "astate (a_script os p cs b) = kDisconnected \<and> stream (a_script os p cs b) = stream b \<and>
      anotices (a_script os p cs b) = anotices b \<and> atasks (a_script os p cs b) = atasks b" if "astate b = kDisconnected" for cs b
    using that unfolding a_script_def by (induction cs arbitrary: b) (auto simp: call)
  then show "astate (a_notify os p a) = kDisconnected" "stream (a_notify os p a) = stream a"
    "anotices (a_notify os p a) = anotices a" "atasks (a_notify os p a) = atasks a"
    using assms by (simp_all add: a_notify_def)
qed

text \<open>When the peer closes (an empty read), the connection becomes kDisconnected, its channel stops
  waiting for events, the close callback is called once, after the connection callback, and the
  byte stream is left as it was.\<close>

theorem end_of_file_closes_once:
  assumes "env_ok os" and "conn_ok tid s"
    and "sys_readv os (sockfd (conn s)) (sock_hist (conn s)) (readFd_iov (inputBuffer (conn s))) = SysOk []"
  shows "case TcpConnection_handleRead os tid now s of
      Inl err \<Rightarrow> err = Throw ''length_error''
    | Inr t \<Rightarrow> conn_state (conn t) = kDisconnected \<and> upcalls t = upcalls s @ [conn_id (conn s)] \<and>
        conn_stream t = conn_stream s \<and> \<not> writing t"
proof -
  let ?p = "profile_of s" and ?a = "abs_conn s" and ?iov = "readFd_iov (inputBuffer (conn s))"
  have p: "profile_ok ?p" "implements ?p tid ?a s" using assms(2) by (simp_all add: conn_ok_def)
  note prof = stands_simps(1,2)[OF implementsD(1)[OF p(2)], symmetric]
  let ?b = "(a_push (Got ?iov (SysOk [])) ?a)\<lparr>astate := kDisconnected\<rparr>"
  let ?c = "a_notify os ?p ?b"
  have read: "a_read os ?p ?iov now ?a = ?c\<lparr>anotices := anotices ?c @ [p_id ?p]\<rparr>"
    using assms(3) by (simp add: a_read_def a_close_def prof Let_def)
  have facts: "astate ?c = kDisconnected" "stream ?c = conn_stream s" "anotices ?c = upcalls s"
    using a_notify_disconnected[of ?b os ?p] by (simp_all add: a_push_def stream_def conn_stream_def)
  have "safely (TcpConnection_handleRead os tid now s) (implements ?p tid (a_read os ?p ?iov now ?a))"
    by (rule handleRead_implements[OF assms(1) p])
  then show ?thesis
  proof (cases "TcpConnection_handleRead os tid now s")
    case (Inr t)
    assume "safely (TcpConnection_handleRead os tid now s) (implements ?p tid (a_read os ?p ?iov now ?a))"
    then have t: "implements ?p tid (?c\<lparr>anotices := anotices ?c @ [p_id ?p]\<rparr>) t" using Inr read by simp
    then have "abs_conn t = ?c\<lparr>anotices := anotices ?c @ [p_id ?p]\<rparr>" by (simp add: implements_def stands_def)
    then have "astate (abs_conn t) = kDisconnected" "anotices (abs_conn t) = upcalls s @ [p_id ?p]"
      "stream (abs_conn t) = conn_stream s" using facts by simp_all
    then show ?thesis using Inr t facts(1) by (simp add: prof implements_def a_idle_def)
  qed simp
qed

definition sample_eof :: os where
  "sample_eof = sample_os\<lparr>sys_readv := \<lambda>fd h lens. SysOk []\<rparr>"

theorem end_of_file_closes_once_witness:
  "case TcpConnection_handleRead sample_eof 100 0 sample_up of
     Inl err \<Rightarrow> err = Throw ''length_error'' | Inr t \<Rightarrow> conn_state (conn t) = kDisconnected"
proof -
  have "env_ok sample_eof"
    using sample_os_doc by (simp add: sample_eof_def env_ok_def write_doc_def readv_doc_def ctl_doc_def)
  from end_of_file_closes_once[OF this sample_up_facts(1), of 0] show ?thesis
    by (cases "TcpConnection_handleRead sample_eof 100 0 sample_up") (simp_all add: sample_eof_def)
qed

lemma removeChannel_unwatches:
  assumes "ctl_doc os" and "implements p tid a s"
  shows "\<exists>L. EventLoop_removeChannel os (conn_channel (conn s)) (cloop s) = Inr L \<and>
    watched (el_poller L) (p_fd p) = None \<and> channelMap (el_poller L) (p_fd p) = None"
proof -
  let ?P = "el_poller (cloop s)" and ?q = "conn_channel (conn s)"
  from assms(2) obtain ch where ch: "chans ?P ?q = Some ch" "ch_fd ch = p_fd p"
      "fd_free ?P ?q (ch_fd ch)" "poller_ok ?P"
    by (auto simp: implements_def stands_def chan_live_def profile_of_def)
  from removeChannel_effect[OF assms(1) ch(4,1,3)] ch(2) show ?thesis
    by (auto simp: EventLoop_removeChannel_def with_poller_def)
qed

lemma connectDestroyed_unmaps:
  assumes "env_ok os" and "conn_ok tid s"
  shows "safely (connectDestroyed os tid s) (\<lambda>t. watched (el_poller (cloop t)) (sockfd (conn s)) = None \<and>
      channelMap (el_poller (cloop t)) (sockfd (conn s)) = None \<and> conn_state (conn t) \<noteq> kConnected)"
proof -
  let ?p = "profile_of s"
  have p: "profile_ok ?p" "implements ?p tid (abs_conn s) s" "p_fd ?p = sockfd (conn s)"
    using assms(2) by (simp_all add: conn_ok_def profile_of_def)
  have "safely (if conn_state (conn s) = kConnected
      then bindR (conn_interest os DisableAll (setState kDisconnected s)) (call_connectionCallback os tid)
      else Inr s) (implements ?p tid (a_destroyed os ?p (abs_conn s)))"
    using safely_seq[OF disconnect_implements[OF env_okD(1)[OF assms(1)] p(2)]
        call_connectionCallback_implements[OF assms(1) p(1)]] p(2)
    by (simp add: a_destroyed_def)
  then show ?thesis
    unfolding connectDestroyed_def p(3)[symmetric]
  proof (rule safely_seq)
    fix u
    assume u: "implements ?p tid (a_destroyed os ?p (abs_conn s)) u"
    have "astate (a_destroyed os ?p (abs_conn s)) \<noteq> kConnected"
      using a_notify_disconnected(1)[of "(abs_conn s)\<lparr>astate := kDisconnected\<rparr>"] by (simp add: a_destroyed_def)
    with stands_simps(9)[OF implementsD(1)[OF u]] removeChannel_unwatches[OF env_okD(1)[OF assms(1)] u]
    show "safely (bindR (EventLoop_removeChannel os (conn_channel (conn u)) (cloop u)) (\<lambda>L. Inr (u\<lparr>cloop := L\<rparr>)))
        (\<lambda>t. watched (el_poller (cloop t)) (p_fd ?p) = None \<and>
          channelMap (el_poller (cloop t)) (p_fd ?p) = None \<and> conn_state (conn t) \<noteq> kConnected)"
      by auto
  qed
qed

text \<open>ConnectDestroyed, from any state of the life cycle, leaves nothing of the connection in the
  poller: neither epoll nor the channel map know its descriptor any more, and the connection is
  not kConnected.\<close>

theorem connectDestroyed_unwatches:
  assumes "env_ok os" and "conn_ok tid s"
  shows "case connectDestroyed os tid s of
      Inl err \<Rightarrow> err = Throw ''length_error''
    | Inr t \<Rightarrow> watched (el_poller (cloop t)) (sockfd (conn s)) = None \<and>
        channelMap (el_poller (cloop t)) (sockfd (conn s)) = None \<and> conn_state (conn t) \<noteq> kConnected"
  using connectDestroyed_unmaps[OF assms] by (cases "connectDestroyed os tid s") simp_all

theorem connectDestroyed_unwatches_witness:
  "case connectDestroyed sample_os 100 sample_up of
     Inl err \<Rightarrow> err = Throw ''length_error''
   | Inr t \<Rightarrow> watched (el_poller (cloop t)) (sockfd (conn sample_up)) = None"
  using connectDestroyed_unwatches[OF sample_env sample_up_facts(1)] by (auto split: sum.splits)

text \<open>C40: send from another thread hands over the address of the caller's characters, not the
  characters: when the caller's string is gone before the loop runs the task, the task reads
  freed memory.\<close>

theorem remote_send_may_dangle:
  assumes "conn_state (conn s) = kConnected" and "threadId (cloop s) \<noteq> tid"
  shows "\<exists>t. TcpConnection_send os tid addr msg s = Inr t \<and>
    pendingFunctors (cloop t) = pendingFunctors (cloop s) @ [F_sendInLoop (conn_id (conn s)) addr (length msg)] \<and>
    conn_functor os (threadId (cloop s)) (F_sendInLoop (conn_id (conn s)) addr (length msg))
      (t\<lparr>strings := (strings t)(addr := None)\<rparr>) = Inl (UB ''dangling const char*'')"
  using assms
  by (simp add: TcpConnection_send_def runInLoop_def isInLoopThread_def upd_loop_def run_sendInLoop_def)

theorem remote_send_may_dangle_witness:
  "\<exists>t. TcpConnection_send sample_os 101 200 ''late'' sample_up = Inr t \<and>
    conn_functor sample_os (threadId (cloop sample_up)) (F_sendInLoop (conn_id (conn sample_up)) 200 (length ''late''))
      (t\<lparr>strings := (strings t)(200 := None)\<rparr>) = Inl (UB ''dangling const char*'')"
proof -
  have "conn_state (conn sample_up) = kConnected" "threadId (cloop sample_up) \<noteq> 101"
    using sample_up_facts(1,4) by (simp_all add: abs_conn_def conn_ok_def implements_def stands_def)
  from remote_send_may_dangle[OF this, of sample_os 200 "''late''"] show ?thesis by auto
qed

text \<open>The server establishes a connection with an empty std::function when the user never set a
  connection callback: connectEstablished then throws bad_function_call.\<close>

theorem established_without_callback_throws:
  assumes "ctl_doc os" and "implements p tid a s" and "p_conn p = None"
  shows "connectEstablished os tid s = Inl (Throw ''bad_function_call'')"
proof -
  let ?s = "setState kConnected s"
  note st1 = stands_steps(2)[OF implementsD(1)[OF assms(2)], of kConnected]
  obtain ch where ch: "chan_of ?s = Inr ch"
      "chans (el_poller (cloop ?s)) (conn_channel (conn ?s)) = Some ch"
    using chan_of_stands[OF st1] by blast
  note st2 = tie_stands[OF st1 ch(2), of "conn_id (conn ?s)"]
  from conn_interest_stands[OF assms(1) st2(1), of EnableReading] obtain t where
    t: "conn_interest os EnableReading (upd_loop (\<lambda>L. L\<lparr>el_poller := store (conn_channel (conn ?s))
                 (Channel_tie (conn_id (conn ?s)) ch) (el_poller L)\<rparr>) ?s) = Inr t"
       "stands p tid (a\<lparr>astate := kConnected\<rparr>) t" by blast
  then show ?thesis using ch(1) assms(3) stands_simps(3)[OF t(2)]
    by (simp add: connectEstablished_def call_connectionCallback_def Let_def)
qed

theorem established_without_callback_throws_witness:
  "connectEstablished sample_os 100 (upd_conn (\<lambda>c. c\<lparr>connectionCallback := None\<rparr>) sample_new) =
     Inl (Throw ''bad_function_call'')"
proof -
  let ?s = "upd_conn (\<lambda>c. c\<lparr>connectionCallback := None\<rparr>) sample_new"
  have "implements ((profile_of sample_new)\<lparr>p_conn := None\<rparr>) 100 (abs_conn sample_new) ?s"
    using sample_new_facts(1)
    by (auto simp: implements_def stands_def profile_of_def abs_conn_def upd_conn_def chan_live_def writing_def)
  from established_without_callback_throws[OF sample_os_doc(3) this] show ?thesis by simp
qed

end
