(* ===== verification/Acceptor.thy ===== *)
theory Acceptor
  imports EventLoop InetAddress
begin

text \<open>
  \<open>include/Socket.h\<close>, \<open>src/Socket.cpp\<close>, \<open>include/Acceptor.h\<close> and \<open>src/Acceptor.cpp\<close>: the
  wrapper of a socket descriptor and the listening side of the server. The answers of the
  socket calls are arguments; \<open>shutdownWrite\<close> is in \<open>TcpConnection\<close>, with the history of its
  socket.
\<close>

section \<open>Socket\<close>

text \<open>\<open>sock_options\<close> lists the \<open>setsockopt\<close> calls, whose answers the code ignores.\<close>

datatype sock_option = TCP_NODELAY | SO_REUSEADDR | SO_REUSEPORT | SO_KEEPALIVE

record socket =
  sock_fd :: fd
  sock_options :: "(sock_option \<times> int) list"
  sock_bound :: "sockaddr_in option"
  sock_listening :: bool

definition Socket_new :: "fd \<Rightarrow> socket" where
  "Socket_new fd = \<lparr>sock_fd = fd, sock_options = [], sock_bound = None, sock_listening = False\<rparr>"

definition set_option :: "sock_option \<Rightarrow> bool \<Rightarrow> socket \<Rightarrow> socket" where
  "set_option opt on s =
     (let optval = (if on then 1 else 0) in s\<lparr>sock_options := sock_options s @ [(opt, optval)]\<rparr>)"

definition setTcpNoDelay :: "bool \<Rightarrow> socket \<Rightarrow> socket" where
  "setTcpNoDelay = set_option TCP_NODELAY"

definition setReuseAddr :: "bool \<Rightarrow> socket \<Rightarrow> socket" where
  "setReuseAddr = set_option SO_REUSEADDR"

definition setReusePort :: "bool \<Rightarrow> socket \<Rightarrow> socket" where
  "setReusePort = set_option SO_REUSEPORT"

definition setKeepAlive :: "bool \<Rightarrow> socket \<Rightarrow> socket" where
  "setKeepAlive = set_option SO_KEEPALIVE"

definition bindAddress :: "int \<Rightarrow> sockaddr_in \<Rightarrow> socket \<Rightarrow> socket res" where
  "bindAddress ret localaddr s =
     (if 0 \<noteq> ret then Inl (Exit ''bind sockfd:%d fail'') else Inr (s\<lparr>sock_bound := Some localaddr\<rparr>))"

definition Socket_listen :: "int \<Rightarrow> socket \<Rightarrow> socket res" where
  "Socket_listen ret s =
     (if 0 \<noteq> ret then Inl (Exit ''listen sockfd:%d fail'') else Inr (s\<lparr>sock_listening := True\<rparr>))"

text \<open>\<open>accept4\<close> answers with a descriptor (or -1) and the address of the peer.\<close>

definition Socket_accept :: "int \<times> sockaddr_in \<Rightarrow> sockaddr_in \<Rightarrow> int \<times> sockaddr_in" where
  "Socket_accept answer peeraddr =
     (let connfd = fst answer in (connfd, if connfd \<ge> 0 then snd answer else peeraddr))"

definition zero_addr :: sockaddr_in where
  "zero_addr = \<lparr>sin_family = 0, sin_port = 0, s_addr = 0\<rparr>"

definition sockfd_To_SockAddr :: "sockaddr_in option \<Rightarrow> sockaddr_in" where
  "sockfd_To_SockAddr getsockname = (case getsockname of None \<Rightarrow> zero_addr | Some a \<Rightarrow> a)"

section \<open>Acceptor\<close>

text \<open>\<open>newConnectionCallback\<close> tells whether the callback is set (the server's \<open>newConnection\<close>).\<close>

record acceptor =
  acceptSocket :: socket
  acceptChannel :: ptr
  newConnectionCallback :: bool
  listenning :: bool

text \<open>\<open>createNonblocking\<close> ends without a return statement.\<close>

definition createNonblocking :: "int \<Rightarrow> fd res" where
  "createNonblocking sockfd =
     (if sockfd < 0 then Inl (Exit ''%s:%s:%d listen socket create err:%d'')
      else Inl (UB ''missing return''))"

text \<open>The constructor, once it has a descriptor; its channel is at address \<open>cp\<close>.\<close>

definition Acceptor_init ::
    "int \<Rightarrow> sockaddr_in \<Rightarrow> bool \<Rightarrow> ptr \<Rightarrow> event_loop \<Rightarrow> fd \<Rightarrow> (acceptor \<times> event_loop) res" where
  "Acceptor_init bindret listenAddr reuseport cp L fd =
     bindR (bindAddress bindret listenAddr (setReusePort reuseport (setReuseAddr True (Socket_new fd)))) (\<lambda>sock.
       Inr (\<lparr>acceptSocket = sock, acceptChannel = cp, newConnectionCallback = False, listenning = False\<rparr>,
            L\<lparr>el_poller := store cp ((Channel_new fd)\<lparr>readCallback := Some AcceptorHandleRead\<rparr>) (el_poller L)\<rparr>))"

definition Acceptor_new ::
    "int \<Rightarrow> int \<Rightarrow> sockaddr_in \<Rightarrow> bool \<Rightarrow> ptr \<Rightarrow> event_loop \<Rightarrow> (acceptor \<times> event_loop) res" where
  "Acceptor_new sockfd bindret listenAddr reuseport cp L =
     bindR (createNonblocking sockfd) (Acceptor_init bindret listenAddr reuseport cp L)"

definition setNewConnectionCallback :: "bool \<Rightarrow> acceptor \<Rightarrow> acceptor" where
  "setNewConnectionCallback cb a = a\<lparr>newConnectionCallback := cb\<rparr>"

definition Acceptor_listen :: "os \<Rightarrow> int \<Rightarrow> acceptor \<times> event_loop \<Rightarrow> (acceptor \<times> event_loop) res" where
  "Acceptor_listen os listenret aL =
     (case aL of (a, L) \<Rightarrow>
        let a1 = a\<lparr>listenning := True\<rparr> in
        bindR (Socket_listen listenret (acceptSocket a1)) (\<lambda>sock.
        bindR (set_interest os EnableReading (acceptChannel a1) L) (\<lambda>L1.
          Inr (a1\<lparr>acceptSocket := sock\<rparr>, L1))))"

definition Acceptor_delete :: "os \<Rightarrow> acceptor \<Rightarrow> event_loop \<Rightarrow> event_loop res" where
  "Acceptor_delete os a L =
     bindR (set_interest os DisableAll (acceptChannel a) L) (EventLoop_removeChannel os (acceptChannel a))"

text \<open>
  \<open>handleRead\<close>: \<open>on_new\<close> is the callback, \<open>on_close\<close> the closing of the new descriptor.
\<close>

definition Acceptor_handleRead ::
    "int \<times> sockaddr_in \<Rightarrow> (fd \<Rightarrow> sockaddr_in \<Rightarrow> 's \<Rightarrow> 's res) \<Rightarrow> (fd \<Rightarrow> 's \<Rightarrow> 's) \<Rightarrow> acceptor \<Rightarrow> 's \<Rightarrow> 's res" where
  "Acceptor_handleRead answer on_new on_close a s =
     (case Socket_accept answer zero_addr of (connfd, peerAddr) \<Rightarrow>
        if connfd \<ge> 0
        then (if newConnectionCallback a then on_new connfd peerAddr s else Inr (on_close connfd s))
        else Inr s)"

section \<open>Facts\<close>

text \<open>The acceptor's channel, by the contract of the poller.\<close>

definition acceptor_ok :: "acceptor \<Rightarrow> event_loop \<Rightarrow> bool" where
  "acceptor_ok a L \<longleftrightarrow> poller_ok (el_poller L) \<and>
     (case chans (el_poller L) (acceptChannel a) of
        None \<Rightarrow> False
      | Some ch \<Rightarrow> ch_fd ch = sock_fd (acceptSocket a) \<and> ch_events ch = (if listenning a then kReadEvent else 0) \<and>
          ch_index ch = (if listenning a then kAdded else kNew) \<and>
          fd_free (el_poller L) (acceptChannel a) (ch_fd ch))"

lemma acceptor_okE:
  assumes "acceptor_ok a L"
  obtains ch where "poller_ok (el_poller L)" "chans (el_poller L) (acceptChannel a) = Some ch"
    "ch_fd ch = sock_fd (acceptSocket a)" "ch_events ch = (if listenning a then kReadEvent else 0)"
    "ch_index ch = (if listenning a then kAdded else kNew)"
    "fd_free (el_poller L) (acceptChannel a) (ch_fd ch)"
  using assms by (auto simp: acceptor_ok_def split: option.splits)

lemma poller_ok_new_channel:
  assumes "poller_ok P" and "chans P cp = None" and "ch_index ch = kNew"
  shows "poller_ok (store cp ch P)"
proof -
  have unmapped: "channelMap P fd \<noteq> Some cp" for fd
    using poller_okD(2)[OF assms(1), of fd cp] assms(2) by auto
  have "chan_ok (store cp ch P) q d = chan_ok P q d" for q d by (simp add: chan_ok_def)
  moreover have "chan_ok (store cp ch P) cp ch" using assms(3) unmapped by (simp add: chan_ok_def)
  moreover have "\<exists>d. chans (store cp ch P) q = Some d \<and> ch_fd d = fd" if "channelMap P fd = Some q" for q fd
    using poller_okD(2)[OF assms(1) that] unmapped that by (cases "q = cp") auto
  ultimately show ?thesis using poller_okD(1,3)[OF assms(1)] by (auto simp: poller_ok_def)
qed

lemma Acceptor_init_ok:
  assumes "poller_ok (el_poller L)" and "chans (el_poller L) cp = None" and "channelMap (el_poller L) fd = None"
    and "Acceptor_init bindret addr reuseport cp L fd = Inr (a, L')"
  shows "acceptor_ok a L'" "watched (el_poller L') = watched (el_poller L)"
    "sock_fd (acceptSocket a) = fd" "\<not> listenning a" "acceptChannel a = cp"
proof -
  have ok: "poller_ok (store cp ((Channel_new fd)\<lparr>readCallback := Some AcceptorHandleRead\<rparr>) (el_poller L))"
    using assms(1,2) by (intro poller_ok_new_channel) (simp_all add: Channel_new_def kNew_def)
  show "acceptor_ok a L'" "watched (el_poller L') = watched (el_poller L)"
    "sock_fd (acceptSocket a) = fd" "\<not> listenning a" "acceptChannel a = cp"
    using assms(3,4) ok
    by (auto simp: Acceptor_init_def bindAddress_def setReusePort_def setReuseAddr_def set_option_def
        Socket_new_def acceptor_ok_def fd_free_def watched_def Channel_new_def kNew_def split: if_splits)
qed

lemma Acceptor_listen_ok:
  assumes "ctl_doc os" and "acceptor_ok a L" and "\<not> listenning a"
  shows "\<exists>a' L'. Acceptor_listen os 0 (a, L) = Inr (a', L') \<and> acceptor_ok a' L' \<and> listenning a' \<and>
    sock_fd (acceptSocket a') = sock_fd (acceptSocket a) \<and>
    watched (el_poller L') = (watched (el_poller L))(sock_fd (acceptSocket a) \<mapsto> (kReadEvent, acceptChannel a))"
proof -
  from assms(2) obtain ch where ch: "poller_ok (el_poller L)" "chans (el_poller L) (acceptChannel a) = Some ch"
    "ch_fd ch = sock_fd (acceptSocket a)" "ch_events ch = 0" "ch_index ch = kNew"
    "fd_free (el_poller L) (acceptChannel a) (ch_fd ch)"
    using assms(3) by (auto elim: acceptor_okE)
  from epoll.set_law[OF conjI[OF assms(1) ch(1)] ch(2,6), of EnableReading] obtain P where
    P: "Channel_set_interest os EnableReading (acceptChannel a) (el_poller L) = Inr P" "poller_ok P"
      "fd_free P (acceptChannel a) (ch_fd ch)"
      "chans P (acceptChannel a) = Some (set_index kAdded (change_events EnableReading ch))"
      "watched P = (watched (el_poller L))(ch_fd ch \<mapsto> (kReadEvent, acceptChannel a))"
    using ch(4,5) by (auto simp: index_after_def watched_after_def)
  let ?a = "a\<lparr>listenning := True, acceptSocket := (acceptSocket a)\<lparr>sock_listening := True\<rparr>\<rparr>"
  have "Acceptor_listen os 0 (a, L) = Inr (?a, L\<lparr>el_poller := P\<rparr>)"
    using P(1) by (simp add: Acceptor_listen_def Socket_listen_def set_interest_def with_poller_def)
  moreover have "acceptor_ok ?a (L\<lparr>el_poller := P\<rparr>)" using P ch by (simp add: acceptor_ok_def)
  ultimately show ?thesis using P(5) ch(3) by (intro exI[of _ ?a] exI[of _ "L\<lparr>el_poller := P\<rparr>"]) simp
qed

lemma Acceptor_delete_ok:
  assumes "ctl_doc os" and "acceptor_ok a L"
  shows "\<exists>L'. Acceptor_delete os a L = Inr L' \<and> poller_ok (el_poller L') \<and>
    watched (el_poller L') = (watched (el_poller L))(sock_fd (acceptSocket a) := None)"
proof -
  obtain ch where ch: "poller_ok (el_poller L)" "chans (el_poller L) (acceptChannel a) = Some ch"
    "ch_fd ch = sock_fd (acceptSocket a)" "fd_free (el_poller L) (acceptChannel a) (ch_fd ch)"
    using assms(2) by (rule acceptor_okE)
  from epoll.set_law[OF conjI[OF assms(1) ch(1)] ch(2,4), of DisableAll] obtain P where
    P: "Channel_set_interest os DisableAll (acceptChannel a) (el_poller L) = Inr P" "ctl_doc os \<and> poller_ok P"
      "fd_free P (acceptChannel a) (ch_fd ch)" "\<exists>c. chans P (acceptChannel a) = Some c \<and> ch_fd c = ch_fd ch"
      "watched P = (watched (el_poller L))(ch_fd ch := watched_after (acceptChannel a) (change_events DisableAll ch))"
    by auto
  then obtain c where c: "chans P (acceptChannel a) = Some c" "ch_fd c = ch_fd ch" by blast
  from epoll.remove_law[OF P(2) c(1)] P(3) c(2) obtain P2 where
    "EPollPoller_removeChannel os (acceptChannel a) P = Inr P2" "poller_ok P2"
    "watched P2 = (watched P)(ch_fd ch := None)" by auto
  with P(1,5) ch(3) show ?thesis
    by (simp add: Acceptor_delete_def set_interest_def EventLoop_removeChannel_def with_poller_def)
qed

section \<open>Properties\<close>

text \<open>C27: The listening socket is watched for exactly the time between listen() and the destruction of
  the acceptor: constructing the acceptor on a descriptor watches nothing, listen() makes epoll
  watch it for reading, the destructor leaves epoll as it was before listen().\<close>

theorem Acceptor_watched_while_listening:
  assumes "ctl_doc os" and "poller_ok (el_poller L)" and "chans (el_poller L) cp = None"
    and "channelMap (el_poller L) fd = None"
  shows "\<exists>a1 L1 a2 L2 L3. Acceptor_init 0 addr reuseport cp L fd = Inr (a1, L1) \<and>
    Acceptor_listen os 0 (a1, L1) = Inr (a2, L2) \<and> Acceptor_delete os a2 L2 = Inr L3 \<and>
    watched (el_poller L1) = watched (el_poller L) \<and>
    watched (el_poller L2) = (watched (el_poller L))(fd \<mapsto> (kReadEvent, cp)) \<and>
    watched (el_poller L3) = watched (el_poller L)"
proof -
  obtain a1 L1 where init: "Acceptor_init 0 addr reuseport cp L fd = Inr (a1, L1)"
    by (simp add: Acceptor_init_def bindAddress_def)
  note i = Acceptor_init_ok[OF assms(2-4) init]
  obtain a2 L2 where l: "Acceptor_listen os 0 (a1, L1) = Inr (a2, L2)" "acceptor_ok a2 L2"
    "sock_fd (acceptSocket a2) = fd" "watched (el_poller L2) = (watched (el_poller L))(fd \<mapsto> (kReadEvent, cp))"
    using Acceptor_listen_ok[OF assms(1) i(1,4)] i(2,3,5) by auto
  obtain L3 where d: "Acceptor_delete os a2 L2 = Inr L3"
    "watched (el_poller L3) = (watched (el_poller L2))(fd := None)"
    using Acceptor_delete_ok[OF assms(1) l(2)] l(3) by auto
  have "watched (el_poller L) fd = None" using poller_okD(3)[OF assms(2,4)] by (simp add: watched_def)
  with init i(2) l d show ?thesis by (auto simp: fun_upd_idem)
qed

theorem Acceptor_watched_while_listening_witness:
  "\<exists>a1 L1 a2 L2. Acceptor_init 0 zero_addr True 9 sample_loop 6 = Inr (a1, L1) \<and>
    Acceptor_listen sample_os 0 (a1, L1) = Inr (a2, L2) \<and> watched (el_poller L2) = [6 \<mapsto> (kReadEvent, 9)]"
  using Acceptor_watched_while_listening[OF sample_os_doc(3), of sample_loop 9 6 zero_addr True]
  by auto

text \<open>HandleRead never leaks a descriptor: an accepted one goes to the callback with the peer's
  address, or is closed when no callback is set; a failed accept changes nothing.\<close>

theorem Acceptor_handleRead_no_leak:
  "Acceptor_handleRead (connfd, peer) on_new on_close a s =
     (if connfd < 0 then Inr s
      else if newConnectionCallback a then on_new connfd peer s else Inr (on_close connfd s))"
  by (simp add: Acceptor_handleRead_def Socket_accept_def)

text \<open>As the code stands no acceptor can be constructed: createNonblocking either ends the process
  or falls off its end without returning the descriptor.\<close>

theorem Acceptor_new_never_succeeds:
  "Acceptor_new sockfd bindret addr reuseport cp L =
     Inl (if sockfd < 0 then Exit ''%s:%s:%d listen socket create err:%d'' else UB ''missing return'')"
  by (simp add: Acceptor_new_def createNonblocking_def)

end
