(* ===== verification/TcpServer.thy ===== *)
theory TcpServer
  imports Acceptor EventLoopThreadPool TcpConnection "HOL-Library.AList"
begin

text \<open>
  \<open>include/TcpServer.h\<close> and \<open>src/TcpServer.cpp\<close>: the server object and the state it works in.
  A \<open>world\<close> holds the server, the event loops by address, the connection objects by identity
  and the heap of strings; an operation of the server runs in the thread \<open>tid\<close>, and reaches a
  loop of another thread only through its task queue.
\<close>

section \<open>State\<close>

text \<open>
  \<open>connections\<close> is the \<open>unordered_map\<close> from names to connections; the order in which the
  destructor walks it is that of the list.
\<close>

record tcp_server =
  srv_loop :: ptr
  ipPort :: string
  srv_name :: string
  srv_acceptor :: acceptor
  threadPool :: thread_pool
  srv_connectionCallback :: "(StateE \<Rightarrow> api list) option"
  srv_messageCallback :: "(StateE \<Rightarrow> char list \<Rightarrow> timestamp \<Rightarrow> api list) option"
  srv_writeCompleteCallback :: "(StateE \<Rightarrow> api list) option"
  threadInitCallback :: bool
  started :: int
  nextConnId :: int
  connections :: "(string \<times> nat) list"

text \<open>\<open>open_fds\<close>: the descriptors that \<open>accept4\<close> has returned and that nobody has closed.\<close>

record world =
  srv :: tcp_server
  wloops :: "ptr \<rightharpoonup> event_loop"
  wconns :: "nat \<rightharpoonup> tcp_conn"
  wstrings :: "ptr \<rightharpoonup> char list"
  open_fds :: "fd set"

definition loop_at :: "ptr \<Rightarrow> world \<Rightarrow> event_loop res" where
  "loop_at p w = (case wloops w p of None \<Rightarrow> Inl (UB ''dangling EventLoop*'') | Some L \<Rightarrow> Inr L)"

definition conn_at :: "nat \<Rightarrow> world \<Rightarrow> tcp_conn res" where
  "conn_at i w = (case wconns w i of None \<Rightarrow> Inl (UB ''dangling TcpConnection*'') | Some c \<Rightarrow> Inr c)"

definition get_loop :: "ptr \<Rightarrow> world \<Rightarrow> event_loop" where
  "get_loop p w = the (wloops w p)"

definition upd_loop_at :: "ptr \<Rightarrow> (event_loop \<Rightarrow> event_loop) \<Rightarrow> world \<Rightarrow> world" where
  "upd_loop_at p f w = w\<lparr>wloops := (wloops w)(p \<mapsto> f (get_loop p w))\<rparr>"

definition upd_srv :: "(tcp_server \<Rightarrow> tcp_server) \<Rightarrow> world \<Rightarrow> world" where
  "upd_srv f w = w\<lparr>srv := f (srv w)\<rparr>"

text \<open>\<open>runInLoop\<close> on the loop at \<open>p\<close>: \<open>run\<close> is what the closure \<open>F\<close> does.\<close>

definition run_in_loop_at :: "ptr \<Rightarrow> int \<Rightarrow> Functor \<Rightarrow> (world \<Rightarrow> world res) \<Rightarrow> world \<Rightarrow> world res" where
  "run_in_loop_at p tid F run w =
     bindR (loop_at p w) (\<lambda>_. runInLoop (get_loop p) (upd_loop_at p) (\<lambda>_. run) tid F w)"

definition queue_in_loop_at :: "ptr \<Rightarrow> int \<Rightarrow> Functor \<Rightarrow> world \<Rightarrow> world res" where
  "queue_in_loop_at p tid F w = bindR (loop_at p w) (\<lambda>_. Inr (upd_loop_at p (queueInLoop tid F) w))"

section \<open>Construction\<close>

definition Server_CheckLoopNotNull :: "ptr option \<Rightarrow> ptr res" where
  "Server_CheckLoopNotNull loop =
     (case loop of None \<Rightarrow> Inl (Exit ''%s:%s:%d mainLoop is null!'') | Some l \<Rightarrow> Inr l)"

datatype ServerOption = kNoReusePort | kReusePort

text \<open>
  \<open>new_acceptor\<close> is what \<open>new Acceptor(loop, listenAddr, option == kReusePort)\<close> gives, with the
  answers of its system calls (\<open>Acceptor_new\<close>).
\<close>

definition TcpServer_new :: "ptr option \<Rightarrow> sockaddr_in \<Rightarrow> string \<Rightarrow> (bool \<Rightarrow> acceptor res) \<Rightarrow> ServerOption \<Rightarrow> tcp_server res" where
  "TcpServer_new loop listenAddr nameArg new_acceptor reuse =
     bindR (Server_CheckLoopNotNull loop) (\<lambda>l.
     bindR (new_acceptor (reuse = kReusePort)) (\<lambda>acc.
       Inr \<lparr>srv_loop = l, ipPort = toIpPort listenAddr, srv_name = nameArg,
            srv_acceptor = setNewConnectionCallback True acc,
            threadPool = EventLoopThreadPool_new l nameArg,
            srv_connectionCallback = None, srv_messageCallback = None, srv_writeCompleteCallback = None,
            threadInitCallback = False, started = 0, nextConnId = 1, connections = []\<rparr>))"

definition TcpServer_setThreadNum :: "int \<Rightarrow> tcp_server \<Rightarrow> tcp_server" where
  "TcpServer_setThreadNum n S = S\<lparr>threadPool := setThreadNum n (threadPool S)\<rparr>"

definition setThreadInitcallback :: "bool \<Rightarrow> tcp_server \<Rightarrow> tcp_server" where
  "setThreadInitcallback cb S = S\<lparr>threadInitCallback := cb\<rparr>"

definition Server_setConnectionCallback :: "(StateE \<Rightarrow> api list) option \<Rightarrow> tcp_server \<Rightarrow> tcp_server" where
  "Server_setConnectionCallback cb S = S\<lparr>srv_connectionCallback := cb\<rparr>"

definition Server_setMessageCallback ::
    "(StateE \<Rightarrow> char list \<Rightarrow> timestamp \<Rightarrow> api list) option \<Rightarrow> tcp_server \<Rightarrow> tcp_server" where
  "Server_setMessageCallback cb S = S\<lparr>srv_messageCallback := cb\<rparr>"

definition Server_setWriteCompleteCallback :: "(StateE \<Rightarrow> api list) option \<Rightarrow> tcp_server \<Rightarrow> tcp_server" where
  "Server_setWriteCompleteCallback cb S = S\<lparr>srv_writeCompleteCallback := cb\<rparr>"

section \<open>Removing connections\<close>

definition TcpServer_removeConnectionInLoop :: "int \<Rightarrow> nat \<Rightarrow> world \<Rightarrow> world res" where
  "TcpServer_removeConnectionInLoop tid i w =
     bindR (conn_at i w) (\<lambda>c.
       queue_in_loop_at (conn_loop c) tid (F_connectDestroyed i)
         (upd_srv (\<lambda>S. S\<lparr>connections := AList.delete (conn_name c) (connections S)\<rparr>) w))"

definition TcpServer_removeConnection :: "int \<Rightarrow> nat \<Rightarrow> world \<Rightarrow> world res" where
  "TcpServer_removeConnection tid i w =
     run_in_loop_at (srv_loop (srv w)) tid (F_removeConnectionInLoop i)
       (TcpServer_removeConnectionInLoop tid i) w"

text \<open>
  An operation of a connection, in the world: it works on the connection and its loop, and the
  close callback it calls at its end is \<open>removeConnection\<close>.
\<close>

definition on_conn :: "int \<Rightarrow> nat \<Rightarrow> (cstate \<Rightarrow> cstate res) \<Rightarrow> world \<Rightarrow> world res" where
  "on_conn tid i f w =
     bindR (conn_at i w) (\<lambda>c.
     bindR (loop_at (conn_loop c) w) (\<lambda>L.
     bindR (f \<lparr>conn = c, cloop = L, strings = wstrings w, upcalls = []\<rparr>) (\<lambda>s.
       foldR (TcpServer_removeConnection tid) (upcalls s)
         (w\<lparr>wconns := (wconns w)(i \<mapsto> conn s), wloops := (wloops w)(conn_loop c \<mapsto> cloop s)\<rparr>))))"

section \<open>Accepting connections\<close>

definition conn_name_of :: "tcp_server \<Rightarrow> string" where
  "conn_name_of S = srv_name S @ ''-'' @ ipPort S @ ''#'' @ to_string (nextConnId S)"

text \<open>
  \<open>obj\<close> and \<open>cp\<close> are the addresses of the new connection and of its channel, \<open>getsockname\<close>
  the answer of the system for the local address. \<open>nextConnId_\<close> is an \<open>int\<close>.
\<close>

definition TcpServer_newConnection ::
    "os \<Rightarrow> int \<Rightarrow> nat \<Rightarrow> ptr \<Rightarrow> sockaddr_in option \<Rightarrow> fd \<Rightarrow> sockaddr_in \<Rightarrow> world \<Rightarrow> world res" where
  "TcpServer_newConnection os tid obj cp getsockname connfd peerA w =
     bindR (loop_at (srv_loop (srv w)) w) (\<lambda>L0.
     bindR (assertInLoopThread tid L0) (\<lambda>_.
     bindR (getNextLoop (threadPool (srv w))) (\<lambda>(ioLoop, pool).
     let connName = conn_name_of (srv w) in
     if nextConnId (srv w) \<ge> 2147483647 then Inl (UB ''signed integer overflow'')
     else let w1 = upd_srv (\<lambda>S. S\<lparr>threadPool := pool, nextConnId := nextConnId S + 1\<rparr>) w;
              localA = sockfd_To_SockAddr getsockname in
     bindR (loop_at ioLoop w1) (\<lambda>L.
     bindR (TcpConnection_new (Some ioLoop) obj connName connfd cp localA peerA L) (\<lambda>(c, L1).
     let c1 = setCloseCallback True (setWriteCompleteCallback (srv_writeCompleteCallback (srv w))
                (setMessageCallback (srv_messageCallback (srv w))
                  (setConnectionCallback (srv_connectionCallback (srv w)) c)));
         w2 = upd_srv (\<lambda>S. S\<lparr>connections := AList.update connName obj (connections S)\<rparr>)
                (w1\<lparr>wconns := (wconns w1)(obj \<mapsto> c1), wloops := (wloops w1)(ioLoop \<mapsto> L1)\<rparr>)
     in run_in_loop_at ioLoop tid (F_connectEstablished obj)
          (on_conn tid obj (connectEstablished os tid)) w2)))))"

text \<open>
  \<open>Acceptor::handleRead\<close> with the server's \<open>newConnection\<close> as its callback: \<open>accept4\<close> opens the
  descriptor it answers with.
\<close>

definition accept4_effect :: "int \<times> sockaddr_in \<Rightarrow> world \<Rightarrow> world" where
  "accept4_effect answer w = (if fst answer \<ge> 0 then w\<lparr>open_fds := insert (fst answer) (open_fds w)\<rparr> else w)"

definition close_fd :: "fd \<Rightarrow> world \<Rightarrow> world" where
  "close_fd fd w = w\<lparr>open_fds := open_fds w - {fd}\<rparr>"

definition TcpServer_acceptable ::
    "os \<Rightarrow> int \<Rightarrow> int \<times> sockaddr_in \<Rightarrow> nat \<Rightarrow> ptr \<Rightarrow> sockaddr_in option \<Rightarrow> world \<Rightarrow> world res" where
  "TcpServer_acceptable os tid answer obj cp getsockname w =
     Acceptor_handleRead answer (TcpServer_newConnection os tid obj cp getsockname) close_fd
       (srv_acceptor (srv w)) (accept4_effect answer w)"

section \<open>Starting\<close>

text \<open>\<open>spawn i\<close> is the loop of the \<open>i\<close>-th thread that the pool starts: its address and the loop.\<close>

definition acceptor_listen_at :: "os \<Rightarrow> int \<Rightarrow> world \<Rightarrow> world res" where
  "acceptor_listen_at os listenret w =
     bindR (loop_at (srv_loop (srv w)) w) (\<lambda>L.
     bindR (Acceptor_listen os listenret (srv_acceptor (srv w), L)) (\<lambda>(a, L1).
       Inr (upd_srv (\<lambda>S. S\<lparr>srv_acceptor := a\<rparr>) (w\<lparr>wloops := (wloops w)(srv_loop (srv w) \<mapsto> L1)\<rparr>))))"

definition TcpServer_start :: "os \<Rightarrow> int \<Rightarrow> int \<Rightarrow> (nat \<Rightarrow> ptr \<times> event_loop) \<Rightarrow> world \<Rightarrow> world res" where
  "TcpServer_start os tid listenret spawn w =
     (let before = started (srv w); w0 = upd_srv (\<lambda>S. S\<lparr>started := before + 1\<rparr>) w in
      if before = 0
      then (let (pool, inits) = EventLoopThreadPool_start (fst \<circ> spawn) (threadInitCallback (srv w0))
                                  (threadPool (srv w0));
                w1 = upd_srv (\<lambda>S. S\<lparr>threadPool := pool\<rparr>)
                       (w0\<lparr>wloops := wloops w0 ++ map_of (map spawn [0..<nat (numThreads (threadPool (srv w0)))])\<rparr>)
            in run_in_loop_at (srv_loop (srv w1)) tid F_acceptorListen (acceptor_listen_at os listenret) w1)
      else Inr w0)"

section \<open>Destruction\<close>

text \<open>
  When the last \<open>shared_ptr\<close> to a connection goes: \<open>~TcpConnection\<close> asks the channel for its
  descriptor, for the log, and the members follow: the channel leaves the store (that of its
  loop, the model's place for it), the socket closes its descriptor.
\<close>

definition Channel_delete :: "ptr \<Rightarrow> event_loop \<Rightarrow> event_loop" where
  "Channel_delete p L = L\<lparr>el_poller := (el_poller L)\<lparr>chans := (chans (el_poller L))(p := None)\<rparr>\<rparr>"

definition Socket_delete :: "fd \<Rightarrow> world \<Rightarrow> world" where
  "Socket_delete fd w = close_fd fd w"

definition TcpConnection_delete :: "nat \<Rightarrow> world \<Rightarrow> world res" where
  "TcpConnection_delete i w =
     bindR (conn_at i w) (\<lambda>c.
     bindR (loop_at (conn_loop c) w) (\<lambda>L.
     bindR (deref (conn_channel c) (el_poller L)) (\<lambda>ch.
       Inr (Socket_delete (sockfd c)
              (upd_loop_at (conn_loop c) (Channel_delete (conn_channel c)) (w\<lparr>wconns := (wconns w)(i := None)\<rparr>))))))"

text \<open>
  A \<open>shared_ptr\<close> to connection \<open>i\<close> dies: \<open>alive w i\<close> tells whether in \<open>w\<close> another one exists.
\<close>

definition release :: "(world \<Rightarrow> nat \<Rightarrow> bool) \<Rightarrow> nat \<Rightarrow> world \<Rightarrow> world res" where
  "release alive i w = (if wconns w i = None \<or> alive w i then Inr w else TcpConnection_delete i w)"

text \<open>
  \<open>~TcpServer\<close>, item by item: the pointer in the map is reset (the model's map holds no null pointer,
  the entry goes), the task runs or is queued, the local pointer \<open>conn\<close> dies.
\<close>

definition destroy_item :: "os \<Rightarrow> int \<Rightarrow> (world \<Rightarrow> nat \<Rightarrow> bool) \<Rightarrow> string \<times> nat \<Rightarrow> world \<Rightarrow> world res" where
  "destroy_item os tid alive item w =
     bindR (conn_at (snd item) w) (\<lambda>c.
     bindR (run_in_loop_at (conn_loop c) tid (F_connectDestroyed (snd item))
              (on_conn tid (snd item) (connectDestroyed os tid))
              (upd_srv (\<lambda>S. S\<lparr>connections := AList.delete (fst item) (connections S)\<rparr>) w))
       (release alive (snd item)))"

definition TcpServer_delete :: "os \<Rightarrow> int \<Rightarrow> (world \<Rightarrow> nat \<Rightarrow> bool) \<Rightarrow> world \<Rightarrow> world res" where
  "TcpServer_delete os tid alive w = foldR (destroy_item os tid alive) (connections (srv w)) w"

section \<open>What a loop runs\<close>

fun world_functor :: "os \<Rightarrow> int \<Rightarrow> int \<Rightarrow> Functor \<Rightarrow> world \<Rightarrow> world res" where
  "world_functor os tid listenret (F_removeConnectionInLoop i) w = TcpServer_removeConnectionInLoop tid i w"
| "world_functor os tid listenret F_acceptorListen w = acceptor_listen_at os listenret w"
| "world_functor os tid listenret (F_connectEstablished i) w = on_conn tid i (conn_functor os tid (F_connectEstablished i)) w"
| "world_functor os tid listenret (F_connectDestroyed i) w = on_conn tid i (conn_functor os tid (F_connectDestroyed i)) w"
| "world_functor os tid listenret (F_sendInLoop i a n) w = on_conn tid i (conn_functor os tid (F_sendInLoop i a n)) w"
| "world_functor os tid listenret (F_shutdownInLoop i) w = on_conn tid i (conn_functor os tid (F_shutdownInLoop i)) w"
| "world_functor os tid listenret (F_writeComplete i) w = on_conn tid i (conn_functor os tid (F_writeComplete i)) w"
| "world_functor os tid listenret (F_highWaterMark i n) w = on_conn tid i (conn_functor os tid (F_highWaterMark i n)) w"
| "world_functor os tid listenret (F_user n) w = Inr w"

section \<open>Facts\<close>

lemma get_loop_upd [simp]:
  "get_loop p (upd_loop_at p f w) = f (get_loop p w)"
  "q \<noteq> p \<Longrightarrow> get_loop q (upd_loop_at p f w) = get_loop q w"
  "srv (upd_loop_at p f w) = srv w" "wconns (upd_loop_at p f w) = wconns w"
  "wloops (upd_loop_at p f w) = (wloops w)(p \<mapsto> f (get_loop p w))"
  by (simp_all add: upd_loop_at_def get_loop_def)

lemma upd_srv_simps [simp]:
  "srv (upd_srv f w) = f (srv w)" "wloops (upd_srv f w) = wloops w" "wconns (upd_srv f w) = wconns w"
  "get_loop p (upd_srv f w) = get_loop p w"
  by (simp_all add: upd_srv_def get_loop_def)

lemma loop_at_Inr [simp]: "loop_at p w = Inr L \<longleftrightarrow> wloops w p = Some L"
  by (auto simp: loop_at_def split: option.splits)

lemma conn_at_Inr [simp]: "conn_at i w = Inr c \<longleftrightarrow> wconns w i = Some c"
  by (auto simp: conn_at_def split: option.splits)

lemma loop_at_Some: "wloops w p = Some L \<Longrightarrow> loop_at p w = Inr L"
  by simp

lemma conn_at_Some: "wconns w i = Some c \<Longrightarrow> conn_at i w = Inr c"
  by simp

lemma run_elsewhere:
  assumes "wloops w p = Some L" and "threadId L \<noteq> tid"
  shows "run_in_loop_at p tid F run w = Inr (upd_loop_at p (queueInLoop tid F) w)"
  using assms by (simp add: run_in_loop_at_def loop_at_Some runInLoop_def isInLoopThread_def get_loop_def)

lemma run_here:
  assumes "wloops w p = Some L" and "threadId L = tid"
  shows "run_in_loop_at p tid F run w = run w"
  using assms by (simp add: run_in_loop_at_def loop_at_Some runInLoop_def isInLoopThread_def get_loop_def)

lemma queue_at:
  "wloops w p = Some L \<Longrightarrow> queue_in_loop_at p tid F w = Inr (upd_loop_at p (queueInLoop tid F) w)"
  by (simp add: queue_in_loop_at_def loop_at_Some)

lemma alist_update_new: "k \<notin> fst ` set ps \<Longrightarrow> AList.update k v ps = ps @ [(k, v)]"
  by (induction ps) auto

lemma alist_delete_filter: "AList.delete k ps = filter (\<lambda>p. fst p \<noteq> k) ps"
  by (induction ps) auto

lemma TcpConnection_new_total:
  "\<exists>c. TcpConnection_new (Some l) obj name fd cp la pa L = Inr (c, L\<lparr>el_poller := store cp
      ((Channel_new fd)\<lparr>readCallback := Some (ConnHandleRead obj), writeCallback := Some (ConnHandleWrite obj),
         closeCallback := Some (ConnHandleClose obj), errorCallback := Some (ConnHandleError obj)\<rparr>) (el_poller L)\<rparr>) \<and>
    conn_id c = obj \<and> conn_loop c = l \<and> conn_name c = name \<and> conn_state c = kConnecting \<and> sockfd c = fd \<and>
    conn_channel c = cp"
proof -
  obtain b where "Buffer_new kInitialSize = Inr b"
    using Buffer_new_spec[of kInitialSize] by (auto simp: kCheapPrepend_def kInitialSize_def vec_max_def)
  then show ?thesis by (simp add: TcpConnection_new_def CheckLoopNotNull_def Let_def)
qed

lemma fds_simps [simp]:
  "srv (accept4_effect a w) = srv w" "wloops (accept4_effect a w) = wloops w" "wconns (accept4_effect a w) = wconns w"
  "wstrings (accept4_effect a w) = wstrings w" "open_fds (close_fd fd w) = open_fds w - {fd}"
  "srv (close_fd fd w) = srv w" "wloops (close_fd fd w) = wloops w" "wconns (close_fd fd w) = wconns w"
  "wstrings (close_fd fd w) = wstrings w" "open_fds (upd_loop_at p f w) = open_fds w" "open_fds (upd_srv g w) = open_fds w"
  by (simp_all add: accept4_effect_def close_fd_def upd_loop_at_def upd_srv_def)

lemma TcpServer_acceptable_cases:
  "TcpServer_acceptable os tid (fd, peer) obj cp gs w =
     (if fd < 0 then Inr w
      else if newConnectionCallback (srv_acceptor (srv w))
      then TcpServer_newConnection os tid obj cp gs fd peer (w\<lparr>open_fds := insert fd (open_fds w)\<rparr>)
      else Inr (w\<lparr>open_fds := open_fds w - {fd}\<rparr>))"
  by (simp add: TcpServer_acceptable_def Acceptor_handleRead_def Socket_accept_def accept4_effect_def close_fd_def)

section \<open>The connection map\<close>

text \<open>
  Every entry's connection exists and has the entry's name; the names are distinct and were
  built from identifiers that have been used up.
\<close>

definition srv_ok :: "world \<Rightarrow> bool" where
  "srv_ok w \<longleftrightarrow> distinct (map fst (connections (srv w))) \<and>
     (\<forall>(name, i) \<in> set (connections (srv w)).
        (\<exists>c. wconns w i = Some c \<and> conn_name c = name) \<and>
        (\<exists>k < nextConnId (srv w). name = srv_name (srv w) @ ''-'' @ ipPort (srv w) @ ''#'' @ to_string k))"

lemma srv_okD:
  assumes "srv_ok w" and "(name, i) \<in> set (connections (srv w))"
  shows "\<exists>c. wconns w i = Some c \<and> conn_name c = name"
    "\<exists>k < nextConnId (srv w). name = srv_name (srv w) @ ''-'' @ ipPort (srv w) @ ''#'' @ to_string k"
  using assms by (auto simp: srv_ok_def)

text \<open>The name of the next connection is new.\<close>

lemma conn_name_fresh:
  assumes "srv_ok w"
  shows "conn_name_of (srv w) \<notin> fst ` set (connections (srv w))"
proof
  assume "conn_name_of (srv w) \<in> fst ` set (connections (srv w))"
  then obtain i where "(conn_name_of (srv w), i) \<in> set (connections (srv w))" by auto
  from srv_okD(2)[OF assms this] show False by (auto simp: conn_name_of_def)
qed

lemma srv_ok_same:
  assumes "srv_ok w" and "connections (srv w') = connections (srv w)" and "nextConnId (srv w') = nextConnId (srv w)"
    and "srv_name (srv w') = srv_name (srv w)" and "ipPort (srv w') = ipPort (srv w)"
    and "\<And>i c. wconns w i = Some c \<Longrightarrow> \<exists>c'. wconns w' i = Some c' \<and> conn_name c' = conn_name c"
  shows "srv_ok w'"
  using assms(1) assms(6) unfolding srv_ok_def assms(2-5) by (fastforce split: prod.splits)

lemma srv_ok_loops [simp]: "srv_ok (upd_loop_at p f w) = srv_ok w"
  by (simp add: srv_ok_def)

lemma srv_ok_wloops [simp]: "srv_ok (w\<lparr>wloops := ls\<rparr>) = srv_ok w"
  by (simp add: srv_ok_def)

lemma srv_ok_delete:
  "srv_ok w \<Longrightarrow> srv_ok (upd_srv (\<lambda>S. S\<lparr>connections := AList.delete k (connections S)\<rparr>) w)"
  by (auto simp: srv_ok_def alist_delete_filter distinct_map_filter)

lemma srv_ok_conn:
  assumes "srv_ok w" and "wconns w i = Some c" and "conn_name c' = conn_name c"
  shows "srv_ok (w\<lparr>wconns := (wconns w)(i \<mapsto> c'), wloops := ls\<rparr>)"
  by (rule srv_ok_same[OF assms(1)]) (use assms(2,3) in auto)

lemma run_in_loop_at_srv_ok:
  assumes "srv_ok w" and "ends (run w) srv_ok"
  shows "ends (run_in_loop_at p tid F run w) srv_ok"
  using assms by (auto simp: run_in_loop_at_def runInLoop_def intro!: ends_value ends_if)

lemma removeConnectionInLoop_srv_ok: "srv_ok w \<Longrightarrow> ends (TcpServer_removeConnectionInLoop tid i w) srv_ok"
  by (auto simp: TcpServer_removeConnectionInLoop_def queue_in_loop_at_def srv_ok_delete intro!: ends_value)

lemma removeConnection_srv_ok: "srv_ok w \<Longrightarrow> ends (TcpServer_removeConnection tid i w) srv_ok"
  unfolding TcpServer_removeConnection_def
  by (intro run_in_loop_at_srv_ok removeConnectionInLoop_srv_ok)

lemma on_conn_srv_ok:
  assumes "srv_ok w" and "\<And>s. ends (f s) (keeps s)"
  shows "ends (on_conn tid i f w) srv_ok"
proof (cases "wconns w i")
  case None
  then show ?thesis by (simp add: on_conn_def conn_at_def)
next
  case (Some c)
  let ?s = "\<lambda>L. \<lparr>conn = c, cloop = L, strings = wstrings w, upcalls = []\<rparr>"
  have "ends (foldR (TcpServer_removeConnection tid) (upcalls s)
      (w\<lparr>wconns := (wconns w)(i \<mapsto> conn s), wloops := (wloops w)(conn_loop c \<mapsto> cloop s)\<rparr>)) srv_ok"
    if "keeps (?s L) s" for L s
  proof -
    have "conn_name (conn s) = conn_name c" using that by (simp add: keeps_def)
    with srv_ok_conn[OF assms(1) Some] show ?thesis
      by (intro ends_foldR removeConnection_srv_ok) auto
  qed
  with assms(2) Some show ?thesis
    by (auto simp: on_conn_def conn_at_Some intro!: ends_value[where m = "m :: event_loop res" for m] ends_seq)
qed

text \<open>The entry that \<open>newConnection\<close> adds.\<close>

lemma srv_ok_add:
  assumes "srv_ok w" and "wconns w obj = None" and "name = conn_name_of (srv w)" and "conn_name c = name"
  shows "srv_ok (upd_srv (\<lambda>S. S\<lparr>connections := AList.update name obj (connections S)\<rparr>)
      ((upd_srv (\<lambda>S. S\<lparr>threadPool := pool, nextConnId := nextConnId S + 1\<rparr>) w)
         \<lparr>wconns := (wconns w)(obj \<mapsto> c), wloops := ls\<rparr>))" (is "srv_ok ?w")
proof -
  let ?S = "srv w"
  have fresh: "name \<notin> fst ` set (connections ?S)" using conn_name_fresh[OF assms(1)] assms(3) by simp
  have conns: "AList.update name obj (connections ?S) = connections ?S @ [(name, obj)]"
    by (rule alist_update_new[OF fresh])
  have new: "\<exists>k < nextConnId ?S + 1. name = srv_name ?S @ ''-'' @ ipPort ?S @ ''#'' @ to_string k"
    using assms(3) by (intro exI[of _ "nextConnId ?S"]) (simp add: conn_name_of_def)
  have old: "\<exists>c'. ((wconns w)(obj \<mapsto> c)) i = Some c' \<and> conn_name c' = n"
      "\<exists>k < nextConnId ?S + 1. n = srv_name ?S @ ''-'' @ ipPort ?S @ ''#'' @ to_string k"
    if "(n, i) \<in> set (connections ?S)" for n i
    using srv_okD[OF assms(1) that] assms(2) by force+
  have all: "\<forall>(n, i) \<in> set (connections ?S @ [(name, obj)]).
      (\<exists>c'. ((wconns w)(obj \<mapsto> c)) i = Some c' \<and> conn_name c' = n) \<and>
      (\<exists>k < nextConnId ?S + 1. n = srv_name ?S @ ''-'' @ ipPort ?S @ ''#'' @ to_string k)"
  proof
    fix e
    assume "e \<in> set (connections ?S @ [(name, obj)])"
    then consider n i where "e = (n, i)" "(n, i) \<in> set (connections ?S)" | "e = (name, obj)"
      by (metis Un_iff list.set(1,2) set_append singletonD surj_pair)
    then show "case e of (n, i) \<Rightarrow> (\<exists>c'. ((wconns w)(obj \<mapsto> c)) i = Some c' \<and> conn_name c' = n) \<and>
      (\<exists>k < nextConnId ?S + 1. n = srv_name ?S @ ''-'' @ ipPort ?S @ ''#'' @ to_string k)"
    proof cases
      case 1
      show ?thesis unfolding 1(1) prod.case using old[OF 1(2)] by (rule conjI)
    next
      case 2
      show ?thesis unfolding 2 prod.case using new assms(4) by (intro conjI) simp_all
    qed
  qed
  have "distinct (map fst (connections ?S @ [(name, obj)]))"
    using assms(1) fresh by (simp add: srv_ok_def)
  moreover have "connections (srv ?w) = connections ?S @ [(name, obj)]" "wconns ?w = (wconns w)(obj \<mapsto> c)"
    "nextConnId (srv ?w) = nextConnId ?S + 1" "srv_name (srv ?w) = srv_name ?S" "ipPort (srv ?w) = ipPort ?S"
    by (simp_all add: upd_srv_def conns)
  ultimately show ?thesis unfolding srv_ok_def using all by (simp only: simp_thms)
qed

lemma newConnection_srv_ok:
  assumes "srv_ok w" and "wconns w obj = None"
  shows "ends (TcpServer_newConnection os tid obj cp gs fd peer w) srv_ok"
proof -
  let ?S = "srv w"
  note step = srv_ok_add[OF assms refl]
  have keep: "ends (connectEstablished os tid s) (keeps s)" for s by (intro kept.connectEstablished_R keeps_refl)
  show ?thesis
    unfolding TcpServer_newConnection_def Let_def
    apply (intro ends_value[where m = "m :: event_loop res" for m] ends_value[where m = "m :: unit res" for m]
        ends_value[where m = "m :: (ptr \<times> thread_pool) res" for m] ends_if ends_pair)
     apply simp
    subgoal for L0 u r io pool L
      using TcpConnection_new_total[of io obj "conn_name_of ?S" fd cp "sockfd_To_SockAddr gs" peer L] step
      by (auto simp: setCloseCallback_def setWriteCompleteCallback_def setMessageCallback_def
          setConnectionCallback_def upd_srv_def intro!: run_in_loop_at_srv_ok on_conn_srv_ok keep)
    done
qed

lemma acceptor_listen_at_srv_ok: "srv_ok w \<Longrightarrow> ends (acceptor_listen_at os r w) srv_ok"
  unfolding acceptor_listen_at_def
  by (auto intro!: ends_value[where m = "m :: event_loop res" for m]
      ends_value[where m = "m :: (acceptor \<times> event_loop) res" for m] ends_pair elim!: srv_ok_same)

lemma start_srv_ok: "srv_ok w \<Longrightarrow> ends (TcpServer_start os tid r spawn w) srv_ok"
  unfolding TcpServer_start_def Let_def
  by (auto intro!: ends_if ends_pair run_in_loop_at_srv_ok acceptor_listen_at_srv_ok elim!: srv_ok_same)

lemma TcpConnection_delete_Inr:
  "TcpConnection_delete i w = Inr w' \<longleftrightarrow> (\<exists>c L ch. wconns w i = Some c \<and> wloops w (conn_loop c) = Some L \<and>
     chans (el_poller L) (conn_channel c) = Some ch \<and> w' = w\<lparr>wconns := (wconns w)(i := None),
       wloops := (wloops w)(conn_loop c \<mapsto> Channel_delete (conn_channel c) L), open_fds := open_fds w - {sockfd c}\<rparr>)"
  by (auto simp: TcpConnection_delete_def Socket_delete_def close_fd_def upd_loop_at_def get_loop_def bindR_Inr_iff)

lemma TcpConnection_delete_srv_ok:
  assumes "srv_ok w" and "i \<notin> snd ` set (connections (srv w))" and "TcpConnection_delete i w = Inr w'"
  shows "srv_ok w'"
proof -
  have "j \<noteq> i" if "(n, j) \<in> set (connections (srv w))" for n j using assms(2) that by force
  with assms(1,3) show ?thesis by (fastforce simp: TcpConnection_delete_Inr srv_ok_def)
qed

lemma world_functor_srv_ok: "srv_ok w \<Longrightarrow> ends (world_functor os tid r F w) srv_ok"
  by (cases F)
    (auto intro!: removeConnectionInLoop_srv_ok acceptor_listen_at_srv_ok on_conn_srv_ok conn_intros
      simp del: conn_functor.simps)

text \<open>
  The steps of a running server: a thread starts the server, the base loop accepts, some loop
  runs a task or a channel's callback, some thread calls send or shutdown on a connection, a
  connection that is not in the map is freed.
\<close>

inductive world_step :: "os \<Rightarrow> world \<Rightarrow> world \<Rightarrow> bool" for os :: os where
  start: "TcpServer_start os tid r spawn w = Inr w' \<Longrightarrow> world_step os w w'"
| acceptable: "wconns w obj = None \<Longrightarrow>
    TcpServer_acceptable os tid answer obj cp gs w = Inr w' \<Longrightarrow> world_step os w w'"
| task: "world_functor os tid r F w = Inr w' \<Longrightarrow> world_step os w w'"
| event: "on_conn tid i (conn_invoke os tid cb now) w = Inr w' \<Longrightarrow> world_step os w w'"
| send: "on_conn tid i (TcpConnection_send os tid addr msg) w = Inr w' \<Longrightarrow> world_step os w w'"
| shutdown: "on_conn tid i (TcpConnection_shutdown os tid) w = Inr w' \<Longrightarrow> world_step os w w'"
| drop: "i \<notin> snd ` set (connections (srv w)) \<Longrightarrow> TcpConnection_delete i w = Inr w' \<Longrightarrow> world_step os w w'"

inductive_cases world_stepE: "world_step os w w'"

lemma world_step_srv_ok:
  assumes "srv_ok w" and "world_step os w w'"
  shows "srv_ok w'"
  using assms(2)
proof (cases rule: world_step.cases)
  case (start tid r spawn)
  with ends_D[OF start_srv_ok[OF assms(1)]] show ?thesis by blast
next
  case (acceptable obj tid answer cp gs)
  obtain fd peer where a: "answer = (fd, peer)" by (cases answer)
  have "srv_ok (w\<lparr>open_fds := F\<rparr>)" for F using assms(1) by (simp add: srv_ok_def)
  then have "ends (TcpServer_acceptable os tid answer obj cp gs w) srv_ok"
    using newConnection_srv_ok acceptable(1) assms(1) by (simp add: TcpServer_acceptable_cases a)
  with acceptable(2) show ?thesis by simp
next
  case (task tid r F)
  with ends_D[OF world_functor_srv_ok[OF assms(1)]] show ?thesis by blast
next
  case (event tid i cb now)
  with ends_D[OF on_conn_srv_ok[where f = "conn_invoke os tid cb now", OF assms(1) kept.conn_invoke_R[OF keeps_refl]]] show ?thesis by blast
next
  case (send tid i addr msg)
  with ends_D[OF on_conn_srv_ok[where f = "TcpConnection_send os tid addr msg", OF assms(1) kept.TcpConnection_send_R[OF keeps_refl]]] show ?thesis by blast
next
  case (shutdown tid i)
  with ends_D[OF on_conn_srv_ok[where f = "TcpConnection_shutdown os tid", OF assms(1) kept.TcpConnection_shutdown_R[OF keeps_refl]]] show ?thesis by blast
next
  case (drop i)
  with TcpConnection_delete_srv_ok[OF assms(1)] show ?thesis by blast
qed

interpretation server: safe_machine "\<lambda>w. connections (srv w) = []" "world_step os" srv_ok for os
proof
  show "srv_ok w" if "connections (srv w) = []" for w using that by (simp add: srv_ok_def)
qed (rule world_step_srv_ok)

section \<open>Properties\<close>

text \<open>A server on base loop 1 (thread 100) with one I/O loop at 2 (thread 101), for the witnesses.\<close>

definition sample_acceptor :: acceptor where
  "sample_acceptor = \<lparr>acceptSocket = Socket_new 6, acceptChannel = 9, newConnectionCallback = True, listenning = False\<rparr>"

definition sample_world :: world where
  "sample_world =
     \<lparr>srv = \<lparr>srv_loop = 1, ipPort = ''127.0.0.1 : 8000'', srv_name = ''echo'', srv_acceptor = sample_acceptor,
        threadPool = \<lparr>baseLoop = 1, pool_name = ''echo'', pool_started = True, numThreads = 1, pool_next = 0,
                      threads = [''echo0''], loops = [2]\<rparr>,
        srv_connectionCallback = Some (\<lambda>_. []), srv_messageCallback = Some (\<lambda>_ _ _. []),
        srv_writeCompleteCallback = None, threadInitCallback = False, started = 1, nextConnId = 1, connections = []\<rparr>,
      wloops = [1 \<mapsto> sample_loop, 2 \<mapsto> sample_loop\<lparr>threadId := 101\<rparr>],
      wconns = Map.empty, wstrings = Map.empty, open_fds = {}\<rparr>"

lemma newConnection_elsewhere:
  assumes "wloops w (srv_loop (srv w)) = Some L0" and "threadId L0 = tid" and "pool_ok (threadPool (srv w))"
    and "nextConnId (srv w) < 2147483647" and "wloops w (loop_in_turn 0 (threadPool (srv w))) = Some L"
    and "threadId L \<noteq> tid" and "srv_ok w"
  defines "io \<equiv> loop_in_turn 0 (threadPool (srv w))"
  shows "\<exists>w' c. TcpServer_newConnection os tid obj cp gs fd peer w = Inr w' \<and>
    connections (srv w') = connections (srv w) @ [(conn_name_of (srv w), obj)] \<and>
    nextConnId (srv w') = nextConnId (srv w) + 1 \<and>
    (\<forall>k. loop_in_turn k (threadPool (srv w')) = loop_in_turn (Suc k) (threadPool (srv w))) \<and>
    wconns w' = (wconns w)(obj \<mapsto> c) \<and> conn_state c = kConnecting \<and> conn_name c = conn_name_of (srv w) \<and>
    conn_loop c = io \<and> sockfd c = fd \<and> connectionCallback c = srv_connectionCallback (srv w) \<and>
    messageCallback c = srv_messageCallback (srv w) \<and>
    writeCompleteCallback c = srv_writeCompleteCallback (srv w) \<and> conn_closeCallback c \<and>
    (\<exists>L'. wloops w' io = Some L' \<and> pendingFunctors L' = pendingFunctors L @ [F_connectEstablished obj] \<and>
       wakeWrites L' = Suc (wakeWrites L))"
proof -
  let ?S = "srv w"
  obtain pool where pool: "getNextLoop (threadPool ?S) = Inr (io, pool)"
      "\<forall>k. loop_in_turn k pool = loop_in_turn (Suc k) (threadPool ?S)"
    using getNextLoop_spec[OF assms(3)] by (auto simp: io_def)
  let ?w1 = "upd_srv (\<lambda>S. S\<lparr>threadPool := pool, nextConnId := nextConnId S + 1\<rparr>) w"
  have io: "wloops w io = Some L" "wloops ?w1 io = Some L" using assms(5) by (simp_all add: io_def)
  obtain c P where c: "TcpConnection_new (Some io) obj (conn_name_of ?S) fd cp (sockfd_To_SockAddr gs) peer L =
      Inr (c, L\<lparr>el_poller := P\<rparr>)" "conn_loop c = io" "conn_name c = conn_name_of ?S"
      "conn_state c = kConnecting" "sockfd c = fd"
    using TcpConnection_new_total[of io obj "conn_name_of ?S" fd cp "sockfd_To_SockAddr gs" peer L] by blast
  let ?c = "setCloseCallback True (setWriteCompleteCallback (srv_writeCompleteCallback ?S)
      (setMessageCallback (srv_messageCallback ?S) (setConnectionCallback (srv_connectionCallback ?S) c)))"
  let ?w2 = "upd_srv (\<lambda>S. S\<lparr>connections := AList.update (conn_name_of ?S) obj (connections S)\<rparr>)
                (?w1\<lparr>wconns := (wconns ?w1)(obj \<mapsto> ?c), wloops := (wloops ?w1)(io \<mapsto> L\<lparr>el_poller := P\<rparr>)\<rparr>)"
  let ?w3 = "upd_loop_at io (queueInLoop tid (F_connectEstablished obj)) ?w2"
  have "run_in_loop_at io tid (F_connectEstablished obj) run ?w2 = Inr ?w3" for run
    using assms(6) by (intro run_elsewhere[where L = "L\<lparr>el_poller := P\<rparr>"]) simp_all
  then have "TcpServer_newConnection os tid obj cp gs fd peer w = Inr ?w3"
    using assms(1,2,4) pool(1) io c(1)
    by (simp add: TcpServer_newConnection_def assertInLoopThread_def isInLoopThread_def loop_at_Some)
  moreover have "connections (srv ?w3) = connections ?S @ [(conn_name_of ?S, obj)]"
    using alist_update_new[OF conn_name_fresh[OF assms(7)]] by (simp add: upd_srv_def)
  moreover have "get_loop io ?w2 = L\<lparr>el_poller := P\<rparr>" by (simp add: get_loop_def)
  ultimately show ?thesis using pool(2) c assms(6)
    by (intro exI[of _ ?w3] exI[of _ ?c])
      (simp add: upd_srv_def setCloseCallback_def setWriteCompleteCallback_def setMessageCallback_def setConnectionCallback_def)
qed



text \<open>C22: In every reachable state of a server the connection map is exact: its names are distinct, each
  names a connection that exists and carries that name, and no name in it will be given again.\<close>

theorem connection_map_exact:
  assumes "reach (\<lambda>w. connections (srv w) = []) (world_step os) w"
  shows "distinct (map fst (connections (srv w))) \<and>
    (\<forall>(name, i) \<in> set (connections (srv w)). \<exists>c. wconns w i = Some c \<and> conn_name c = name) \<and>
    conn_name_of (srv w) \<notin> fst ` set (connections (srv w))"
proof -
  have ok: "srv_ok w" by (rule server.reach_inv[OF assms])
  then show ?thesis using conn_name_fresh[OF ok] by (auto simp: srv_ok_def)
qed

lemma sample_world_reach: "reach (\<lambda>w. connections (srv w) = []) (world_step os) sample_world"
  by (rule reach_init) (simp add: sample_world_def)

theorem connection_map_exact_witness: "distinct (map fst (connections (srv sample_world)))"
  using connection_map_exact[OF sample_world_reach] by blast

text \<open>C23: Removing a connection from its I/O thread takes the two hops of the reactor: the I/O thread
  only queues the removal on the base loop and wakes it, the map being untouched; when the base
  loop runs the task, exactly that connection leaves the map and its own loop gets, once, the
  task connectDestroyed, with a wake-up.\<close>

theorem removeConnection_two_hops:
  assumes "wloops w base = Some LB" and "base = srv_loop (srv w)" and "threadId LB = tid"
    and "wconns w i = Some c" and "wloops w (conn_loop c) = Some L" and "threadId L = tid'"
    and "tid' \<noteq> tid"
  shows "\<exists>w1 w2. TcpServer_removeConnection tid' i w = Inr w1 \<and> srv w1 = srv w \<and>
    pendingFunctors (get_loop base w1) = pendingFunctors LB @ [F_removeConnectionInLoop i] \<and>
    wakeWrites (get_loop base w1) = Suc (wakeWrites LB) \<and>
    world_functor os tid r (F_removeConnectionInLoop i) w1 = Inr w2 \<and>
    connections (srv w2) = filter (\<lambda>e. fst e \<noteq> conn_name c) (connections (srv w)) \<and>
    pendingFunctors (get_loop (conn_loop c) w2) = pendingFunctors L @ [F_connectDestroyed i] \<and>
    wakeWrites (get_loop (conn_loop c) w2) = Suc (wakeWrites L)"
proof -
  let ?w1 = "upd_loop_at base (queueInLoop tid' (F_removeConnectionInLoop i)) w"
  let ?s = "upd_srv (\<lambda>S. S\<lparr>connections := AList.delete (conn_name c) (connections S)\<rparr>) ?w1"
  let ?w2 = "upd_loop_at (conn_loop c) (queueInLoop tid (F_connectDestroyed i)) ?s"
  have ne: "conn_loop c \<noteq> base" using assms(1,3,5-7) by auto
  have 1: "TcpServer_removeConnection tid' i w = Inr ?w1"
    unfolding TcpServer_removeConnection_def assms(2)[symmetric]
    using assms(1,3,7) by (intro run_elsewhere[where L = LB]) auto
  have "wloops ?s (conn_loop c) = Some L" using assms(5) ne by simp
  then have 2: "world_functor os tid r (F_removeConnectionInLoop i) ?w1 = Inr ?w2"
    using assms(4) by (simp add: TcpServer_removeConnectionInLoop_def conn_at_Some queue_at)
  have "get_loop base w = LB" "get_loop (conn_loop c) ?s = L"
    using assms(1,5) ne by (simp_all add: get_loop_def)
  with 1 2 assms(3,6,7) show ?thesis
    by (intro exI[of _ ?w1] exI[of _ ?w2]) (simp add: alist_delete_filter)
qed

definition sample_accepted :: world where
  "sample_accepted = (case TcpServer_newConnection sample_os 100 50 70 None 12 zero_addr sample_world of Inr w \<Rightarrow> w)"

lemma sample_accepted_facts:
  "srv_loop (srv sample_accepted) = 1" "wloops sample_accepted 1 = Some sample_loop"
  "\<exists>c L. wconns sample_accepted 50 = Some c \<and> conn_loop c = 2 \<and> wloops sample_accepted 2 = Some L \<and> threadId L = 101"
proof -
  obtain c P where c: "TcpConnection_new (Some 2) 50 (conn_name_of (srv sample_world)) 12 70 zero_addr zero_addr
      (sample_loop\<lparr>threadId := 101\<rparr>) = Inr (c, sample_loop\<lparr>threadId := 101, el_poller := P\<rparr>)" "conn_loop c = 2"
    using TcpConnection_new_total[of 2 50 "conn_name_of (srv sample_world)" 12 70 zero_addr zero_addr
        "sample_loop\<lparr>threadId := 101\<rparr>"] by auto
  have "getNextLoop (threadPool (srv sample_world)) = Inr (2, threadPool (srv sample_world))"
    by (simp add: sample_world_def getNextLoop_def)
  then have "\<exists>w. TcpServer_newConnection sample_os 100 50 70 None 12 zero_addr sample_world = Inr w \<and>
      srv_loop (srv w) = 1 \<and> wloops w 1 = Some sample_loop \<and>
      (\<exists>c L. wconns w 50 = Some c \<and> conn_loop c = 2 \<and> wloops w 2 = Some L \<and> threadId L = 101)"
    using c
    by (simp add: TcpServer_newConnection_def sample_world_def loop_at_def assertInLoopThread_def isInLoopThread_def
        sockfd_To_SockAddr_def run_in_loop_at_def runInLoop_def upd_srv_def upd_loop_at_def get_loop_def
        setCloseCallback_def setWriteCompleteCallback_def setMessageCallback_def setConnectionCallback_def)
  then show "srv_loop (srv sample_accepted) = 1" "wloops sample_accepted 1 = Some sample_loop"
    "\<exists>c L. wconns sample_accepted 50 = Some c \<and> conn_loop c = 2 \<and> wloops sample_accepted 2 = Some L \<and> threadId L = 101"
    by (auto simp: sample_accepted_def)
qed

theorem removeConnection_two_hops_witness:
  "\<exists>w1. TcpServer_removeConnection 101 50 sample_accepted = Inr w1 \<and>
     pendingFunctors (get_loop 1 w1) = [F_removeConnectionInLoop 50]"
proof -
  obtain c L where "wconns sample_accepted 50 = Some c" "conn_loop c = 2" "wloops sample_accepted 2 = Some L"
    "threadId L = 101"
    using sample_accepted_facts(3) by blast
  then show ?thesis
    using removeConnection_two_hops[of sample_accepted 1 sample_loop 100 50 c L 101] sample_accepted_facts(1,2)
    by force
qed

text \<open>A server starts once: the first call of start() starts the pool and makes the base loop listen,
  every further call only counts.\<close>

theorem start_once:
  assumes "started (srv w) = 0" and "TcpServer_start os tid r spawn w = Inr w1"
  shows "threadPool (srv w1) = fst (EventLoopThreadPool_start (fst \<circ> spawn) (threadInitCallback (srv w)) (threadPool (srv w))) \<and>
    started (srv w1) = 1 \<and> TcpServer_start os tid r' spawn' w1 = Inr (upd_srv (\<lambda>S. S\<lparr>started := 2\<rparr>) w1)"
proof -
  obtain pool inits where p: "EventLoopThreadPool_start (fst \<circ> spawn) (threadInitCallback (srv w)) (threadPool (srv w)) = (pool, inits)"
    by fastforce
  let ?w = "upd_srv (\<lambda>S. S\<lparr>threadPool := pool\<rparr>) ((upd_srv (\<lambda>S. S\<lparr>started := 1\<rparr>) w)
      \<lparr>wloops := wloops w ++ map_of (map spawn [0..<nat (numThreads (threadPool (srv w)))])\<rparr>)"
  have run: "run_in_loop_at (srv_loop (srv ?w)) tid F_acceptorListen (acceptor_listen_at os r) ?w = Inr w1"
    using assms(1,2) p by (simp add: TcpServer_start_def upd_srv_def)
  have "ends (run_in_loop_at (srv_loop (srv ?w)) tid F_acceptorListen (acceptor_listen_at os r) ?w)
      (\<lambda>u. threadPool (srv u) = pool \<and> started (srv u) = 1)"
    unfolding run_in_loop_at_def runInLoop_def acceptor_listen_at_def
    by (auto intro!: ends_value[where m = "m :: event_loop res" for m]
        ends_value[where m = "m :: (acceptor \<times> event_loop) res" for m] ends_pair ends_if simp: upd_srv_def)
  with run have "threadPool (srv w1) = pool" "started (srv w1) = 1" by simp_all
  with p show ?thesis by (simp add: TcpServer_start_def upd_srv_def)
qed

theorem start_once_witness:
  "\<exists>w1. TcpServer_start sample_os 102 0 (\<lambda>i. (2, sample_loop)) (upd_srv (\<lambda>S. S\<lparr>started := 0\<rparr>) sample_world) = Inr w1 \<and>
     TcpServer_start sample_os 102 0 (\<lambda>i. (3, sample_loop)) w1 = Inr (upd_srv (\<lambda>S. S\<lparr>started := 2\<rparr>) w1)"
proof -
  let ?w = "upd_srv (\<lambda>S. S\<lparr>started := 0\<rparr>) sample_world"
  have "\<exists>w1. TcpServer_start sample_os 102 0 (\<lambda>i. (2, sample_loop)) ?w = Inr w1"
    by (simp add: TcpServer_start_def EventLoopThreadPool_start_def sample_world_def upd_srv_def run_in_loop_at_def
        runInLoop_def isInLoopThread_def get_loop_def loop_at_def Let_def)
  moreover have "started (srv ?w) = 0" by simp
  ultimately show ?thesis using start_once by blast
qed

text \<open>
  Destruction, with every connection on an I/O thread: each gets its \<open>connectDestroyed\<close> task.
\<close>

lemma destroy_items:
  assumes "\<forall>(n, i) \<in> set es. \<exists>c L. wconns w i = Some c \<and> wloops w (conn_loop c) = Some L \<and> threadId L \<noteq> tid"
    and alive: "\<forall>w i p L. wloops w p = Some L \<longrightarrow> F_connectDestroyed i \<in> set (pendingFunctors L) \<longrightarrow> alive w i"
  shows "\<exists>w'. foldR (destroy_item os tid alive) es w = Inr w' \<and>
    srv w' = (srv w)\<lparr>connections := filter (\<lambda>e. fst e \<notin> fst ` set es) (connections (srv w))\<rparr> \<and>
    wconns w' = wconns w \<and> open_fds w' = open_fds w \<and> (\<forall>p. wloops w p = None \<longrightarrow> wloops w' p = None) \<and>
    (\<forall>p L. wloops w p = Some L \<longrightarrow> (\<exists>L'. wloops w' p = Some L' \<and> threadId L' = threadId L \<and>
      el_poller L' = el_poller L \<and> wakeupChannel L' = wakeupChannel L \<and> wakeupFd L' = wakeupFd L \<and>
      pendingFunctors L' = pendingFunctors L @
        map (\<lambda>e. F_connectDestroyed (snd e)) (filter (\<lambda>e. conn_loop (the (wconns w (snd e))) = p) es)))"
  using assms(1)
proof (induction es arbitrary: w)
  case Nil
  then show ?case by simp
next
  case (Cons e es)
  obtain n i where e: "e = (n, i)" by (cases e)
  with Cons.prems obtain c L0 where c: "wconns w i = Some c" "wloops w (conn_loop c) = Some L0" "threadId L0 \<noteq> tid"
    by auto
  let ?v = "upd_srv (\<lambda>S. S\<lparr>connections := AList.delete n (connections S)\<rparr>) w"
  let ?w = "upd_loop_at (conn_loop c) (queueInLoop tid (F_connectDestroyed i)) ?v"
  have L0: "get_loop (conn_loop c) w = L0" "get_loop (conn_loop c) ?v = L0" using c(2) by (simp_all add: get_loop_def)
  then have "alive ?w i" using alive[rule_format, of ?w "conn_loop c" "queueInLoop tid (F_connectDestroyed i) L0" i] by simp
  then have step: "destroy_item os tid alive e w = Inr ?w"
    using c by (simp add: destroy_item_def e conn_at_Some run_elsewhere release_def)
  have "\<forall>(n, i) \<in> set es. \<exists>c L. wconns ?w i = Some c \<and> wloops ?w (conn_loop c) = Some L \<and> threadId L \<noteq> tid"
    using Cons.prems c L0 by fastforce
  from Cons.IH[OF this] obtain w' where w': "foldR (destroy_item os tid alive) es ?w = Inr w'"
    "srv w' = (srv ?w)\<lparr>connections := filter (\<lambda>e. fst e \<notin> fst ` set es) (connections (srv ?w))\<rparr>" "wconns w' = wconns w"
    "open_fds w' = open_fds w" "\<forall>p. wloops ?w p = None \<longrightarrow> wloops w' p = None"
    "\<forall>p L. wloops ?w p = Some L \<longrightarrow> (\<exists>L'. wloops w' p = Some L' \<and> threadId L' = threadId L \<and>
      el_poller L' = el_poller L \<and> wakeupChannel L' = wakeupChannel L \<and> wakeupFd L' = wakeupFd L \<and>
      pendingFunctors L' = pendingFunctors L @
        map (\<lambda>e. F_connectDestroyed (snd e)) (filter (\<lambda>e. conn_loop (the (wconns w (snd e))) = p) es))"
    by auto
  have srv: "srv w' = (srv w)\<lparr>connections := filter (\<lambda>x. fst x \<notin> fst ` set (e # es)) (connections (srv w))\<rparr>"
    using w'(2) by (simp add: e alist_delete_filter conj_commute upd_srv_def)
  have "\<exists>L'. wloops w' p = Some L' \<and> threadId L' = threadId L \<and>
      el_poller L' = el_poller L \<and> wakeupChannel L' = wakeupChannel L \<and> wakeupFd L' = wakeupFd L \<and> pendingFunctors L' = pendingFunctors L @
      map (\<lambda>e. F_connectDestroyed (snd e)) (filter (\<lambda>e. conn_loop (the (wconns w (snd e))) = p) (e # es))"
    if "wloops w p = Some L" for p L
  proof (cases "p = conn_loop c")
    case True
    with that c(2) have "L = L0" by simp
    with w'(6)[rule_format, of p "queueInLoop tid (F_connectDestroyed i) L0"] True L0 c(1) e show ?thesis by simp
  next
    case False
    with w'(6)[rule_format, of p L] that c(1) e show ?thesis by auto
  qed
  moreover have "wloops w' p = None" if "wloops w p = None" for p
    using w'(5)[rule_format, of p] that c(2) by (cases "p = conn_loop c") auto
  ultimately show ?case using step srv w'(1,3,4) by simp
qed

end
