(* ===== verification/Threads.thy ===== *)
theory Threads
  imports Posix
begin

text \<open>
  \<open>CurrentThread\<close>, \<open>Thread\<close> and \<open>EventLoopThread\<close>: the cached thread id, the thread object
  with its default names, and the start of an I/O thread as a step relation between the thread
  that calls \<open>startLoop()\<close> and later destroys the object, and the new thread that runs
  \<open>threadFunc()\<close>. The object's mutex makes each locked block one step.
\<close>

section \<open>CurrentThread\<close>

text \<open>\<open>t_cachedTid\<close> is thread-local; \<open>gettid\<close> is the answer of the system call.\<close>

definition cacheTid :: "int \<Rightarrow> int \<Rightarrow> int" where
  "cacheTid gettid t_cachedTid = (if t_cachedTid = 0 then gettid else t_cachedTid)"

definition CurrentThread_tid :: "int \<Rightarrow> int \<Rightarrow> int \<times> int" where
  "CurrentThread_tid gettid t_cachedTid =
     (let cached = (if t_cachedTid = 0 then cacheTid gettid t_cachedTid else t_cachedTid) in (cached, cached))"

lemma CurrentThread_tid_stable:
  "gettid \<noteq> 0 \<Longrightarrow> cached = 0 \<or> cached = gettid \<Longrightarrow>
   CurrentThread_tid gettid cached = (gettid, gettid)"
  by (auto simp: CurrentThread_tid_def cacheTid_def)

section \<open>Thread\<close>

datatype thread_handle = NoThread | Joinable | Detached | JoinedThread

record thread_obj =
  th_started :: bool
  th_joined :: bool
  th_tid :: int
  th_name :: string
  th_handle :: thread_handle

definition setDefaultName :: "int \<Rightarrow> string \<Rightarrow> int \<times> string" where
  "setDefaultName numCreated name =
     (let num = numCreated + 1 in (num, if name = '''' then ''Thread'' @ to_string num else name))"

text \<open>The constructor returns the new value of the counter, too.\<close>

definition Thread_new :: "int \<Rightarrow> string \<Rightarrow> int \<times> thread_obj" where
  "Thread_new numCreated name =
     (let (num, n) = setDefaultName numCreated name
      in (num, \<lparr>th_started = False, th_joined = False, th_tid = 0, th_name = n, th_handle = NoThread\<rparr>))"

text \<open>\<open>start\<close> returns after the semaphore, when the new thread has stored its id.\<close>

definition Thread_start :: "int \<Rightarrow> thread_obj \<Rightarrow> thread_obj" where
  "Thread_start newtid t = t\<lparr>th_started := True, th_tid := newtid, th_handle := Joinable\<rparr>"

text \<open>\<open>thread_\<close> is a null pointer before \<open>start\<close>; joining twice throws \<open>system_error\<close>.\<close>

definition Thread_join :: "thread_obj \<Rightarrow> thread_obj res" where
  "Thread_join t =
     (let t1 = t\<lparr>th_joined := True\<rparr> in
      case th_handle t1 of
        NoThread \<Rightarrow> Inl (UB ''null std::thread*'')
      | Joinable \<Rightarrow> Inr (t1\<lparr>th_handle := JoinedThread\<rparr>)
      | _ \<Rightarrow> Inl (Throw ''system_error''))"

text \<open>The handle of a destroyed object must not be joinable: \<open>std::terminate\<close> otherwise.\<close>

definition Thread_delete :: "thread_obj \<Rightarrow> thread_handle" where
  "Thread_delete t =
     (if th_started t \<and> \<not> th_joined t then Detached else th_handle t)"

text \<open>A sequence of thread objects made without a name.\<close>

fun default_names :: "int \<Rightarrow> nat \<Rightarrow> string list" where
  "default_names num 0 = []"
| "default_names num (Suc k) = (case Thread_new num '''' of (num', t) \<Rightarrow> th_name t # default_names num' k)"

lemma default_names_eq: "default_names num k = map (\<lambda>i. ''Thread'' @ to_string (num + 1 + int i)) [0..<k]"
proof (induction k arbitrary: num)
  case 0
  then show ?case by simp
next
  case (Suc k)
  have "[0..<Suc k] = 0 # map Suc [0..<k]" by (simp add: map_Suc_upt upt_conv_Cons del: upt_Suc)
  with Suc show ?case
    by (simp add: Thread_new_def setDefaultName_def Let_def o_def add.assoc add.left_commute del: upt_Suc)
qed

text \<open>Default names are distinct, and no order of start, join and destruction leaves a joinable handle.\<close>

lemma default_names_distinct: "distinct (default_names num k)"
  by (auto simp: default_names_eq distinct_map inj_on_def)

lemma destroyed_not_joinable:
  "Thread_delete (snd (Thread_new n name)) \<noteq> Joinable"
  "Thread_delete (Thread_start k t) = (if th_joined t then Joinable else Detached)"
  "th_handle t = Joinable \<Longrightarrow> Thread_join t = Inr t' \<Longrightarrow> Thread_delete t' = JoinedThread"
  by (auto simp: Thread_delete_def Thread_new_def Thread_start_def Thread_join_def Let_def split: prod.splits)

section \<open>EventLoopThread\<close>

text \<open>
  The owner is the thread that calls \<open>startLoop()\<close> and the destructor. \<open>Blocked\<close> is inside
  \<open>cond_.wait\<close>, \<open>Rechecking\<close> after it returned.
\<close>

datatype owner_pc =
    BeforeStart | SemWaiting | Locking | Blocked | Rechecking | HasLoop "ptr option"
  | Quitting | Joining | Destroyed

datatype worker_pc = NotCreated | Created | Posted | Constructed | Published | Looping | Left | Finished

record handshake =
  opc :: owner_pc
  wpc :: worker_pc
  loop_ptr :: "ptr option"
  sem :: nat
  tid_set :: bool
  quit_set :: bool
  exiting :: bool

definition handshake_start :: handshake where
  "handshake_start = \<lparr>opc = BeforeStart, wpc = NotCreated, loop_ptr = None, sem = 0, tid_set = False,
     quit_set = False, exiting = False\<rparr>"

definition handshake_init :: "handshake \<Rightarrow> bool" where
  "handshake_init s \<longleftrightarrow> s = handshake_start"

text \<open>
  \<open>startLoop()\<close>, with \<open>Thread::start()\<close> inside. A condition variable may also wake up without
  a notification; that is a step of its own.
\<close>

inductive start_step :: "handshake \<Rightarrow> handshake \<Rightarrow> bool" where
  create: "opc s = BeforeStart \<Longrightarrow> start_step s (s\<lparr>opc := SemWaiting, wpc := Created\<rparr>)"
| sem_wait: "opc s = SemWaiting \<Longrightarrow> 0 < sem s \<Longrightarrow> start_step s (s\<lparr>sem := sem s - 1, opc := Locking\<rparr>)"
| check_null: "opc s = Locking \<or> opc s = Rechecking \<Longrightarrow> loop_ptr s = None \<Longrightarrow> start_step s (s\<lparr>opc := Blocked\<rparr>)"
| check_set: "opc s = Locking \<or> opc s = Rechecking \<Longrightarrow> loop_ptr s \<noteq> None \<Longrightarrow>
     start_step s (s\<lparr>opc := HasLoop (loop_ptr s)\<rparr>)"

inductive spurious_step :: "handshake \<Rightarrow> handshake \<Rightarrow> bool" where
  spurious: "opc s = Blocked \<Longrightarrow> spurious_step s (s\<lparr>opc := Rechecking\<rparr>)"

text \<open>
  The new thread: \<open>l\<close> is the address of its loop. \<open>notify_one\<close> is inside the locked block that
  publishes the pointer; \<open>enter_loop\<close> is the beginning of \<open>EventLoop::loop()\<close>, which clears the
  quit flag, and \<open>leave\<close> its end.
\<close>

inductive worker_step :: "ptr \<Rightarrow> handshake \<Rightarrow> handshake \<Rightarrow> bool" for l :: ptr where
  post: "wpc s = Created \<Longrightarrow> worker_step l s (s\<lparr>tid_set := True, sem := Suc (sem s), wpc := Posted\<rparr>)"
| construct: "wpc s = Posted \<Longrightarrow> worker_step l s (s\<lparr>wpc := Constructed\<rparr>)"
| publish: "wpc s = Constructed \<Longrightarrow>
     worker_step l s (s\<lparr>loop_ptr := Some l, opc := (if opc s = Blocked then Rechecking else opc s), wpc := Published\<rparr>)"
| enter_loop: "wpc s = Published \<Longrightarrow> worker_step l s (s\<lparr>quit_set := False, wpc := Looping\<rparr>)"
| leave: "wpc s = Looping \<Longrightarrow> quit_set s \<Longrightarrow> worker_step l s (s\<lparr>wpc := Left\<rparr>)"
| finish: "wpc s = Left \<Longrightarrow> worker_step l s (s\<lparr>loop_ptr := None, wpc := Finished\<rparr>)"

text \<open>
  The destructor reads \<open>loop_\<close> without the mutex; with a loop it calls \<open>quit()\<close> on it and
  joins, without one it is done.
\<close>

inductive destroy_step :: "handshake \<Rightarrow> handshake \<Rightarrow> bool" where
  destroy_check: "opc s = HasLoop r \<Longrightarrow> loop_ptr s \<noteq> None \<Longrightarrow>
     destroy_step s (s\<lparr>exiting := True, opc := Quitting\<rparr>)"
| destroy_plain: "opc s = HasLoop r \<Longrightarrow> loop_ptr s = None \<Longrightarrow>
     destroy_step s (s\<lparr>exiting := True, opc := Destroyed\<rparr>)"
| destroy_quit: "opc s = Quitting \<Longrightarrow> destroy_step s (s\<lparr>quit_set := True, opc := Joining\<rparr>)"
| destroy_join: "opc s = Joining \<Longrightarrow> wpc s = Finished \<Longrightarrow> destroy_step s (s\<lparr>opc := Destroyed\<rparr>)"

definition handshake_step :: "ptr \<Rightarrow> handshake \<Rightarrow> handshake \<Rightarrow> bool" where
  "handshake_step l s t \<longleftrightarrow> start_step s t \<or> spurious_step s t \<or> worker_step l s t \<or> destroy_step s t"

inductive_cases start_stepE: "start_step s t"
inductive_cases spurious_stepE: "spurious_step s t"
inductive_cases worker_stepE: "worker_step l s t"
inductive_cases destroy_stepE: "destroy_step s t"

fun has_started :: "owner_pc \<Rightarrow> bool" where
  "has_started BeforeStart = False"
| "has_started SemWaiting = False"
| "has_started _ = True"

fun past_start :: "owner_pc \<Rightarrow> bool" where
  "past_start (HasLoop r) = True"
| "past_start Quitting = True"
| "past_start Joining = True"
| "past_start Destroyed = True"
| "past_start _ = False"

text \<open>
  Nobody but the destructor sets the quit flag, so the loop pointer stays published until the
  owner has used it, and the owner is never left blocked once it is there.
\<close>

definition handshake_inv :: "ptr \<Rightarrow> handshake \<Rightarrow> bool" where
  "handshake_inv l s \<longleftrightarrow>
     (opc s = BeforeStart \<longleftrightarrow> wpc s = NotCreated) \<and>
     (loop_ptr s = (if wpc s = Published \<or> wpc s = Looping \<or> wpc s = Left then Some l else None)) \<and>
     (tid_set s \<longleftrightarrow> wpc s \<noteq> NotCreated \<and> wpc s \<noteq> Created) \<and>
     (sem s = (if tid_set s \<and> \<not> has_started (opc s) then 1 else 0)) \<and>
     (has_started (opc s) \<longrightarrow> tid_set s) \<and>
     (past_start (opc s) \<longrightarrow> wpc s = Published \<or> wpc s = Looping \<or> wpc s = Left \<or> wpc s = Finished) \<and>
     (quit_set s \<or> wpc s = Left \<or> wpc s = Finished \<longrightarrow> opc s = Joining \<or> opc s = Destroyed) \<and>
     (opc s = Blocked \<longrightarrow> wpc s = Posted \<or> wpc s = Constructed) \<and>
     (opc s = Destroyed \<longrightarrow> wpc s = Finished) \<and>
     (\<forall>r. opc s = HasLoop r \<longrightarrow> r = Some l)"

lemma handshake_inv_init: "handshake_init s \<Longrightarrow> handshake_inv l s"
  by (simp add: handshake_init_def handshake_start_def handshake_inv_def)

lemma start_step_inv: "handshake_inv l s \<Longrightarrow> start_step s t \<Longrightarrow> handshake_inv l t"
  by (erule start_stepE; cases "wpc s"; cases "opc s"; simp add: handshake_inv_def; blast?)

lemma spurious_step_inv: "handshake_inv l s \<Longrightarrow> spurious_step s t \<Longrightarrow> handshake_inv l t"
  by (erule spurious_stepE; cases "wpc s"; simp add: handshake_inv_def)

lemma worker_step_inv: "handshake_inv l s \<Longrightarrow> worker_step l s t \<Longrightarrow> handshake_inv l t"
  by (erule worker_stepE; cases "opc s"; simp add: handshake_inv_def; blast?)

lemma destroy_step_inv: "handshake_inv l s \<Longrightarrow> destroy_step s t \<Longrightarrow> handshake_inv l t"
  by (erule destroy_stepE; cases "wpc s"; simp add: handshake_inv_def)

interpretation handshake: safe_machine handshake_init "handshake_step l" "handshake_inv l" for l
  by unfold_locales
    (auto simp: handshake_step_def
      intro: handshake_inv_init start_step_inv spurious_step_inv worker_step_inv destroy_step_inv)

subsection \<open>Progress\<close>

text \<open>
  How far \<open>startLoop()\<close> is from its end. Until the pointer is published the new thread has to
  move, and can; from then on the owner has to move, and can. No step moves away from the end.
\<close>

fun worker_left :: "worker_pc \<Rightarrow> nat" where
  "worker_left NotCreated = 4"
| "worker_left Created = 3"
| "worker_left Posted = 2"
| "worker_left Constructed = 1"
| "worker_left _ = 0"

fun owner_left :: "owner_pc \<Rightarrow> nat" where
  "owner_left BeforeStart = 3"
| "owner_left SemWaiting = 2"
| "owner_left Locking = 1"
| "owner_left Blocked = 1"
| "owner_left Rechecking = 1"
| "owner_left _ = 0"

definition start_left :: "handshake \<Rightarrow> nat" where
  "start_left s = worker_left (wpc s) + owner_left (opc s)"

definition start_turn :: "ptr \<Rightarrow> handshake \<Rightarrow> handshake \<Rightarrow> bool" where
  "start_turn l s t \<longleftrightarrow> (if wpc s = Created \<or> wpc s = Posted \<or> wpc s = Constructed
                         then worker_step l s t else start_step s t)"

lemma start_left_mono:
  "handshake_inv l s \<Longrightarrow> handshake_step l s t \<Longrightarrow> start_left t \<le> start_left s"
  unfolding handshake_step_def
  by (elim disjE start_stepE spurious_stepE worker_stepE destroy_stepE; simp add: start_left_def handshake_inv_def; cases "opc s"; simp)

lemma start_turn_decreases:
  "handshake_inv l s \<Longrightarrow> start_turn l s t \<Longrightarrow> start_left t < start_left s"
  unfolding start_turn_def
  by (cases "wpc s"; simp; erule start_stepE worker_stepE; simp add: start_left_def handshake_inv_def;
      cases "opc s"; simp)

lemma start_turn_enabled:
  assumes "handshake_inv l s" "\<not> past_start (opc s)"
  shows "\<exists>t. start_turn l s t"
proof -
  have "\<exists>t. worker_step l s t" if "wpc s = Created \<or> wpc s = Posted \<or> wpc s = Constructed"
    using that by (blast intro: worker_step.intros)
  moreover have "\<exists>t. start_step s t" if "wpc s = NotCreated"
    using that assms by (auto simp: handshake_inv_def intro: start_step.create)
  moreover have "\<exists>t. start_step s t" if "wpc s = Published \<or> wpc s = Looping"
  proof -
    have "loop_ptr s \<noteq> None" "opc s = SemWaiting \<or> opc s = Locking \<or> opc s = Rechecking"
      "opc s = SemWaiting \<Longrightarrow> 0 < sem s"
      using that assms by (cases "opc s"; force simp: handshake_inv_def)+
    then show ?thesis by (blast intro: start_step.intros)
  qed
  moreover have "wpc s \<noteq> Left" "wpc s \<noteq> Finished"
    using assms by (auto simp: handshake_inv_def)
  ultimately show ?thesis unfolding start_turn_def by (cases "wpc s") auto
qed


text \<open>
  A run of both threads, with steps that leave the state alone, in which neither thread is
  held up for ever when it could move. Nothing is required of wake-ups without notification.
\<close>

definition fair_to :: "(handshake \<Rightarrow> handshake \<Rightarrow> bool) \<Rightarrow> (nat \<Rightarrow> handshake) \<Rightarrow> bool" where
  "fair_to step f \<longleftrightarrow> (\<forall>i. \<exists>j\<ge>i. step (f j) (f (Suc j)) \<or> \<not> (\<exists>t. step (f j) t))"

definition fair_run :: "ptr \<Rightarrow> (nat \<Rightarrow> handshake) \<Rightarrow> bool" where
  "fair_run l f \<longleftrightarrow> handshake_init (f 0) \<and>
     (\<forall>i. f (Suc i) = f i \<or> handshake_step l (f i) (f (Suc i))) \<and>
     fair_to start_step f \<and> fair_to (worker_step l) f"

lemma fair_run_inv: "fair_run l f \<Longrightarrow> handshake_inv l (f i)"
proof (induction i)
  case 0
  then show ?case by (simp add: fair_run_def handshake_inv_init)
next
  case (Suc i)
  then have inv: "handshake_inv l (f i)" by simp
  have "f (Suc i) = f i \<or> handshake_step l (f i) (f (Suc i))"
    using Suc.prems by (simp add: fair_run_def)
  then show ?case
  proof
    assume "f (Suc i) = f i"
    with inv show ?thesis by simp
  next
    assume "handshake_step l (f i) (f (Suc i))"
    then show ?thesis using handshake.inv_step [OF inv] by blast
  qed
qed

lemma fair_run_mono: "fair_run l f \<Longrightarrow> i \<le> j \<Longrightarrow> start_left (f j) \<le> start_left (f i)"
proof (induction "j - i" arbitrary: j)
  case 0
  then show ?case by simp
next
  case (Suc k)
  then obtain j' where j: "j = Suc j'" "i \<le> j'" "k = j' - i" by (cases j) auto
  have "f (Suc j') = f j' \<or> handshake_step l (f j') (f (Suc j'))"
    using Suc.prems by (simp add: fair_run_def)
  then have "start_left (f (Suc j')) \<le> start_left (f j')"
    using start_left_mono [OF fair_run_inv [OF Suc.prems(1)]] by fastforce
  also have "start_left (f j') \<le> start_left (f i)" using Suc j by blast
  finally show ?case using j by simp
qed


definition worker_turn :: "handshake \<Rightarrow> bool" where
  "worker_turn s \<longleftrightarrow> wpc s = Created \<or> wpc s = Posted \<or> wpc s = Constructed"

lemma worker_turn_stable:
  "handshake_step l s t \<Longrightarrow> start_left t = start_left s \<Longrightarrow> handshake_inv l s \<Longrightarrow> worker_turn t = worker_turn s"
  unfolding handshake_step_def
  by (elim disjE start_stepE spurious_stepE worker_stepE destroy_stepE)
    (auto simp: start_left_def worker_turn_def handshake_inv_def split: if_splits)

lemma fair_run_turn_stable:
  assumes "fair_run l f" "\<And>j. i \<le> j \<Longrightarrow> start_left (f j) = start_left (f i)" "i \<le> j"
  shows "worker_turn (f j) = worker_turn (f i)"
  using assms(3)
proof (induction j rule: dec_induct)
  case (step n)
  have "f (Suc n) = f n \<or> handshake_step l (f n) (f (Suc n))" using assms(1) by (simp add: fair_run_def)
  moreover have "start_left (f (Suc n)) = start_left (f n)"
    using assms(2) [of "Suc n"] assms(2) [of n] step.hyps by simp
  ultimately have "worker_turn (f (Suc n)) = worker_turn (f n)"
    using worker_turn_stable [of l "f n" "f (Suc n)"] fair_run_inv [OF assms(1), of n] by auto
  then show ?case using step.IH by simp
qed simp

lemma fair_run_advances:
  assumes run: "fair_run l f" and wait: "\<And>j. i \<le> j \<Longrightarrow> \<not> past_start (opc (f j))"
  shows "\<exists>j\<ge>i. start_left (f j) < start_left (f i)"
proof (rule ccontr)
  assume "\<not> ?thesis"
  then have same: "start_left (f j) = start_left (f i)" if "i \<le> j" for j
    using fair_run_mono [OF run that] that by (meson le_neq_implies_less)
  have turn: "worker_turn (f j) = worker_turn (f i)" if "i \<le> j" for j
    using fair_run_turn_stable [OF run same that] .
  have "\<exists>j\<ge>i. start_turn l (f j) (f (Suc j)) \<or> \<not> (\<exists>t. start_turn l (f j) t)"
  proof (cases "worker_turn (f i)")
    case True
    then have "start_turn l (f j) = worker_step l (f j)" if "i \<le> j" for j
      using turn [OF that] by (auto simp: start_turn_def worker_turn_def fun_eq_iff)
    then show ?thesis using run unfolding fair_run_def fair_to_def by metis
  next
    case False
    then have "start_turn l (f j) = start_step (f j)" if "i \<le> j" for j
      using turn [OF that] by (auto simp: start_turn_def worker_turn_def fun_eq_iff)
    then show ?thesis using run unfolding fair_run_def fair_to_def by metis
  qed
  then obtain j where j: "i \<le> j" "start_turn l (f j) (f (Suc j))"
    using start_turn_enabled [OF fair_run_inv [OF run] wait] by blast
  have "start_left (f (Suc j)) < start_left (f j)"
    using start_turn_decreases [OF fair_run_inv [OF run] j(2)] .
  then show False using same [of j] same [of "Suc j"] j(1) by simp
qed

lemma fair_run_passes_start: "fair_run l f \<Longrightarrow> \<exists>j. past_start (opc (f j))"
proof (rule ccontr)
  assume run: "fair_run l f" and "\<not> (\<exists>j. past_start (opc (f j)))"
  then have wait: "\<not> past_start (opc (f j))" for j by simp
  have "False" if "start_left (f i) = n" for n i
    using that
  proof (induction n arbitrary: i rule: less_induct)
    case (less n)
    then show ?case using fair_run_advances [OF run wait] by blast
  qed
  then show False by blast
qed

lemma enters_past_start:
  "handshake_step l s t \<Longrightarrow> handshake_inv l t \<Longrightarrow> \<not> past_start (opc s) \<Longrightarrow> past_start (opc t) \<Longrightarrow>
   opc t = HasLoop (Some l)"
  unfolding handshake_step_def
  by (elim disjE start_stepE spurious_stepE worker_stepE destroy_stepE)
    (auto simp: handshake_inv_def split: if_splits)

lemma fair_run_returns: "fair_run l f \<Longrightarrow> \<exists>i. opc (f i) = HasLoop (Some l)"
proof -
  assume run: "fair_run l f"
  define i where "i = (LEAST j. past_start (opc (f j)))"
  have here: "past_start (opc (f i))"
    unfolding i_def using fair_run_passes_start [OF run] by (rule LeastI_ex)
  have "\<not> past_start (opc (f 0))"
    using run by (simp add: fair_run_def handshake_init_def handshake_start_def)
  then have "i \<noteq> 0" using here by metis
  then obtain k where k: "i = Suc k" by (cases i) auto
  then have before: "\<not> past_start (opc (f k))"
    using not_less_Least [of k "\<lambda>j. past_start (opc (f j))"] by (simp add: i_def)
  moreover have "f i = f k \<or> handshake_step l (f k) (f i)" using run k by (auto simp: fair_run_def)
  ultimately have "handshake_step l (f k) (f i)" using here by auto
  then show ?thesis using enters_past_start fair_run_inv [OF run] before here by blast
qed


section \<open>Properties\<close>

lemma handshake_live:
  assumes "handshake_inv l s"
  shows "case opc s of
           HasLoop r \<Rightarrow> r = Some l \<and> loop_ptr s = Some l \<and> tid_set s
         | Quitting \<Rightarrow> loop_ptr s = Some l
         | Destroyed \<Rightarrow> wpc s = Finished \<and> loop_ptr s = None
         | _ \<Rightarrow> True"
  using assms by (cases "opc s"; force simp: handshake_inv_def)

text \<open>The steps of a complete start, the owner blocking once; \<open>7\<close> is the address of the loop.\<close>

definition sample_trace :: "handshake list" where
  "sample_trace =
    [handshake_start,
     \<lparr>opc = SemWaiting, wpc = Created, loop_ptr = None, sem = 0, tid_set = False, quit_set = False, exiting = False\<rparr>,
     \<lparr>opc = SemWaiting, wpc = Posted, loop_ptr = None, sem = 1, tid_set = True, quit_set = False, exiting = False\<rparr>,
     \<lparr>opc = Locking, wpc = Posted, loop_ptr = None, sem = 0, tid_set = True, quit_set = False, exiting = False\<rparr>,
     \<lparr>opc = Blocked, wpc = Posted, loop_ptr = None, sem = 0, tid_set = True, quit_set = False, exiting = False\<rparr>,
     \<lparr>opc = Blocked, wpc = Constructed, loop_ptr = None, sem = 0, tid_set = True, quit_set = False, exiting = False\<rparr>,
     \<lparr>opc = Rechecking, wpc = Published, loop_ptr = Some 7, sem = 0, tid_set = True, quit_set = False, exiting = False\<rparr>,
     \<lparr>opc = HasLoop (Some 7), wpc = Published, loop_ptr = Some 7, sem = 0, tid_set = True, quit_set = False, exiting = False\<rparr>,
     \<lparr>opc = HasLoop (Some 7), wpc = Looping, loop_ptr = Some 7, sem = 0, tid_set = True, quit_set = False, exiting = False\<rparr>]"

definition sample_run :: "nat \<Rightarrow> handshake" where
  "sample_run i = sample_trace ! min i 8"

lemma sample_trace_steps:
  "handshake_step 7 (sample_trace ! 0) (sample_trace ! 1)"
  "handshake_step 7 (sample_trace ! 1) (sample_trace ! 2)"
  "handshake_step 7 (sample_trace ! 2) (sample_trace ! 3)"
  "handshake_step 7 (sample_trace ! 3) (sample_trace ! 4)"
  "handshake_step 7 (sample_trace ! 4) (sample_trace ! 5)"
  "handshake_step 7 (sample_trace ! 5) (sample_trace ! 6)"
  "handshake_step 7 (sample_trace ! 6) (sample_trace ! 7)"
  "handshake_step 7 (sample_trace ! 7) (sample_trace ! 8)"
  by (simp_all add: sample_trace_def handshake_start_def handshake_step_def start_step.simps worker_step.simps)

lemma sample_run_step: "sample_run (Suc i) = sample_run i \<or> handshake_step 7 (sample_run i) (sample_run (Suc i))"
proof (cases "i < 8")
  case True
  then consider "i = 0" | "i = 1" | "i = 2" | "i = 3" | "i = 4" | "i = 5" | "i = 6" | "i = 7" by linarith
  then show ?thesis
    using sample_trace_steps by cases (simp_all add: sample_run_def eval_nat_numeral)
qed (simp add: sample_run_def)

lemma sample_run_fair: "fair_run 7 sample_run"
proof -
  have idle: "\<not> (\<exists>t. start_step (sample_run j) t)" "\<not> (\<exists>t. worker_step 7 (sample_run j) t)" if "8 \<le> j" for j
    using that by (simp_all add: sample_run_def sample_trace_def start_step.simps worker_step.simps)
  have "fair_to start_step sample_run" "fair_to (worker_step 7) sample_run"
    unfolding fair_to_def using idle by (meson nat_le_linear order.trans)+
  then show ?thesis
    using sample_run_step
    by (simp add: fair_run_def handshake_init_def) (simp add: sample_run_def sample_trace_def)
qed

lemma sample_reach: "i \<le> 8 \<Longrightarrow> reach handshake_init (handshake_step 7) (sample_trace ! i)"
proof (induction i)
  case 0
  then show ?case by (auto simp: sample_trace_def handshake_init_def intro: reach.intros)
next
  case (Suc i)
  then have "i < 8" "reach handshake_init (handshake_step 7) (sample_trace ! i)" by simp_all
  then show ?case
    using sample_run_step [of i] by (auto simp: sample_run_def intro: reach.intros)
qed

text \<open>C25: The start of an I/O thread cannot hang: in every run in which neither thread is held up
  for ever, with any number of wake-ups without notification, \<open>startLoop()\<close> returns, and what it
  returns is the address of the loop that the new thread runs. No notification is lost when
  \<open>notify_one()\<close> comes before the owner waits.\<close>

theorem startLoop_always_returns:
  "fair_run l f \<Longrightarrow> \<exists>i. opc (f i) = HasLoop (Some l)"
  by (rule fair_run_returns)

theorem startLoop_always_returns_witness: "\<exists>i. opc (sample_run i) = HasLoop (Some 7)"
  by (rule startLoop_always_returns [OF sample_run_fair])

text \<open>C26: In every reachable state the pointer that \<open>startLoop()\<close> returned is the published loop
  and the thread id is set; when the destructor calls \<open>quit()\<close> on the loop, the loop is still
  there; and the destructor returns only after the thread function has ended.\<close>

theorem EventLoopThread_loop_live:
  assumes "reach handshake_init (handshake_step l) s"
  shows "case opc s of
           HasLoop r \<Rightarrow> r = Some l \<and> loop_ptr s = Some l \<and> tid_set s
         | Quitting \<Rightarrow> loop_ptr s = Some l
         | Destroyed \<Rightarrow> wpc s = Finished \<and> loop_ptr s = None
         | _ \<Rightarrow> True"
  by (rule handshake_live [OF handshake.reach_inv [OF assms]])

theorem EventLoopThread_loop_live_witness:
  "opc (sample_trace ! 8) = HasLoop (Some 7) \<and> loop_ptr (sample_trace ! 8) = Some 7"
  using EventLoopThread_loop_live [OF sample_reach [of 8]] by (simp add: sample_trace_def)

text \<open>C38: The destructor can wait for ever: when it calls \<open>quit()\<close> after the pointer is published
  but before the new thread enters \<open>EventLoop::loop()\<close>, the entry of the loop clears the flag
  again, and a reachable state has the owner in \<open>join()\<close>, the thread in its loop and no step
  of either.\<close>

theorem EventLoopThread_destructor_can_hang:
  "\<exists>s. reach handshake_init (handshake_step 7) s \<and> opc s = Joining \<and> wpc s = Looping \<and>
       \<not> (\<exists>t. handshake_step 7 s t)"
proof -
  let ?s = "\<lambda>a w q. \<lparr>opc = a, wpc = w, loop_ptr = Some 7, sem = 0, tid_set = True, quit_set = q, exiting = True\<rparr>"
  have "reach handshake_init (handshake_step 7) (sample_trace ! 7)" by (rule sample_reach) simp
  moreover have "handshake_step 7 (sample_trace ! 7) (?s Quitting Published False)"
    by (simp add: sample_trace_def handshake_step_def destroy_step.simps)
  moreover have "handshake_step 7 (?s Quitting Published False) (?s Joining Published True)"
    by (simp add: handshake_step_def destroy_step.simps)
  moreover have "handshake_step 7 (?s Joining Published True) (?s Joining Looping False)"
    by (simp add: handshake_step_def worker_step.simps)
  ultimately have "reach handshake_init (handshake_step 7) (?s Joining Looping False)"
    by (blast intro: reach.intros)
  moreover have "\<not> (\<exists>t. handshake_step 7 (?s Joining Looping False) t)"
    by (simp add: handshake_step_def start_step.simps spurious_step.simps worker_step.simps destroy_step.simps)
  ultimately show ?thesis by (intro exI [of _ "?s Joining Looping False"]) simp
qed

end
