(* ===== verification/Logging.thy ===== *)
theory Logging
  imports Prelude
begin

text \<open>
  \<open>Timestamp\<close> and \<open>Logger\<close>: the text of a time, the tagged log lines, and the two-step write of
  the macros (set the level of the shared logger, then log) under interleaving. The clock
  \<open>time\<close> and the time zone conversion \<open>localtime\<close> are parameters; the standard output is the
  string written to it.
\<close>

section \<open>Timestamp\<close>

record time_stamp =
  microSecondsSinceEpoch :: int

definition Timestamp_zero :: time_stamp where
  "Timestamp_zero = \<lparr>microSecondsSinceEpoch = 0\<rparr>"

definition Timestamp_new :: "int \<Rightarrow> time_stamp" where
  "Timestamp_new t = \<lparr>microSecondsSinceEpoch = t\<rparr>"

text \<open>\<open>time\<close> is the answer of \<open>time(NULL)\<close>: seconds.\<close>

definition Timestamp_now :: "int \<Rightarrow> time_stamp" where
  "Timestamp_now time = Timestamp_new time"

text \<open>The broken-down time of the standard library; its fields are \<open>int\<close>s.\<close>

record tm =
  tm_year :: int
  tm_mon :: int
  tm_mday :: int
  tm_hour :: int
  tm_min :: int
  tm_sec :: int

text \<open>Signed addition overflows into undefined behaviour.\<close>

definition int_add :: "int \<Rightarrow> int \<Rightarrow> int res" where
  "int_add a b = (if - (2 ^ 31) \<le> a + b \<and> a + b < 2 ^ 31 then Inr (a + b) else Inl (UB ''signed overflow''))"

text \<open>The conversions \<open>%4d\<close> and \<open>%02d\<close>: padding in front; zeros go behind the sign.\<close>

definition pad_left :: "char \<Rightarrow> nat \<Rightarrow> string \<Rightarrow> string" where
  "pad_left c w s = replicate (w - length s) c @ s"

definition fmt_4d :: "int \<Rightarrow> string" where
  "fmt_4d i = pad_left CHR '' '' 4 (to_string i)"

definition fmt_02d :: "int \<Rightarrow> string" where
  "fmt_02d i = (if i < 0 then CHR ''-'' # pad_left CHR ''0'' 1 (dec (nat (- i))) else pad_left CHR ''0'' 2 (dec (nat i)))"

text \<open>\<open>snprintf\<close> into a buffer of \<open>n\<close> bytes keeps \<open>n - 1\<close> characters and ends the string.\<close>

definition snprintf :: "nat \<Rightarrow> string \<Rightarrow> string" where
  "snprintf n s = take (n - 1) s"

text \<open>\<open>localtime\<close> returns a null pointer when the year does not fit an \<open>int\<close>.\<close>

definition Timestamp_toString :: "(int \<Rightarrow> tm option) \<Rightarrow> time_stamp \<Rightarrow> string res" where
  "Timestamp_toString localtime t =
     (case localtime (microSecondsSinceEpoch t) of
        None \<Rightarrow> Inl (UB ''null tm'')
      | Some d \<Rightarrow>
          bindR (int_add (tm_year d) 1900) (\<lambda>year.
          bindR (int_add (tm_mon d) 1) (\<lambda>mon.
            Inr (snprintf 128
              (fmt_4d year @ ''/'' @ fmt_02d mon @ ''/'' @ fmt_02d (tm_mday d) @ '' '' @
               fmt_02d (tm_hour d) @ '':'' @ fmt_02d (tm_min d) @ '':'' @ fmt_02d (tm_sec d))))))"

text \<open>The ranges the C standard gives the fields, leap seconds included, for years of four digits.\<close>

definition tm_ok :: "tm \<Rightarrow> bool" where
  "tm_ok d \<longleftrightarrow> -900 \<le> tm_year d \<and> tm_year d < 8100 \<and> 0 \<le> tm_mon d \<and> tm_mon d < 12 \<and>
     1 \<le> tm_mday d \<and> tm_mday d \<le> 31 \<and> 0 \<le> tm_hour d \<and> tm_hour d < 24 \<and>
     0 \<le> tm_min d \<and> tm_min d < 60 \<and> 0 \<le> tm_sec d \<and> tm_sec d \<le> 60"

text \<open>A reader of the format, as a log parser would do it: fields at fixed columns.\<close>

definition column :: "nat \<Rightarrow> nat \<Rightarrow> string \<Rightarrow> int" where
  "column i n s = int (undec (take n (drop i s)))"

definition read_time :: "string \<Rightarrow> tm" where
  "read_time s = \<lparr>tm_year = column 0 4 s - 1900, tm_mon = column 5 2 s - 1, tm_mday = column 8 2 s,
     tm_hour = column 11 2 s, tm_min = column 14 2 s, tm_sec = column 17 2 s\<rparr>"

lemma undec_zeros [simp]: "undec (CHR ''0'' # s) = undec s"
  by (simp add: undec_def)


lemma fmt_02d_spec:
  assumes "0 \<le> i" "i < 100"
  shows "length (fmt_02d i) = 2" "undec (fmt_02d i) = nat i"
proof -
  have "length (dec (nat i)) = (if nat i < 10 then 1 else 2)"
    using assms length_dec_1 [of "nat i"] length_dec_1 [of "nat i div 10"] length_dec_Suc [of "nat i"] by auto
  then show "length (fmt_02d i) = 2" "undec (fmt_02d i) = nat i"
    using assms by (auto simp: fmt_02d_def pad_left_def eval_nat_numeral split: if_splits)
qed

lemma fmt_4d_spec:
  assumes "1000 \<le> i" "i < 10000"
  shows "length (fmt_4d i) = 4" "undec (fmt_4d i) = nat i"
proof -
  have "length (dec (nat i)) = 4"
    using assms length_dec_Suc [of "nat i"] length_dec_Suc [of "nat i div 10"]
      length_dec_Suc [of "nat i div 10 div 10"] length_dec_1 [of "nat i div 10 div 10 div 10"]
    by simp
  then show "length (fmt_4d i) = 4" "undec (fmt_4d i) = nat i"
    using assms by (simp_all add: fmt_4d_def pad_left_def to_string_def)
qed

text \<open>The text of a valid time has 19 characters, so the buffer of 128 never cuts it.\<close>

lemma toString_valid:
  assumes "localtime (microSecondsSinceEpoch t) = Some d" "tm_ok d"
  shows "Timestamp_toString localtime t = Inr (fmt_4d (tm_year d + 1900) @ ''/'' @ fmt_02d (tm_mon d + 1) @
           ''/'' @ fmt_02d (tm_mday d) @ '' '' @ fmt_02d (tm_hour d) @ '':'' @ fmt_02d (tm_min d) @ '':'' @
           fmt_02d (tm_sec d))"
  using assms
  by (simp add: Timestamp_toString_def int_add_def tm_ok_def snprintf_def fmt_02d_spec fmt_4d_spec)

lemma column_skip: "length x \<le> i \<Longrightarrow> column i n (x @ s) = column (i - length x) n s"
  by (simp add: column_def)

lemma column_here: "length x = n \<Longrightarrow> column 0 n (x @ s) = int (undec x)"
  by (simp add: column_def)

lemma column_Cons: "0 < i \<Longrightarrow> column i n (c # s) = column (i - 1) n s"
  by (cases i) (simp_all add: column_def)

lemma column_end: "length x = n \<Longrightarrow> column 0 n x = int (undec x)"
  by (simp add: column_def)

section \<open>Logger\<close>

datatype LogLevel = INFO | ERROR | FATAL | DEBUG

text \<open>The member is an \<open>int\<close> that starts as zero, the value of INFO.\<close>

fun level_code :: "LogLevel \<Rightarrow> int" where
  "level_code INFO = 0"
| "level_code ERROR = 1"
| "level_code FATAL = 2"
| "level_code DEBUG = 3"

record logger =
  logLevel :: int
  log_out :: string

definition Logger_instance :: logger where
  "Logger_instance = \<lparr>logLevel = 0, log_out = ''''\<rparr>"

definition setLogLevel :: "int \<Rightarrow> logger \<Rightarrow> logger" where
  "setLogLevel level g = g\<lparr>logLevel := level\<rparr>"

definition level_tag :: "int \<Rightarrow> string" where
  "level_tag level =
     (if level = level_code INFO then ''[INFO]''
      else if level = level_code ERROR then ''[ERROR]''
      else if level = level_code FATAL then ''[FATAL]''
      else if level = level_code DEBUG then ''[DEBUG]''
      else '''')"

text \<open>\<open>now\<close> is the text of the current time.\<close>

definition Logger_log :: "string res \<Rightarrow> string \<Rightarrow> logger \<Rightarrow> logger res" where
  "Logger_log now msg g =
     (let g1 = g\<lparr>log_out := log_out g @ level_tag (logLevel g)\<rparr>
      in bindR now (\<lambda>time. Inr (g1\<lparr>log_out := log_out g1 @ time @ '' : '' @ msg @ [CHR 0x0A]\<rparr>)))"

text \<open>
  The macros: \<open>body\<close> is the whole formatted message, of which the buffer of 1024 bytes keeps 1023;
  the conversion to \<open>std::string\<close> ends at the first NUL. FATAL ends the process. LOG_DEBUG is
  empty unless MUDEBUG is defined.
\<close>

definition c_string :: "string \<Rightarrow> string" where
  "c_string s = takeWhile (\<lambda>c. c \<noteq> CHR 0x00) s"

definition LOG :: "LogLevel \<Rightarrow> string res \<Rightarrow> string \<Rightarrow> logger \<Rightarrow> logger res" where
  "LOG level now body g =
     bindR (Logger_log now (c_string (snprintf 1024 body)) (setLogLevel (level_code level) g)) (\<lambda>g1.
       if level = FATAL then Inl (Exit body) else Inr g1)"

definition LOG_DEBUG :: "bool \<Rightarrow> string res \<Rightarrow> string \<Rightarrow> logger \<Rightarrow> logger res" where
  "LOG_DEBUG mudebug now body g = (if mudebug then LOG DEBUG now body g else Inr g)"

definition log_line :: "LogLevel \<Rightarrow> string \<Rightarrow> string \<Rightarrow> string" where
  "log_line level time body = level_tag (level_code level) @ time @ '' : '' @ c_string (snprintf 1024 body) @ [CHR 0x0A]"

lemma LOG_line:
  "level \<noteq> FATAL \<Longrightarrow>
   LOG level (Inr time) body g = Inr \<lparr>logLevel = level_code level, log_out = log_out g @ log_line level time body\<rparr>"
  by (simp add: LOG_def Logger_log_def setLogLevel_def log_line_def Let_def)

section \<open>Two threads\<close>

text \<open>
  The macro writes the level and reads it back in a later call, with nothing between that keeps
  other threads out: each call is one action here, and a schedule is an interleaving.
\<close>

datatype log_action = SetLevel LogLevel | Log string

fun log_act :: "string \<Rightarrow> log_action \<Rightarrow> logger \<Rightarrow> logger res" where
  "log_act time (SetLevel level) g = Inr (setLogLevel (level_code level) g)"
| "log_act time (Log body) g = Logger_log (Inr time) (c_string (snprintf 1024 body)) g"

definition log_actions :: "LogLevel \<Rightarrow> string \<Rightarrow> log_action list" where
  "log_actions level body = [SetLevel level, Log body]"

lemma LOG_by_actions:
  "level \<noteq> FATAL \<Longrightarrow> foldR (log_act time) (log_actions level body) g = LOG level (Inr time) body g"
  by (simp add: log_actions_def LOG_def)

section \<open>Properties\<close>

text \<open>C35: The text of a time is well formed and loses nothing: for every time the zone conversion
  answers with fields in their ranges and a year of four digits, \<open>toString()\<close> succeeds with 19
  characters, and reading the columns back gives the fields.\<close>

theorem Timestamp_toString_roundtrip:
  assumes "localtime (microSecondsSinceEpoch t) = Some d" "tm_ok d"
  shows "\<exists>s. Timestamp_toString localtime t = Inr s \<and> length s = 19 \<and> read_time s = d"
  using assms
  by (simp add: toString_valid) (simp add: read_time_def column_skip column_here column_end column_Cons tm_ok_def
    fmt_02d_spec fmt_4d_spec)

definition sample_tm :: tm where
  "sample_tm = \<lparr>tm_year = 124, tm_mon = 1, tm_mday = 29, tm_hour = 9, tm_min = 5, tm_sec = 0\<rparr>"

theorem Timestamp_toString_roundtrip_witness:
  "\<exists>s. Timestamp_toString (\<lambda>_. Some sample_tm) (Timestamp_now 1709197500) = Inr s \<and> length s = 19 \<and>
       read_time s = sample_tm"
  by (rule Timestamp_toString_roundtrip) (simp_all add: sample_tm_def tm_ok_def)

text \<open>A thread that logs alone writes, for every message, one line with the tag of its own level,
  the time and the first 1023 bytes of the message; the level that the logger had before does not
  matter.\<close>

theorem log_lines_tagged:
  assumes "\<forall>(level, body) \<in> set ms. level \<noteq> FATAL"
  shows "\<exists>lv. foldR (\<lambda>(level, body). LOG level (Inr time) body) ms g =
           Inr \<lparr>logLevel = lv, log_out = log_out g @ concat (map (\<lambda>(level, body). log_line level time body) ms)\<rparr>"
  using assms
proof (induction ms arbitrary: g)
  case Nil
  then show ?case by (intro exI [of _ "logLevel g"]) simp
next
  case (Cons m ms)
  obtain level body where m: "m = (level, body)" by (cases m)
  with Cons have "level \<noteq> FATAL" by auto
  with Cons m show ?case
    using Cons.IH [of "\<lparr>logLevel = level_code level, log_out = log_out g @ log_line level time body\<rparr>"]
    by (simp add: LOG_line)
qed

theorem log_lines_tagged_witness:
  "\<exists>lv. foldR (\<lambda>(level, body). LOG level (Inr ''T'') body) [(INFO, ''up''), (ERROR, ''lost'')] Logger_instance =
     Inr \<lparr>logLevel = lv, log_out = ''[INFO]T : up'' @ [CHR 0x0A] @ ''[ERROR]T : lost'' @ [CHR 0x0A]\<rparr>"
  using log_lines_tagged [of "[(INFO, ''up''), (ERROR, ''lost'')]" "''T''" Logger_instance]
  by (simp add: Logger_instance_def log_line_def level_tag_def c_string_def snprintf_def)

text \<open>With two threads the tag can be wrong: among the interleavings of one LOG_INFO and one
  LOG_ERROR there is one that writes the information message as an error, and no interleaving is
  prevented by the code.\<close>

theorem log_tag_race:
  "\<exists>sched \<in> shuffles (log_actions INFO ''up'') (log_actions ERROR ''lost'').
     foldR (log_act ''T'') sched Logger_instance =
       Inr \<lparr>logLevel = level_code ERROR, log_out = log_line ERROR ''T'' ''up'' @ log_line ERROR ''T'' ''lost''\<rparr>"
  by (rule bexI [of _ "[SetLevel INFO, SetLevel ERROR, Log ''up'', Log ''lost'']"])
    (simp_all add: log_actions_def Logger_instance_def Logger_log_def setLogLevel_def log_line_def)

end
