(* ===== verification/ConnLife.thy ===== *)
theory ConnLife
  imports TcpServer ConnProps
begin

text \<open>
  The life of one connection inside the server. \<open>effect\<close> is what an operation does outside its
  own connection object: it stays well formed, keeps what \<open>keeps\<close> says, and queues only tasks
  that its state allows (\<open>reports\<close>, \<open>new_task\<close>). \<open>phase\<close> relates the place of the connection in the
  server's map, the tasks about it, its state and its channel; the lemmas say how each step of
  the server moves it.
\<close>

section \<open>What an operation of a connection reports\<close>

text \<open>The tasks that an operation on the loop thread queues.\<close>

fun notification :: "profile \<Rightarrow> Functor \<Rightarrow> bool" where
  "notification p (F_writeComplete i) \<longleftrightarrow> i = p_id p \<and> p_done p \<noteq> None"
| "notification p (F_highWaterMark i n) \<longleftrightarrow> i = p_id p \<and> p_high p \<noteq> None"
| "notification p _ \<longleftrightarrow> False"

definition reports :: "profile \<Rightarrow> aconn \<Rightarrow> aconn \<Rightarrow> bool" where
  "reports p a b \<longleftrightarrow> astate a \<le> astate b \<and>
     (\<exists>new. atasks b = atasks a @ new \<and> list_all (notification p) new) \<and>
     (\<exists>ns. anotices b = anotices a @ ns \<and> set ns \<subseteq> {p_id p} \<and> (ns \<noteq> [] \<longrightarrow> astate b = kDisconnected))"

fun loop_event :: "conn_event \<Rightarrow> bool" where
  "loop_event (RemoteSend addr m) = False"
| "loop_event RemoteShutdown = False"
| "loop_event e = True"

lemma reports_refl [simp]: "reports p a a"
  by (auto simp: reports_def)

lemma reports_trans: "reports p a b \<Longrightarrow> reports p b c \<Longrightarrow> reports p a c"
proof -
  assume 1: "reports p a b" and 2: "reports p b c"
  from 1 obtain new ns where b: "astate a \<le> astate b" "atasks b = atasks a @ new" "list_all (notification p) new"
    "anotices b = anotices a @ ns" "set ns \<subseteq> {p_id p}" "ns \<noteq> [] \<longrightarrow> astate b = kDisconnected"
    by (auto simp: reports_def)
  from 2 obtain new' ns' where c: "astate b \<le> astate c" "atasks c = atasks b @ new'" "list_all (notification p) new'"
    "anotices c = anotices b @ ns'" "set ns' \<subseteq> {p_id p}" "ns' \<noteq> [] \<longrightarrow> astate c = kDisconnected"
    by (auto simp: reports_def)
  have "astate c = kDisconnected" if "ns \<noteq> []"
    using b(6) c(1) that kDisconnected_top[of "astate c"] by auto
  with b c show ?thesis
    unfolding reports_def
    by (intro conjI exI[of _ "new @ new'"] exI[of _ "ns @ ns'"]) auto
qed

lemma reports_same:
  "astate a \<le> astate b \<Longrightarrow> atasks b = atasks a \<Longrightarrow> anotices b = anotices a \<Longrightarrow> reports p a b"
  by (auto simp: reports_def)

lemma reports_state: "astate a \<le> st \<Longrightarrow> reports p a (a\<lparr>astate := st\<rparr>)"
  by (rule reports_same) simp_all

lemma reports_task: "notification p F \<Longrightarrow> reports p a (a_task F a)"
  by (auto simp: reports_def a_task_def)

lemma reports_push: "reports p a (a_push io a)"
  by (rule reports_same) (simp_all add: a_push_def)

lemma reports_backlog: "reports p a (a\<lparr>abacklog := x\<rparr>)"
  by (rule reports_same) simp_all

lemma reports_enqueue: "reports p a (a_enqueue p d a)"
proof -
  have "reports p a (if p_mark p \<le> n \<and> m < p_mark p \<and> p_high p \<noteq> None
      then a_task (F_highWaterMark (p_id p) n) a else a)" for n m
    by (auto intro: reports_task)
  then show ?thesis unfolding a_enqueue_def Let_def by (rule reports_trans[OF _ reports_backlog])
qed

lemma reports_done: "reports p a (if p_done p \<noteq> None then a_task (F_writeComplete (p_id p)) a else a)"
  by (auto intro: reports_task)

lemma reports_send: "reports p a (a_send os p d a)"
proof (cases "astate a = kDisconnected \<or> abacklog a \<noteq> []")
  case True
  then show ?thesis by (auto simp: a_send_def intro: reports_enqueue)
next
  case False
  have enq: "reports p a (a_enqueue p x (a_push io a))" for x io
    by (rule reports_trans[OF reports_push reports_enqueue])
  have don: "reports p a (if p_done p \<noteq> None then a_task (F_writeComplete (p_id p)) (a_push io a) else a_push io a)" for io
    by (rule reports_trans[OF reports_push reports_done])
  show ?thesis
    using False enq don reports_push
    by (cases "sys_write os (p_fd p) (ahist a) d") (simp_all add: a_send_def Let_def)
qed

lemma reports_fin: "reports p a (a_fin os p a)"
  by (auto simp: a_fin_def intro: reports_push)

lemma reports_write: "reports p a (a_write os p a)"
proof (cases "a_idle a")
  case True
  then show ?thesis by (simp add: a_write_def)
next
  case False
  show ?thesis
  proof (cases "sys_write os (p_fd p) (ahist a) (abacklog a)")
    case (SysErr e)
    with False reports_push show ?thesis by (simp add: a_write_def)
  next
    case (SysOk k)
    let ?b = "(a_push (Wrote (abacklog a) (SysOk k)) a)\<lparr>abacklog := drop k (abacklog a)\<rparr>"
    let ?c = "if p_done p \<noteq> None then a_task (F_writeComplete (p_id p)) ?b else ?b"
    have b: "reports p a ?b" by (rule reports_trans[OF reports_push reports_backlog])
    have c: "reports p a ?c" by (rule reports_trans[OF b reports_done])
    have "a_write os p a = (if abacklog ?b \<noteq> [] then ?b
        else if astate ?c = kDisconnecting then a_fin os p ?c else ?c)"
      using False SysOk by (auto simp: a_write_def Let_def a_push_def)
    with b c reports_trans[OF c reports_fin] show ?thesis by simp
  qed
qed

interpretation told: conn_moves os p loop_event "reports p" for os p
proof unfold_locales
  show "reports p a (a_shutdown os p a)" for a
    by (auto simp: a_shutdown_def intro: reports_trans[OF reports_state reports_fin])
  show "reports p a (a\<lparr>anotices := anotices a @ [p_id p]\<rparr>)" if "astate a = kDisconnected" for a
    using that by (simp add: reports_def)
  show "reports p a c" if "reports p a b" "reports p b c" for a b c using that by (rule reports_trans)
qed (auto intro: reports_send reports_fin reports_write reports_push reports_state reports_same)


section \<open>What an operation does to its connection and its loop\<close>

text \<open>The tasks an operation may queue: \<open>st\<close> and \<open>st'\<close> are the states before and after.\<close>

fun new_task :: "profile \<Rightarrow> (ptr \<rightharpoonup> char list) \<Rightarrow> StateE \<Rightarrow> StateE \<Rightarrow> Functor \<Rightarrow> bool" where
  "new_task p strs st st' (F_sendInLoop i addr n) \<longleftrightarrow>
     i = p_id p \<and> st = kConnected \<and> event_ok p strs st' (Task (F_sendInLoop i addr n))"
| "new_task p strs st st' (F_shutdownInLoop i) \<longleftrightarrow> i = p_id p \<and> st = kConnected \<and> kDisconnecting \<le> st'"
| "new_task p strs st st' F \<longleftrightarrow> notification p F"

definition effect :: "int \<Rightarrow> cstate \<Rightarrow> cstate \<Rightarrow> bool" where
  "effect tid s t \<longleftrightarrow> conn_ok tid t \<and> keeps s t \<and> conn_state (conn s) \<le> conn_state (conn t) \<and>
     (\<exists>new. pendingFunctors (cloop t) = pendingFunctors (cloop s) @ new \<and>
        list_all (new_task (profile_of s) (strings s) (conn_state (conn s)) (conn_state (conn t))) new) \<and>
     (\<exists>ns. upcalls t = upcalls s @ ns \<and> set ns \<subseteq> {conn_id (conn s)} \<and>
        (ns \<noteq> [] \<longrightarrow> conn_state (conn t) = kDisconnected))"

lemma notification_new_task: "notification p F \<Longrightarrow> new_task p strs st st' F"
  by (cases F) simp_all

lemma profile_of_id [simp]: "p_id (profile_of s) = conn_id (conn s)" "p_fd (profile_of s) = sockfd (conn s)"
  "p_done (profile_of s) = writeCompleteCallback (conn s)" "p_high (profile_of s) = highWaterMarkCallback (conn s)"
  by (simp_all add: profile_of_def)

lemma conn_event_effect:
  assumes "env_ok os" and "conn_ok tid s" and "event_ok (profile_of s) (strings s) (conn_state (conn s)) e"
    and "loop_event e"
  shows "safely (conn_step os tid e s) (effect tid s)"
proof (rule safely_mono)
  let ?p = "profile_of s"
  have ok: "profile_ok ?p" "implements ?p tid (abs_conn s) s" using assms(2) by (simp_all add: conn_ok_def)
  show "safely (conn_step os tid e s)
      (implements ?p tid (a_step os ?p (strings s) (readFd_iov (inputBuffer (conn s))) e (abs_conn s)))"
    using assms(3) by (intro conn_step_implements[OF assms(1) ok]) simp
  fix t
  assume t: "conn_step os tid e s = Inr t"
    and imp: "implements ?p tid (a_step os ?p (strings s) (readFd_iov (inputBuffer (conn s))) e (abs_conn s)) t"
  then have abs: "abs_conn t = a_step os ?p (strings s) (readFd_iov (inputBuffer (conn s))) e (abs_conn s)"
    and prof: "profile_of t = ?p" by (simp_all add: implements_def stands_def)
  have "reports ?p (abs_conn s) (abs_conn t)"
    unfolding abs using assms(3,4) by (intro told.R_step) simp_all
  moreover have "keeps s t" using ends_D[OF conn_step_keeps[OF keeps_refl] t] .
  moreover have "conn_ok tid t" using imp ok(1) by (simp add: conn_ok_def prof abs)
  ultimately show "effect tid s t"
    by (auto simp: effect_def reports_def list_all_iff intro!: notification_new_task)
qed

text \<open>Well-formedness speaks of the connection, the poller and the thread of the loop alone.\<close>

lemma conn_ok_iff:
  "conn_ok tid s \<longleftrightarrow> profile_ok (profile_of s) \<and> threadId (cloop s) = tid \<and>
     buffer_ok (inputBuffer (conn s)) \<and> buffer_ok (outputBuffer (conn s)) \<and> chan_live s \<and>
     (writing s \<longleftrightarrow> content (outputBuffer (conn s)) \<noteq> [] \<and> conn_state (conn s) \<noteq> kDisconnected)"
  by (simp add: conn_ok_def implements_def stands_def a_idle_def)

text \<open>So it is a relation of the connection and the poller of its loop.\<close>

definition fit :: "tcp_conn \<Rightarrow> poller \<Rightarrow> bool" where
  "fit c P \<longleftrightarrow> (\<forall>L. el_poller L = P \<longrightarrow>
     conn_ok (threadId L) \<lparr>conn = c, cloop = L, strings = Map.empty, upcalls = []\<rparr>)"

lemma conn_ok_fit: "conn_ok tid s \<longleftrightarrow> fit (conn s) (el_poller (cloop s)) \<and> threadId (cloop s) = tid"
  by (auto simp: fit_def conn_ok_iff profile_of_def chan_live_def writing_def)

lemma fit_conn_ok: "fit c (el_poller L) \<Longrightarrow> conn_ok (threadId L) \<lparr>conn = c, cloop = L, strings = strs, upcalls = us\<rparr>"
  by (simp add: conn_ok_fit)

lemma fit_some_loop: "\<exists>L :: event_loop. el_poller L = P"
  by (rule exI[of _ "\<lparr>looping = False, quit = False, threadId = 0, pollReturnTime = 0, el_poller = P, wakeupFd = 0,
    wakeupChannel = 0, activeChannels = [], callingPendingFunctors = False, pendingFunctors = [],
    wakeWrites = 0, wakeReads = 0\<rparr>"]) simp

lemma fitD:
  assumes "fit c P"
  shows "poller_ok P" "chan_fd (conn_channel c) (sockfd c) P"
    "channelMap P (sockfd c) = None \<or> channelMap P (sockfd c) = Some (conn_channel c)"
proof -
  obtain L :: event_loop where L: "el_poller L = P" using fit_some_loop by blast
  with assms have "conn_ok (threadId L) \<lparr>conn = c, cloop = L, strings = Map.empty, upcalls = []\<rparr>"
    by (simp add: fit_def)
  with L show "poller_ok P" "chan_fd (conn_channel c) (sockfd c) P"
    "channelMap P (sockfd c) = None \<or> channelMap P (sockfd c) = Some (conn_channel c)"
    by (auto simp: conn_ok_iff chan_live_def fd_free_def chan_fd_def)
qed

text \<open>A step that leaves the channel alone, as one of another connection of the same loop.\<close>

lemma fit_same:
  assumes "fit c P" and "chans P' (conn_channel c) = chans P (conn_channel c)"
    and "channelMap P' (sockfd c) = channelMap P (sockfd c)" and "poller_ok P'"
  shows "fit c P'"
proof -
  obtain L :: event_loop where "el_poller L = P" using fit_some_loop by blast
  with assms(1) have "conn_ok (threadId L) \<lparr>conn = c, cloop = L, strings = Map.empty, upcalls = []\<rparr>" "el_poller L = P"
    by (simp_all add: fit_def)
  with assms(2-4) show ?thesis
    by (simp add: fit_def conn_ok_iff profile_of_def chan_live_def writing_def fd_free_def)
qed

lemma fit_frame:
  assumes "fit c P" and "poller_frame q fd P P'" and "chan_fd q fd P"
    and "poller_ok P'" and "conn_channel c \<noteq> q" and "sockfd c \<noteq> fd"
  shows "fit c P'"
  by (rule fit_same[OF assms(1) _ _ assms(4)]) (use assms(2,3,5,6) in \<open>simp_all add: poller_frame_def\<close>)

text \<open>A call of \<open>poll\<close>.\<close>

lemma fit_revents:
  assumes "fit c P" and "same_but_revents P P'" and "poller_ok P'"
  shows "fit c P'"
proof -
  obtain L :: event_loop where "el_poller L = P" using fit_some_loop by blast
  with assms(1) have "conn_ok (threadId L) \<lparr>conn = c, cloop = L, strings = Map.empty, upcalls = []\<rparr>" "el_poller L = P"
    by (simp_all add: fit_def)
  with assms(3) same_but_reventsD(1)[OF assms(2)] same_but_reventsD(4)[OF assms(2), of "conn_channel c"] show ?thesis
    by (auto simp: fit_def conn_ok_iff profile_of_def chan_live_def writing_def fd_free_def set_revents_def isWriting_def)
qed

text \<open>Calls of other threads.\<close>

lemma remote_send_effect:
  assumes "conn_ok tid s" and "tid' \<noteq> tid" and "strings s addr = Some msg" and "length msg \<le> vec_max"
  shows "\<exists>t. TcpConnection_send os tid' addr msg s = Inr t \<and> effect tid s t"
proof (cases "conn_state (conn s) = kConnected")
  case True
  let ?t = "upd_loop (queueInLoop tid' (F_sendInLoop (conn_id (conn s)) addr (length msg))) s"
  have "\<not> isInLoopThread tid' (cloop s)" using assms(1,2) by (auto simp: conn_ok_iff isInLoopThread_def)
  with True have "TcpConnection_send os tid' addr msg s = Inr ?t"
    by (simp add: TcpConnection_send_def runInLoop_def)
  moreover have "conn_ok tid ?t"
    using assms(1) by (simp add: conn_ok_iff upd_loop_def profile_of_def chan_live_def writing_def)
  then have "effect tid s ?t"
    using True assms(3,4) by (simp add: effect_def) (simp add: upd_loop_def)
  ultimately show ?thesis by blast
next
  case False
  then show ?thesis using assms(1) by (simp add: TcpConnection_send_def effect_def)
qed

lemma remote_shutdown_effect:
  assumes "conn_ok tid s" and "tid' \<noteq> tid"
  shows "\<exists>t. TcpConnection_shutdown os tid' s = Inr t \<and> effect tid s t"
proof (cases "conn_state (conn s) = kConnected")
  case True
  let ?s = "setState kDisconnecting s"
  let ?t = "upd_loop (queueInLoop tid' (F_shutdownInLoop (conn_id (conn s)))) ?s"
  have "\<not> isInLoopThread tid' (cloop ?s)"
    using assms(1,2) by (auto simp: conn_ok_iff isInLoopThread_def setState_def upd_conn_def)
  with True have "TcpConnection_shutdown os tid' s = Inr ?t"
    by (simp add: TcpConnection_shutdown_def runInLoop_def)
  moreover have "conn_ok tid ?t"
    using assms(1) True
    by (simp add: conn_ok_iff upd_loop_def setState_def upd_conn_def profile_of_def chan_live_def writing_def)
  moreover have "keeps s ?t" by (rule keeps_trans[OF keeps_steps(2) keeps_steps(5)])
  ultimately show ?thesis
    using True by (intro exI[of _ ?t]) (simp add: effect_def upd_loop_def setState_def upd_conn_def)
next
  case False
  then show ?thesis using assms(1) by (simp add: TcpConnection_shutdown_def effect_def)
qed


section \<open>The life of a connection in the server\<close>

text \<open>
  A task refers to at most one connection. \<open>sendInLoop\<close> and \<open>shutdownInLoop\<close> bind the raw
  \<open>this\<close>; the other closures hold a \<open>shared_ptr\<close>.
\<close>

fun about :: "nat \<Rightarrow> Functor \<Rightarrow> bool" where
  "about i (F_connectEstablished j) = (j = i)"
| "about i (F_connectDestroyed j) = (j = i)"
| "about i (F_sendInLoop j addr n) = (j = i)"
| "about i (F_shutdownInLoop j) = (j = i)"
| "about i (F_writeComplete j) = (j = i)"
| "about i (F_highWaterMark j n) = (j = i)"
| "about i (F_removeConnectionInLoop j) = (j = i)"
| "about i F_acceptorListen = False"
| "about i (F_user n) = False"

fun raw_this :: "Functor \<Rightarrow> bool" where
  "raw_this (F_sendInLoop i addr n) = True"
| "raw_this (F_shutdownInLoop i) = True"
| "raw_this F = False"

text \<open>Behind every raw task of the connection the queue still has its \<open>connectDestroyed\<close>.\<close>

fun raw_covered :: "nat \<Rightarrow> Functor list \<Rightarrow> bool" where
  "raw_covered i [] = True"
| "raw_covered i (F # Q) \<longleftrightarrow> (raw_this F \<and> about i F \<longrightarrow> F_connectDestroyed i \<in> set Q) \<and> raw_covered i Q"

lemma raw_covered_append:
  "raw_covered i Q \<Longrightarrow> \<forall>F \<in> set N. raw_this F \<longrightarrow> \<not> about i F \<Longrightarrow> raw_covered i (Q @ N)"
proof (induction Q)
  case Nil
  then show ?case by (induction N) auto
qed auto

lemma raw_covered_split: "raw_covered i (Q1 @ F # Q2) \<Longrightarrow> raw_this F \<Longrightarrow> about i F \<Longrightarrow> F_connectDestroyed i \<in> set Q2"
  by (induction Q1) auto

lemma raw_covered_destroy: "raw_covered i (Q @ [F_connectDestroyed i])"
  by (induction Q) auto

text \<open>
  \<open>M\<close>: the server's map has the connection. \<open>Q\<close>: the tasks of its loop. \<open>R\<close>: its removal is
  queued on the base loop. \<open>st\<close>: its state. \<open>reg\<close>: its channel is in the poller's map.
\<close>

definition phase :: "profile \<Rightarrow> (ptr \<rightharpoonup> char list) \<Rightarrow> nat \<Rightarrow> bool \<Rightarrow> Functor list \<Rightarrow> bool \<Rightarrow> StateE \<Rightarrow> bool \<Rightarrow> bool" where
  "phase p strs i M Q R st reg \<longleftrightarrow>
     (F_connectEstablished i \<in> set Q \<longrightarrow> M \<and> \<not> R \<and> \<not> reg \<and> filter (about i) Q = [F_connectEstablished i]) \<and>
     (R \<or> F_connectDestroyed i \<in> set Q \<or> \<not> M \<longrightarrow> st = kDisconnected) \<and>
     (M \<or> F_connectDestroyed i \<in> set Q \<or> \<not> reg) \<and>
     (M \<or> raw_covered i Q) \<and>
     (\<forall>F \<in> set Q. about i F \<longrightarrow> event_ok p strs st (Task F))"

lemma phaseD:
  assumes "phase p strs i M Q R st reg"
  shows "F_connectEstablished i \<in> set Q \<Longrightarrow> M \<and> \<not> R \<and> \<not> reg \<and> st = kConnecting"
    "R \<or> F_connectDestroyed i \<in> set Q \<or> \<not> M \<Longrightarrow> st = kDisconnected"
    "M \<or> F_connectDestroyed i \<in> set Q \<or> \<not> reg"
    "F \<in> set Q \<Longrightarrow> about i F \<Longrightarrow> event_ok p strs st (Task F)"
  using assms by (auto simp: phase_def)

text \<open>Another connection's tasks join the queue.\<close>

lemma phase_other:
  assumes "phase p strs i M Q R st reg" and "\<forall>F \<in> set N. \<not> about i F"
  shows "phase p strs i M (Q @ N) R st reg"
proof -
  have "F_connectEstablished i \<notin> set N" "F_connectDestroyed i \<notin> set N" using assms(2) by fastforce+
  moreover have "filter (about i) N = []" using assms(2) by simp
  ultimately show ?thesis using assms raw_covered_append[of i Q N] by (auto simp: phase_def)
qed

lemma event_ok_later:
  "event_ok p strs st (Task F) \<Longrightarrow> st \<le> st' \<Longrightarrow> (\<forall>i. F \<noteq> F_connectEstablished i) \<Longrightarrow> event_ok p strs st' (Task F)"
  by (cases F) (auto dest: kDisconnected_top)

lemma new_taskD:
  assumes "new_task p strs st st' F" and "p_id p = i"
  shows "about i F" "about j F \<longleftrightarrow> j = i" "event_ok p strs st' (Task F)" "F \<noteq> F_connectEstablished j"
    "F \<noteq> F_connectDestroyed j" "F \<noteq> F_removeConnectionInLoop j" "raw_this F \<Longrightarrow> st = kConnected"
  using assms by (cases F; auto)+

text \<open>An operation of the connection while the server or its destruction still holds it.\<close>

lemma phase_op:
  assumes "phase p strs i M Q R st reg" and "M \<or> F_connectDestroyed i \<in> set Q"
    and "F_connectEstablished i \<notin> set Q" and "st \<le> st'" and "list_all (new_task p strs st st') N" and "p_id p = i"
  shows "phase p strs i M (Q @ N) R st' reg'"
proof -
  have N: "about i F" "event_ok p strs st' (Task F)" "F \<noteq> F_connectEstablished j" "F \<noteq> F_connectDestroyed j"
    "raw_this F \<Longrightarrow> st = kConnected" if "F \<in> set N" for F j
    using assms(5,6) that new_taskD[of p strs st st' F i] by (auto simp: list_all_iff)
  have "F_connectEstablished i \<notin> set N" "F_connectDestroyed i \<notin> set N" using N(3,4) by blast+
  moreover have "st' = kDisconnected" if "R \<or> F_connectDestroyed i \<in> set Q \<or> \<not> M"
    using phaseD(2)[OF assms(1) that] assms(4) kDisconnected_top by simp
  moreover have "raw_covered i (Q @ N)" if "\<not> M"
    using assms(1) that phaseD(2)[OF assms(1)] N(5) by (intro raw_covered_append) (auto simp: phase_def)
  moreover have "event_ok p strs st' (Task F)" if "F \<in> set Q" "about i F" for F
    by (rule event_ok_later[OF phaseD(4)[OF assms(1) that] assms(4)]) (use assms(3) that in auto)
  ultimately show ?thesis using assms(2,3) N(2) by (auto simp: phase_def)
qed

text \<open>A task of a connection that nobody holds but the task itself: the connection is disconnected.\<close>

lemma phase_quiet:
  assumes "phase p strs i M Q R st reg" and "F_connectEstablished i \<notin> set Q" and "st = kDisconnected"
    and "list_all (new_task p strs st kDisconnected) N" and "p_id p = i"
  shows "phase p strs i M (Q @ N) R kDisconnected reg"
proof -
  have N: "about i F" "event_ok p strs st (Task F)" "F \<noteq> F_connectEstablished j" "F \<noteq> F_connectDestroyed j"
    "\<not> raw_this F" if "F \<in> set N" for F j
    using assms(3,4,5) that new_taskD[of p strs st kDisconnected F i] by (auto simp: list_all_iff)
  have "F_connectEstablished i \<notin> set N" "F_connectDestroyed i \<notin> set N" using N(3,4) by blast+
  moreover have "raw_covered i (Q @ N)" if "\<not> M"
    using assms(1) that N(5) by (intro raw_covered_append) (auto simp: phase_def)
  ultimately show ?thesis using assms(1,2,3) N(2) by (auto simp: phase_def)
qed

text \<open>The close callback: the removal is queued on the base loop, or done there.\<close>

lemma phase_queue_removal:
  "phase p strs i M Q R st reg \<Longrightarrow> F_connectEstablished i \<notin> set Q \<Longrightarrow> st = kDisconnected \<Longrightarrow>
   phase p strs i M Q True st reg"
  by (auto simp: phase_def)

lemma phase_remove:
  "phase p strs i M Q R st reg \<Longrightarrow> F_connectEstablished i \<notin> set Q \<Longrightarrow> st = kDisconnected \<Longrightarrow>
   phase p strs i M' (Q @ [F_connectDestroyed i]) R st reg"
  by (auto simp: phase_def raw_covered_destroy)

text \<open>The loop drops a task it has run.\<close>

lemma phase_pop:
  assumes "phase p strs i M (F # Q) R st reg"
    and "F = F_connectDestroyed i \<Longrightarrow> M \<or> F_connectDestroyed i \<in> set Q \<or> \<not> reg"
  shows "phase p strs i M Q R st reg"
proof -
  have "filter (about i) Q = [F_connectEstablished i] \<and> \<not> about i F"
    if "F_connectEstablished i \<in> set Q" "filter (about i) (F # Q) = [F_connectEstablished i]"
  proof -
    have "F_connectEstablished i \<in> set (filter (about i) Q)" using that(1) by simp
    with that(2) show ?thesis by (cases "about i F") auto
  qed
  moreover from assms(1) have "F_connectEstablished i \<in> set Q \<Longrightarrow> filter (about i) (F # Q) = [F_connectEstablished i]"
    unfolding phase_def by (metis list.set_intros(2))
  ultimately have E: "F_connectEstablished i \<in> set Q \<longrightarrow> M \<and> \<not> R \<and> \<not> reg \<and> filter (about i) Q = [F_connectEstablished i]"
    using phaseD(1)[OF assms(1)] by simp
  have "M \<or> F_connectDestroyed i \<in> set Q \<or> \<not> reg"
    using phaseD(3)[OF assms(1)] assms(2) by (cases "F = F_connectDestroyed i") auto
  moreover have "R \<or> F_connectDestroyed i \<in> set Q \<or> \<not> M \<longrightarrow> st = kDisconnected"
    using phaseD(2)[OF assms(1)] by simp
  moreover have "M \<or> raw_covered i Q" using assms(1) by (auto simp: phase_def)
  moreover have "\<forall>F \<in> set Q. about i F \<longrightarrow> event_ok p strs st (Task F)"
    using phaseD(4)[OF assms(1)] by simp
  ultimately show ?thesis using E unfolding phase_def by blast
qed

lemma phase_pop_weaken: "phase p strs i M Q R st reg \<Longrightarrow> (R' \<Longrightarrow> R) \<Longrightarrow> phase p strs i M Q R' st reg"
  by (auto simp: phase_def)

text \<open>Establishing a connection whose connection callback calls nothing back.\<close>

lemma established_silent:
  assumes "ctl_doc os" and "conn_ok tid s" and "connectionCallback (conn s) = Some (\<lambda>_. [])"
  shows "\<exists>P. connectEstablished os tid s = Inr ((setState kConnected s)\<lparr>cloop := (cloop s)\<lparr>el_poller := P\<rparr>\<rparr>) \<and> poller_ok P \<and>
    channelMap P (sockfd (conn s)) = Some (conn_channel (conn s))"
proof -
  let ?q = "conn_channel (conn s)" and ?P = "el_poller (cloop s)"
  obtain ch where ch: "poller_ok ?P" "chans ?P ?q = Some ch" "ch_fd ch = sockfd (conn s)" "fd_free ?P ?q (sockfd (conn s))"
    using assms(2) by (auto simp: conn_ok_iff chan_live_def)
  let ?ch = "Channel_tie (conn_id (conn s)) ch" and ?T = "store ?q (Channel_tie (conn_id (conn s)) ch) ?P"
  have "poller_ok ?T" by (rule poller_ok_store[OF ch(1,2)]) (simp_all add: Channel_tie_def)
  moreover have "chans ?T ?q = Some ?ch" "fd_free ?T ?q (ch_fd ?ch)" using ch(3,4) by (simp_all add: fd_free_def Channel_tie_def)
  ultimately obtain P where P: "Channel_set_interest os EnableReading ?q ?T = Inr P" "poller_ok P"
    "chans P ?q = Some (set_index (index_after (change_events EnableReading ?ch)) (change_events EnableReading ?ch))"
    using epoll.set_law[OF conjI[OF assms(1)], of ?T ?q ?ch EnableReading] by force
  have "channelMap P (sockfd (conn s)) = Some ?q"
    using poller_okD(1)[OF P(2,3)] ch(3) by (auto simp: chan_ok_def index_after_def set_index_def Channel_tie_def kNew_def kAdded_def kDeleted_def split: if_splits)
  with P(1,2) show ?thesis
    using ch(2) assms(3)
    by (intro exI[of _ P]) (simp add: connectEstablished_def chan_of_def deref_def Let_def setState_def upd_conn_def upd_loop_def conn_interest_def
        set_interest_def with_poller_def call_connectionCallback_def run_script_def)
qed

end
