(* ===== verification/Reactor.thy ===== *)
theory Reactor
  imports ConnLife
begin

text \<open>
  The invariant of the server at work, on a \<open>view\<close>: the connections, the pollers and the tasks of
  the loops, the server's map. It says for every connection that exists which tasks refer to it,
  where it is in its life cycle, and that it implements its specification; the lemmas say that
  each kind of step keeps it.
\<close>

section \<open>What the invariant sees of the server\<close>

text \<open>
  The connections, the pollers of the loops, the tasks of every loop (those of the batch it is
  running first), the connections in the server's map, the strings, the base loop.
\<close>

record view =
  v_conns :: "nat \<rightharpoonup> tcp_conn"
  v_pollers :: "ptr \<rightharpoonup> poller"
  v_queue :: "ptr \<Rightarrow> Functor list"
  v_map :: "nat set"
  v_strings :: "ptr \<rightharpoonup> char list"
  v_base :: ptr

definition prof :: "tcp_conn \<Rightarrow> profile" where
  "prof c = \<lparr>p_id = conn_id c, p_fd = sockfd c, p_conn = connectionCallback c,
     p_msg = messageCallback c, p_done = writeCompleteCallback c,
     p_high = highWaterMarkCallback c, p_close = conn_closeCallback c, p_mark = highWaterMark c\<rparr>"

lemma prof_of: "profile_of s = prof (conn s)"
  by (simp add: profile_of_def prof_def)

text \<open>A \<open>shared_ptr\<close> to the connection exists: in the map, or bound in a task.\<close>

definition pinned :: "view \<Rightarrow> nat \<Rightarrow> bool" where
  "pinned v i \<longleftrightarrow> i \<in> v_map v \<or> (\<exists>p. \<exists>F \<in> set (v_queue v p). about i F \<and> \<not> raw_this F)"

lemma pinned_map: "i \<in> v_map v \<Longrightarrow> pinned v i"
  by (simp add: pinned_def)

lemma pinned_task: "F \<in> set (v_queue v p) \<Longrightarrow> about i F \<Longrightarrow> \<not> raw_this F \<Longrightarrow> pinned v i"
  unfolding pinned_def by blast

lemma pinned_more:
  assumes "pinned v i" and "v_map v \<subseteq> v_map v'" and "\<And>p. set (v_queue v p) \<subseteq> set (v_queue v' p)"
  shows "pinned v' i"
  using assms unfolding pinned_def by blast

definition registered :: "tcp_conn \<Rightarrow> poller \<Rightarrow> bool" where
  "registered c P \<longleftrightarrow> channelMap P (sockfd c) = Some (conn_channel c)"

text \<open>The channel of a connection calls back that connection.\<close>

definition bound :: "tcp_conn \<Rightarrow> poller \<Rightarrow> bool" where
  "bound c P \<longleftrightarrow> map_option callbacks_of (chans P (conn_channel c)) =
     Some (Some (ConnHandleRead (conn_id c)), Some (ConnHandleWrite (conn_id c)),
       Some (ConnHandleClose (conn_id c)), Some (ConnHandleError (conn_id c)))"

text \<open>The channel of a wake-up descriptor or, in the base loop, of the listening socket.\<close>

definition infra_chan :: "bool \<Rightarrow> poller \<Rightarrow> ptr \<Rightarrow> bool" where
  "infra_chan base P q \<longleftrightarrow> map_option callbacks_of (chans P q) = Some (Some LoopHandleRead, None, None, None) \<or>
     base \<and> map_option callbacks_of (chans P q) = Some (Some AcceptorHandleRead, None, None, None)"

lemma infra_not_bound: "infra_chan b P q \<Longrightarrow> bound c P \<Longrightarrow> conn_channel c \<noteq> q"
  by (auto simp: infra_chan_def bound_def)

lemma bound_frame:
  assumes "bound c P" and "poller_frame (conn_channel c) (sockfd c) P P'" and "chan_fd (conn_channel c) (sockfd c) P"
    and "conn_channel c' = conn_channel c" and "conn_id c' = conn_id c"
  shows "bound c' P'"
  using assms by (auto simp: bound_def poller_frame_def)

definition in_phase :: "view \<Rightarrow> nat \<Rightarrow> tcp_conn \<Rightarrow> poller \<Rightarrow> bool" where
  "in_phase v i c P \<longleftrightarrow> phase (prof c) (v_strings v) i (i \<in> v_map v) (v_queue v (conn_loop c))
     (F_removeConnectionInLoop i \<in> set (v_queue v (v_base v))) (conn_state c) (registered c P)"

definition conn_inv :: "view \<Rightarrow> nat \<Rightarrow> tcp_conn \<Rightarrow> bool" where
  "conn_inv v i c \<longleftrightarrow> conn_id c = i \<and>
     (case v_pollers v (conn_loop c) of None \<Rightarrow> False
      | Some P \<Rightarrow> in_phase v i c P \<and> (pinned v i \<longrightarrow> fit c P) \<and> bound c P)"

text \<open>Every task is on the loop where it belongs.\<close>

definition task_at :: "view \<Rightarrow> ptr \<Rightarrow> Functor \<Rightarrow> nat \<Rightarrow> bool" where
  "task_at v p F i \<longleftrightarrow> (\<exists>c. v_conns v i = Some c \<and>
     p = (if F = F_removeConnectionInLoop i then v_base v else conn_loop c))"

lemma task_at_cong: "v_conns v' = v_conns v \<Longrightarrow> v_base v' = v_base v \<Longrightarrow> task_at v' p F i = task_at v p F i"
  by (simp only: task_at_def)

lemma task_at_conn: "task_at v p F i \<Longrightarrow> v_conns v i \<noteq> None"
  unfolding task_at_def by blast

definition task_inv :: "view \<Rightarrow> bool" where
  "task_inv v \<longleftrightarrow> (\<forall>p. \<forall>F \<in> set (v_queue v p). \<forall>i. about i F \<longrightarrow> task_at v p F i)"

text \<open>\<open>infra\<close>: the descriptors of the wake-up channels and of the listening socket.\<close>

definition poller_inv :: "fd set \<Rightarrow> view \<Rightarrow> bool" where
  "poller_inv infra v \<longleftrightarrow> (\<forall>p P. v_pollers v p = Some P \<longrightarrow> poller_ok P \<and>
     (\<forall>g q. channelMap P g = Some q \<longrightarrow> g \<in> infra \<and> infra_chan (p = v_base v) P q \<or>
        (\<exists>i c. v_conns v i = Some c \<and> conn_loop c = p \<and> sockfd c = g \<and> conn_channel c = q)))"

definition apart :: "view \<Rightarrow> bool" where
  "apart v \<longleftrightarrow> (\<forall>i j c d. i \<noteq> j \<longrightarrow> v_conns v i = Some c \<longrightarrow> v_conns v j = Some d \<longrightarrow>
     conn_channel c \<noteq> conn_channel d \<and> (pinned v i \<and> pinned v j \<longrightarrow> sockfd c \<noteq> sockfd d))"

definition view_inv :: "fd set \<Rightarrow> view \<Rightarrow> bool" where
  "view_inv infra v \<longleftrightarrow> (\<forall>i c. v_conns v i = Some c \<longrightarrow> conn_inv v i c) \<and>
     (\<forall>i \<in> v_map v. v_conns v i \<noteq> None) \<and> task_inv v \<and> poller_inv infra v \<and> apart v"

lemma view_invD:
  assumes "view_inv infra v"
  shows "v_conns v i = Some c \<Longrightarrow> conn_inv v i c" "i \<in> v_map v \<Longrightarrow> v_conns v i \<noteq> None"
    "task_inv v" "poller_inv infra v" "apart v"
  using assms by (auto simp: view_inv_def)

lemma conn_invD:
  assumes "conn_inv v i c" and "v_pollers v (conn_loop c) = Some P"
  shows "conn_id c = i" "in_phase v i c P" "pinned v i \<Longrightarrow> fit c P" "bound c P"
  using assms by (simp_all add: conn_inv_def)

lemma conn_inv_poller: "conn_inv v i c \<Longrightarrow> \<exists>P. v_pollers v (conn_loop c) = Some P"
  by (auto simp: conn_inv_def split: option.splits)

lemma conn_invI:
  "conn_id c = i \<Longrightarrow> v_pollers v (conn_loop c) = Some P \<Longrightarrow> in_phase v i c P \<Longrightarrow> (pinned v i \<Longrightarrow> fit c P) \<Longrightarrow>
   bound c P \<Longrightarrow> conn_inv v i c"
  by (simp add: conn_inv_def)

lemma task_invD: "task_inv v \<Longrightarrow> F \<in> set (v_queue v p) \<Longrightarrow> about i F \<Longrightarrow> task_at v p F i"
  by (auto simp: task_inv_def)

lemma task_inv_more:
  assumes "task_inv v" and "\<And>p F i. task_at v p F i \<Longrightarrow> task_at v' p F i"
    and "\<And>p F i. F \<in> set (v_queue v' p) \<Longrightarrow> about i F \<Longrightarrow> F \<in> set (v_queue v p) \<or> task_at v' p F i"
  shows "task_inv v'"
  using assms unfolding task_inv_def by blast

lemma apartD:
  assumes "apart v" and "i \<noteq> j" and "v_conns v i = Some c" and "v_conns v j = Some d"
  shows "conn_channel c \<noteq> conn_channel d" "pinned v i \<Longrightarrow> pinned v j \<Longrightarrow> sockfd c \<noteq> sockfd d"
  using assms by (auto simp: apart_def)

text \<open>Tasks about one connection say nothing about another.\<close>

lemma about_unique: "about i F \<Longrightarrow> about j F \<longleftrightarrow> j = i"
  by (cases F) auto

subsection \<open>An operation of a connection\<close>

lemma view_op:
  assumes inv: "view_inv infra v" and c: "v_conns v i = Some c" "v_pollers v (conn_loop c) = Some P" "pinned v i"
    and same: "conn_id c' = conn_id c" "conn_loop c' = conn_loop c" "conn_channel c' = conn_channel c" "sockfd c' = sockfd c"
    and frame: "poller_frame (conn_channel c) (sockfd c) P P'" and fit': "fit c' P'"
    and N: "\<forall>F \<in> set N. about i F \<and> F \<noteq> F_removeConnectionInLoop i"
    and ph: "phase (prof c') (v_strings v) i (i \<in> v_map v) (v_queue v (conn_loop c) @ N)
      (F_removeConnectionInLoop i \<in> set (v_queue v (v_base v))) (conn_state c') (registered c' P')"
  shows "view_inv infra (v\<lparr>v_conns := (v_conns v)(i \<mapsto> c'), v_pollers := (v_pollers v)(conn_loop c \<mapsto> P'),
      v_queue := (v_queue v)(conn_loop c := v_queue v (conn_loop c) @ N)\<rparr>)" (is "view_inv infra ?v")
proof -
  note D = view_invD[OF inv]
  have id: "conn_id c = i" and fit: "fit c P" and bound: "bound c P"
    using conn_invD[OF D(1)[OF c(1)] c(2)] c(3) by auto
  have bound': "bound c' P'" using bound_frame[OF bound frame fitD(2)[OF fit]] same by simp
  have queue: "v_queue ?v p = v_queue v p @ (if p = conn_loop c then N else [])" for p by simp
  have pins: "pinned ?v j \<longleftrightarrow> pinned v j" for j
  proof (cases "j = i")
    case True
    have "pinned ?v i" using c(3) unfolding pinned_def queue by auto
    with True c(3) show ?thesis by simp
  next
    case False
    then have "about j F \<longleftrightarrow> False" if "F \<in> set N" for F using N about_unique that by blast
    then show ?thesis unfolding pinned_def queue by auto
  qed
  have R: "F_removeConnectionInLoop j \<in> set (v_queue ?v (v_base v)) \<longleftrightarrow>
      F_removeConnectionInLoop j \<in> set (v_queue v (v_base v))" for j
    using N by (auto simp: queue)
  have "conn_inv ?v i c'"
    using id same fit' bound' ph R[of i] by (intro conn_invI[where P = P']) (simp_all add: in_phase_def)
  moreover have "conn_inv ?v j d" if j: "j \<noteq> i" "v_conns v j = Some d" for j d
  proof -
    obtain PD where PD: "v_pollers v (conn_loop d) = Some PD" using conn_inv_poller[OF D(1)[OF j(2)]] by blast
    note J = conn_invD[OF D(1)[OF j(2)] PD]
    let ?PD = "if conn_loop d = conn_loop c then P' else PD"
    have ne: "conn_channel d \<noteq> conn_channel c" using apartD(1)[OF D(5) j(1) j(2) c(1)] .
    have P: "PD = P" if "conn_loop d = conn_loop c" using that PD c(2) by simp
    have chan: "chan_fd (conn_channel c) (sockfd c) P" using fitD(2)[OF fit] .
    have reg: "registered d ?PD = registered d PD"
    proof (cases "conn_loop d = conn_loop c")
      case True
      show ?thesis
      proof (cases "sockfd d = sockfd c")
        case eq: True
        have "channelMap P (sockfd c) \<noteq> Some (conn_channel d)" using fitD(3)[OF fit] ne by auto
        moreover have "channelMap P' (sockfd c) \<noteq> Some (conn_channel d)" using fitD(3)[OF fit'] ne same by auto
        ultimately show ?thesis using True P eq by (simp add: registered_def)
      next
        case False
        then have "channelMap P' (sockfd d) = channelMap P (sockfd d)"
          using frame chan by (simp add: poller_frame_def)
        with True P show ?thesis by (simp add: registered_def)
      qed
    qed simp
    have "phase (prof d) (v_strings v) j (j \<in> v_map v) (v_queue ?v (conn_loop d))
        (F_removeConnectionInLoop j \<in> set (v_queue v (v_base v))) (conn_state d) (registered d PD)"
      using J(2) N about_unique[of i] j(1) unfolding in_phase_def queue by (intro phase_other) auto
    moreover have "fit d ?PD" if "pinned v j"
    proof (cases "conn_loop d = conn_loop c")
      case True
      have "sockfd d \<noteq> sockfd c" using apartD(2)[OF D(5) j(1) j(2) c(1) that c(3)] .
      with fit_frame[OF _ frame chan fitD(1)[OF fit'] ne] J(3)[OF that] P True show ?thesis by simp
    next
      case False
      with J(3)[OF that] show ?thesis by simp
    qed
    moreover have "bound d ?PD" using J(4) frame chan ne P by (auto simp: bound_def poller_frame_def)
    ultimately show ?thesis
      using J(1) PD reg R[of j] pins[of j] by (intro conn_invI[where P = ?PD]) (simp_all add: in_phase_def)
  qed
  moreover have "task_inv ?v"
  proof (rule task_inv_more[OF D(3)])
    show "task_at ?v p F j" if "task_at v p F j" for p F j
      using that c(1) same by (auto simp: task_at_def)
    show "F \<in> set (v_queue v p) \<or> task_at ?v p F j" if "F \<in> set (v_queue ?v p)" "about j F" for p F j
      using that N about_unique[of i F j] same unfolding queue by (auto simp: task_at_def split: if_splits)
  qed
  moreover have "poller_inv infra ?v"
    unfolding poller_inv_def
  proof (intro allI impI)
    fix p PP
    assume pp: "v_pollers ?v p = Some PP"
    show "poller_ok PP \<and> (\<forall>g q. channelMap PP g = Some q \<longrightarrow> g \<in> infra \<and> infra_chan (p = v_base ?v) PP q \<or>
        (\<exists>i c. v_conns ?v i = Some c \<and> conn_loop c = p \<and> sockfd c = g \<and> conn_channel c = q))"
    proof (intro conjI allI impI)
      show "poller_ok PP" using pp D(4) fitD(1)[OF fit'] by (auto simp: poller_inv_def split: if_splits)
      fix g q
      assume g: "channelMap PP g = Some q"
      show "g \<in> infra \<and> infra_chan (p = v_base ?v) PP q \<or>
        (\<exists>i c. v_conns ?v i = Some c \<and> conn_loop c = p \<and> sockfd c = g \<and> conn_channel c = q)"
      proof (cases "p = conn_loop c \<and> g = sockfd c")
        case True
        with pp g fitD(3)[OF fit'] same have "q = conn_channel c" by auto
        with True same show ?thesis by (intro disjI2 exI[of _ i] exI[of _ c']) simp
      next
        case False
        obtain P0 where P0: "v_pollers v p = Some P0" "channelMap P0 g = Some q"
            "p = conn_loop c \<Longrightarrow> P0 = P \<and> PP = P'" "p \<noteq> conn_loop c \<Longrightarrow> PP = P0"
          using False pp g c(2) frame fitD(2)[OF fit] by (cases "p = conn_loop c") (auto simp: poller_frame_def)
        then have "g \<in> infra \<and> infra_chan (p = v_base v) P0 q \<or>
            (\<exists>j d. v_conns v j = Some d \<and> conn_loop d = p \<and> sockfd d = g \<and> conn_channel d = q)"
          using D(4) unfolding poller_inv_def by blast
        then show ?thesis
        proof
          assume infra: "g \<in> infra \<and> infra_chan (p = v_base v) P0 q"
          have "chans PP q = chans P0 q"
          proof (cases "p = conn_loop c")
            case True
            with P0(3) have "P0 = P" "PP = P'" by simp_all
            moreover from this infra have "conn_channel c \<noteq> q" using infra_not_bound[OF _ bound] by blast
            ultimately show ?thesis using frame fitD(2)[OF fit] by (simp add: poller_frame_def)
          qed (simp add: P0(4))
          with infra show ?thesis by (simp add: infra_chan_def)
        next
          assume "\<exists>j d. v_conns v j = Some d \<and> conn_loop d = p \<and> sockfd d = g \<and> conn_channel d = q"
          then obtain j d where j: "v_conns v j = Some d" "conn_loop d = p" "sockfd d = g" "conn_channel d = q" by blast
          then have "j \<noteq> i" using False c(1) by auto
          with j show ?thesis by (intro disjI2 exI[of _ j] exI[of _ d]) simp
        qed
      qed
    qed
  qed
  moreover have "apart ?v"
    using D(5) c(1) same unfolding apart_def pins by (auto split: if_splits)
  ultimately show ?thesis
    using D(2) unfolding view_inv_def by (auto split: if_splits)
qed


subsection \<open>Changes of the queues and of the map\<close>

text \<open>
  When only queues and map change, the invariant asks for the phase of every connection and
  for \<open>fit\<close> of what becomes pinned.
\<close>

lemma view_queues:
  assumes inv: "view_inv infra v"
    and v': "v' = v\<lparr>v_queue := q, v_map := M\<rparr>" and M: "\<forall>i \<in> M. v_conns v i \<noteq> None"
    and tasks: "task_inv v'"
    and pins: "\<And>j. pinned v' j \<Longrightarrow> pinned v j"
    and ph: "\<And>j d P. v_conns v j = Some d \<Longrightarrow> v_pollers v (conn_loop d) = Some P \<Longrightarrow> in_phase v j d P \<Longrightarrow> in_phase v' j d P"
  shows "view_inv infra v'"
proof -
  note D = view_invD[OF inv]
  have "conn_inv v' j d" if "v_conns v' j = Some d" for j d
  proof -
    have j: "v_conns v j = Some d" using that v' by simp
    obtain P where P: "v_pollers v (conn_loop d) = Some P" using conn_inv_poller[OF D(1)[OF j]] by blast
    note J = conn_invD[OF D(1)[OF j] P]
    show ?thesis using J P v' ph[OF j P J(2)] pins by (intro conn_invI[where P = P]) auto
  qed
  moreover have "poller_inv infra v'" using D(4) v' by (simp add: poller_inv_def)
  moreover have "apart v'" using D(5) v' pins by (auto simp: apart_def)
  ultimately show ?thesis using M tasks v' by (simp add: view_inv_def)
qed

lemma in_phase_change:
  assumes "in_phase v j d P" and "v_strings v' = v_strings v" and "v_base v' = v_base v"
    and "\<And>R. R = (F_removeConnectionInLoop j \<in> set (v_queue v (v_base v))) \<Longrightarrow>
        phase (prof d) (v_strings v) j (j \<in> v_map v) (v_queue v (conn_loop d)) R (conn_state d) (registered d P) \<Longrightarrow>
        phase (prof d) (v_strings v) j (j \<in> v_map v') (v_queue v' (conn_loop d))
          (F_removeConnectionInLoop j \<in> set (v_queue v' (v_base v))) (conn_state d) (registered d P)"
  shows "in_phase v' j d P"
  using assms by (simp add: in_phase_def)

text \<open>The removal of connection \<open>i\<close> is queued on the base loop.\<close>

lemma phase_append_removal:
  assumes "phase p strs i M Q R st reg" and "F_connectEstablished i \<in> set Q \<Longrightarrow> j \<noteq> i"
  shows "phase p strs i M (Q @ [F_removeConnectionInLoop j]) R st reg"
  using assms raw_covered_append[of i Q "[F_removeConnectionInLoop j]"] by (auto simp: phase_def)

lemma view_queue_removal:
  assumes inv: "view_inv infra v" and c: "v_conns v i = Some c" "pinned v i" "conn_state c = kDisconnected"
    and E: "F_connectEstablished i \<notin> set (v_queue v (conn_loop c))"
  shows "view_inv infra (v\<lparr>v_queue := (v_queue v)(v_base v := v_queue v (v_base v) @ [F_removeConnectionInLoop i])\<rparr>)"
    (is "view_inv infra ?v")
proof (rule view_queues[OF inv, where M = "v_map v" and q = "v_queue ?v"])
  have queue: "v_queue ?v p = v_queue v p @ (if p = v_base v then [F_removeConnectionInLoop i] else [])" for p by simp
  show "?v = v\<lparr>v_queue := v_queue ?v, v_map := v_map v\<rparr>" by simp
  show "\<forall>j \<in> v_map v. v_conns v j \<noteq> None" using view_invD(2)[OF inv] by blast
  show "task_inv ?v"
  proof (rule task_inv_more[OF view_invD(3)[OF inv]])
    show "task_at ?v p F j" if "task_at v p F j" for p F j
      using that by (subst task_at_cong[of _ v]) simp_all
    show "F \<in> set (v_queue v p) \<or> task_at ?v p F j" if "F \<in> set (v_queue ?v p)" "about j F" for p F j
      using that c(1) unfolding queue by (auto simp: task_at_def split: if_splits)
  qed
  show "pinned v j" if "pinned ?v j" for j
    using that c(2) unfolding pinned_def queue by (auto split: if_splits)
  show "in_phase ?v j d P" if j: "v_conns v j = Some d" "in_phase v j d P" for j d P
  proof (rule in_phase_change[OF j(2)])
    fix R
    assume R: "R = (F_removeConnectionInLoop j \<in> set (v_queue v (v_base v)))"
      and ph: "phase (prof d) (v_strings v) j (j \<in> v_map v) (v_queue v (conn_loop d)) R (conn_state d) (registered d P)"
    have 1: "phase (prof d) (v_strings v) j (j \<in> v_map v) (v_queue ?v (conn_loop d)) R (conn_state d) (registered d P)"
    proof -
      have "i \<noteq> j" if "F_connectEstablished j \<in> set (v_queue v (conn_loop d))" using that E j(1) c(1) by auto
      from phase_append_removal[OF ph this] ph show ?thesis
        unfolding queue by (cases "conn_loop d = v_base v") simp_all
    qed
    show "phase (prof d) (v_strings v) j (j \<in> v_map ?v) (v_queue ?v (conn_loop d))
        (F_removeConnectionInLoop j \<in> set (v_queue ?v (v_base v))) (conn_state d) (registered d P)"
    proof (cases "j = i")
      case True
      with j c have "conn_state d = kDisconnected" "F_connectEstablished i \<notin> set (v_queue ?v (conn_loop d))"
        using E unfolding queue by auto
      with phase_queue_removal[OF 1] True show ?thesis by simp
    next
      case False
      with 1 R show ?thesis by simp
    qed
  qed simp_all
qed

text \<open>The map drops connection \<open>i\<close>, and its \<open>connectDestroyed\<close> is queued on its loop.\<close>

lemma view_removed:
  assumes inv: "view_inv infra v" and c: "v_conns v i = Some c" "pinned v i" "conn_state c = kDisconnected"
    and E: "F_connectEstablished i \<notin> set (v_queue v (conn_loop c))"
  shows "view_inv infra (v\<lparr>v_map := v_map v - {i},
      v_queue := (v_queue v)(conn_loop c := v_queue v (conn_loop c) @ [F_connectDestroyed i])\<rparr>)"
    (is "view_inv infra ?v")
proof (rule view_queues[OF inv, where M = "v_map v - {i}" and q = "v_queue ?v"])
  have queue: "v_queue ?v p = v_queue v p @ (if p = conn_loop c then [F_connectDestroyed i] else [])" for p by simp
  show "?v = v\<lparr>v_queue := v_queue ?v, v_map := v_map v - {i}\<rparr>" by simp
  show "\<forall>j \<in> v_map v - {i}. v_conns v j \<noteq> None" using view_invD(2)[OF inv] by blast
  show "task_inv ?v"
  proof (rule task_inv_more[OF view_invD(3)[OF inv]])
    show "task_at ?v p F j" if "task_at v p F j" for p F j
      using that by (subst task_at_cong[of _ v]) simp_all
    show "F \<in> set (v_queue v p) \<or> task_at ?v p F j" if "F \<in> set (v_queue ?v p)" "about j F" for p F j
      using that c(1) unfolding queue by (auto simp: task_at_def split: if_splits)
  qed
  show "pinned v j" if "pinned ?v j" for j
    using that c(2) unfolding pinned_def queue by (auto split: if_splits)
  show "in_phase ?v j d P" if j: "v_conns v j = Some d" "in_phase v j d P" for j d P
  proof (rule in_phase_change[OF j(2)])
    fix R
    assume R: "R = (F_removeConnectionInLoop j \<in> set (v_queue v (v_base v)))"
      and ph: "phase (prof d) (v_strings v) j (j \<in> v_map v) (v_queue v (conn_loop d)) R (conn_state d) (registered d P)"
    have R': "R = (F_removeConnectionInLoop j \<in> set (v_queue ?v (v_base v)))" using R unfolding queue by simp
    show "phase (prof d) (v_strings v) j (j \<in> v_map ?v) (v_queue ?v (conn_loop d))
        (F_removeConnectionInLoop j \<in> set (v_queue ?v (v_base v))) (conn_state d) (registered d P)"
    proof (cases "j = i")
      case True
      with j(1) c(1) have d: "d = c" by simp
      have "phase (prof c) (v_strings v) i False (v_queue v (conn_loop c) @ [F_connectDestroyed i]) R
          (conn_state c) (registered c P)"
        using ph E c(3) True d by (intro phase_remove) simp_all
      then show ?thesis using True d unfolding R' by simp
    next
      case False
      then have "phase (prof d) (v_strings v) j (j \<in> v_map v)
          (v_queue v (conn_loop d) @ (if conn_loop d = conn_loop c then [F_connectDestroyed i] else [])) R
          (conn_state d) (registered d P)"
        using ph by (intro phase_other) auto
      then show ?thesis using False unfolding R' queue by simp
    qed
  qed simp_all
qed

text \<open>A loop drops the task it has run.\<close>

lemma view_pop:
  assumes inv: "view_inv infra v" and Q: "v_queue v p = F # Q"
    and ran: "\<And>i c P. F = F_connectDestroyed i \<Longrightarrow> v_conns v i = Some c \<Longrightarrow> v_pollers v (conn_loop c) = Some P \<Longrightarrow>
       i \<in> v_map v \<or> F_connectDestroyed i \<in> set Q \<or> \<not> registered c P"
  shows "view_inv infra (v\<lparr>v_queue := (v_queue v)(p := Q)\<rparr>)" (is "view_inv infra ?v")
proof (rule view_queues[OF inv, where M = "v_map v" and q = "v_queue ?v"])
  have sub: "set (v_queue ?v r) \<subseteq> set (v_queue v r)" for r using Q by auto
  show "?v = v\<lparr>v_queue := v_queue ?v, v_map := v_map v\<rparr>" by simp
  show "\<forall>j \<in> v_map v. v_conns v j \<noteq> None" using view_invD(2)[OF inv] by blast
  show "task_inv ?v"
  proof (rule task_inv_more[OF view_invD(3)[OF inv]])
    show "task_at ?v r G j" if "task_at v r G j" for r G j
      using that by (subst task_at_cong[of _ v]) simp_all
    show "G \<in> set (v_queue v r) \<or> task_at ?v r G j" if "G \<in> set (v_queue ?v r)" for r G j
      using that sub[of r] by blast
  qed
  show "pinned v j" if "pinned ?v j" for j
    using that sub by (simp add: pinned_def) (meson subsetD)
  show "in_phase ?v j d P" if j: "v_conns v j = Some d" "v_pollers v (conn_loop d) = Some P" "in_phase v j d P" for j d P
  proof (rule in_phase_change[OF j(3)])
    fix R
    assume R: "R = (F_removeConnectionInLoop j \<in> set (v_queue v (v_base v)))"
      and ph: "phase (prof d) (v_strings v) j (j \<in> v_map v) (v_queue v (conn_loop d)) R (conn_state d) (registered d P)"
    have 1: "phase (prof d) (v_strings v) j (j \<in> v_map v) (v_queue ?v (conn_loop d)) R (conn_state d) (registered d P)"
    proof (cases "conn_loop d = p")
      case True
      have "phase (prof d) (v_strings v) j (j \<in> v_map v) Q R (conn_state d) (registered d P)"
      proof (rule phase_pop[where F = F])
        show "phase (prof d) (v_strings v) j (j \<in> v_map v) (F # Q) R (conn_state d) (registered d P)"
          using ph True Q by simp
      qed (use ran j(1,2) in blast)
      then show ?thesis using True by simp
    qed (use ph in simp)
    have R': "F_removeConnectionInLoop j \<in> set (v_queue ?v (v_base v)) \<Longrightarrow> R" using R sub[of "v_base v"] by blast
    show "phase (prof d) (v_strings v) j (j \<in> v_map ?v) (v_queue ?v (conn_loop d))
        (F_removeConnectionInLoop j \<in> set (v_queue ?v (v_base v))) (conn_state d) (registered d P)"
      using phase_pop_weaken[OF 1 R'] by simp
  qed simp_all
qed


subsection \<open>Waiting for events\<close>

lemma callbacks_revents: "same_but_revents P P' \<Longrightarrow> map_option callbacks_of (chans P' q) = map_option callbacks_of (chans P q)"
  using same_but_reventsD(4)[of P P' q] by auto

lemma view_poll:
  assumes inv: "view_inv infra v" and P: "v_pollers v p = Some P" and same: "same_but_revents P P'" "poller_ok P'"
  shows "view_inv infra (v\<lparr>v_pollers := (v_pollers v)(p \<mapsto> P')\<rparr>)" (is "view_inv infra ?v")
proof -
  note D = view_invD[OF inv] and map = same_but_reventsD(1)[OF same(1)] and cbs = callbacks_revents[OF same(1)]
  have pins: "pinned ?v j = pinned v j" for j by (simp add: pinned_def)
  have "conn_inv ?v j d" if j: "v_conns v j = Some d" for j d
  proof -
    obtain PD where PD: "v_pollers v (conn_loop d) = Some PD" using conn_inv_poller[OF D(1)[OF j]] by blast
    note J = conn_invD[OF D(1)[OF j] PD]
    let ?PD = "if conn_loop d = p then P' else PD"
    have eq: "PD = P" if "conn_loop d = p" using that PD P by simp
    have "registered d ?PD = registered d PD" using eq map by (simp add: registered_def)
    moreover have "fit d ?PD" if "pinned v j" using J(3)[OF that] eq fit_revents[OF _ same] by auto
    moreover have "bound d ?PD" using J(4) eq cbs unfolding bound_def by (cases "conn_loop d = p") simp_all
    ultimately show ?thesis
      using J(1,2) PD pins by (intro conn_invI[where P = ?PD]) (simp_all add: in_phase_def)
  qed
  moreover have "task_at ?v r F j = task_at v r F j" for r F j by (rule task_at_cong) simp_all
  then have "task_inv ?v" using D(3) by (simp add: task_inv_def)
  moreover have infra: "infra_chan b P' q = infra_chan b P q" for b q unfolding infra_chan_def cbs ..
  have "poller_inv infra ?v" using D(4) P same(2) map infra unfolding poller_inv_def by auto
  moreover have "apart ?v" using D(5) unfolding apart_def pins by simp
  ultimately show ?thesis using D(2) by (simp add: view_inv_def)
qed

subsection \<open>Freeing a connection\<close>

text \<open>Nobody holds it: no task refers to it, and its channel is out of the poller's map.\<close>

lemma unpinned:
  assumes inv: "view_inv infra v" and c: "v_conns v i = Some c" "v_pollers v (conn_loop c) = Some P" and "\<not> pinned v i"
  shows "F \<in> set (v_queue v p) \<Longrightarrow> \<not> about i F" "\<not> registered c P" "channelMap P g \<noteq> Some (conn_channel c)"
proof -
  note D = view_invD[OF inv] and J = conn_invD[OF view_invD(1)[OF inv c(1)] c(2)]
  note ph = J(2)[unfolded in_phase_def]
  have D0: "F_connectDestroyed i \<notin> set (v_queue v p)" for p using pinned_task[of "F_connectDestroyed i" v p i] assms(4) by auto
  have M: "i \<notin> v_map v" using pinned_map assms(4) by blast
  show reg: "\<not> registered c P" using phaseD(3)[OF ph] M D0 by simp
  show "\<not> about i F" if F: "F \<in> set (v_queue v p)"
  proof
    assume i: "about i F"
    then have raw: "raw_this F" using pinned_task[OF F] assms(4) by blast
    then have "F \<noteq> F_removeConnectionInLoop i" by auto
    with task_invD[OF D(3) F i] c(1) have "p = conn_loop c" by (simp add: task_at_def)
    moreover obtain Q1 Q2 where "v_queue v p = Q1 @ F # Q2" using F by (meson split_list)
    moreover have "raw_covered i (v_queue v (conn_loop c))" using ph M by (simp add: phase_def)
    ultimately show False using raw_covered_split raw i D0[of p] by fastforce
  qed
  show "channelMap P g \<noteq> Some (conn_channel c)"
  proof
    assume g: "channelMap P g = Some (conn_channel c)"
    with D(4) c(2) have "infra_chan (conn_loop c = v_base v) P (conn_channel c) \<or>
        (\<exists>j d. v_conns v j = Some d \<and> sockfd d = g \<and> conn_channel d = conn_channel c)"
      unfolding poller_inv_def by blast
    with infra_not_bound[OF _ J(4)] obtain j d where d: "v_conns v j = Some d" "sockfd d = g" "conn_channel d = conn_channel c"
      by blast
    have "j = i" using apartD(1)[OF D(5) _ d(1) c(1)] d(3) by blast
    with d c(1) g reg show False by (simp add: registered_def)
  qed
qed

lemma view_drop:
  assumes inv: "view_inv infra v" and c: "v_conns v i = Some c" "v_pollers v (conn_loop c) = Some P" "\<not> pinned v i"
    and P': "P' = P\<lparr>chans := (chans P)(conn_channel c := None)\<rparr>"
  shows "view_inv infra (v\<lparr>v_conns := (v_conns v)(i := None), v_pollers := (v_pollers v)(conn_loop c \<mapsto> P')\<rparr>)"
    (is "view_inv infra ?v")
proof -
  note D = view_invD[OF inv] and none = unpinned[OF inv c]
  have pins: "pinned ?v j = pinned v j" for j by (simp add: pinned_def)
  have M: "i \<notin> v_map v" using pinned_map c(3) by blast
  have ok: "poller_ok P'"
  proof -
    have "poller_ok P" using D(4) c(2) by (simp add: poller_inv_def)
    then show ?thesis using none(3) by (auto simp: poller_ok_def P' chan_ok_def)
  qed
  have "conn_inv ?v j d" if j: "j \<noteq> i" "v_conns v j = Some d" for j d
  proof -
    obtain PD where PD: "v_pollers v (conn_loop d) = Some PD" using conn_inv_poller[OF D(1)[OF j(2)]] by blast
    note J = conn_invD[OF D(1)[OF j(2)] PD]
    let ?PD = "if conn_loop d = conn_loop c then P' else PD"
    have ne: "conn_channel d \<noteq> conn_channel c" using apartD(1)[OF D(5) j c(1)] .
    have eq: "PD = P" if "conn_loop d = conn_loop c" using that PD c(2) by simp
    have same: "chans ?PD (conn_channel d) = chans PD (conn_channel d)" "channelMap ?PD = channelMap PD"
      using eq ne by (auto simp: P')
    have "fit d ?PD" if "pinned v j"
      by (rule fit_same[OF J(3)[OF that] same(1)]) (use same(2) ok fitD(1)[OF J(3)[OF that]] in simp_all)
    moreover have "bound d ?PD" using J(4) unfolding bound_def same(1) .
    moreover have "registered d ?PD = registered d PD" unfolding registered_def same(2) ..
    ultimately show ?thesis
      using J(1,2) PD pins by (intro conn_invI[where P = ?PD]) (simp_all add: in_phase_def)
  qed
  moreover have "task_inv ?v"
    unfolding task_inv_def
  proof (intro allI ballI impI)
    fix p F j
    assume F: "F \<in> set (v_queue ?v p)" "about j F"
    then have j: "j \<noteq> i" and t: "task_at v p F j" using none(1) task_invD[OF D(3)] by auto
    have "v_conns ?v j = v_conns v j" "v_base ?v = v_base v" using j by simp_all
    then show "task_at ?v p F j" using t unfolding task_at_def by (simp only:)
  qed
  moreover have "poller_inv infra ?v"
    unfolding poller_inv_def
  proof (intro allI impI conjI)
    fix p PP
    assume pp: "v_pollers ?v p = Some PP"
    show "poller_ok PP" using pp ok D(4) by (auto simp: poller_inv_def split: if_splits)
    fix g q
    assume g: "channelMap PP g = Some q"
    obtain P0 where P0: "v_pollers v p = Some P0" "channelMap P0 g = Some q" "chans PP q = chans P0 q"
    proof (cases "p = conn_loop c")
      case True
      have "q \<noteq> conn_channel c" using pp g none(3) True by (auto simp: P')
      with pp g c(2) that[of P] True show ?thesis by (auto simp: P')
    next
      case False
      with pp g that[of PP] show ?thesis by simp
    qed
    have owner: "g \<in> infra \<and> infra_chan (p = v_base v) P0 q \<or>
        (\<exists>j d. v_conns v j = Some d \<and> conn_loop d = p \<and> sockfd d = g \<and> conn_channel d = q)"
      using D(4) P0(1,2) unfolding poller_inv_def by blast
    have "infra_chan (p = v_base v) PP q" if "infra_chan (p = v_base v) P0 q"
      using that unfolding infra_chan_def P0(3) .
    moreover have "j \<noteq> i" if "v_conns v j = Some d" "conn_loop d = p" "conn_channel d = q" for j d
      using that c(1,2) P0(1,2) none(3)[of g] by auto
    ultimately show "g \<in> infra \<and> infra_chan (p = v_base ?v) PP q \<or>
        (\<exists>j d. v_conns ?v j = Some d \<and> conn_loop d = p \<and> sockfd d = g \<and> conn_channel d = q)"
      using owner by fastforce
  qed
  moreover have "apart ?v" using D(5) unfolding apart_def pins by (auto split: if_splits)
  ultimately show ?thesis using D(2) M by (auto simp: view_inv_def split: if_splits)
qed

subsection \<open>A new connection\<close>

lemma view_add:
  assumes inv: "view_inv infra v" and new: "v_conns v i = None" and c: "conn_id c = i" "conn_state c = kConnecting"
    and P: "v_pollers v (conn_loop c) = Some P" "chan_fd (conn_channel c) (sockfd c) P"
    and frame: "poller_frame (conn_channel c) (sockfd c) P P'" and map: "channelMap P' = channelMap P"
    and unmapped: "channelMap P (sockfd c) = None" and fit: "fit c P'"
    and fresh: "chans P (conn_channel c) = None" and bound: "bound c P'"
    and chan: "\<And>j d. v_conns v j = Some d \<Longrightarrow> conn_channel d \<noteq> conn_channel c"
    and fd: "\<And>j d. v_conns v j = Some d \<Longrightarrow> pinned v j \<Longrightarrow> sockfd d \<noteq> sockfd c"
  shows "view_inv infra (v\<lparr>v_conns := (v_conns v)(i \<mapsto> c), v_pollers := (v_pollers v)(conn_loop c \<mapsto> P'),
      v_map := insert i (v_map v)\<rparr>)" (is "view_inv infra ?v")
proof -
  note D = view_invD[OF inv]
  have no_task: "\<not> about i F" if "F \<in> set (v_queue v p)" for F p
    using task_at_conn[OF task_invD[OF D(3) that]] new by blast
  have pins: "pinned ?v j \<longleftrightarrow> j = i \<or> pinned v j" for j by (auto simp: pinned_def)
  have none: "F_connectEstablished i \<notin> set (v_queue v p)" "F_connectDestroyed i \<notin> set (v_queue v p)"
    "F_removeConnectionInLoop i \<notin> set (v_queue v p)" for p
    using no_task by fastforce+
  have "phase (prof c) (v_strings v) i True (v_queue v (conn_loop c)) False kConnecting False"
    using none no_task by (auto simp: phase_def)
  moreover have "\<not> registered c P'" using unmapped map by (simp add: registered_def)
  ultimately have "conn_inv ?v i c"
    using c fit bound none by (intro conn_invI[where P = P']) (simp_all add: in_phase_def)
  moreover have "conn_inv ?v j d" if j: "j \<noteq> i" "v_conns v j = Some d" for j d
  proof -
    obtain PD where PD: "v_pollers v (conn_loop d) = Some PD" using conn_inv_poller[OF D(1)[OF j(2)]] by blast
    note J = conn_invD[OF D(1)[OF j(2)] PD]
    let ?PD = "if conn_loop d = conn_loop c then P' else PD"
    have eq: "PD = P" if "conn_loop d = conn_loop c" using that PD P(1) by simp
    have "registered d ?PD = registered d PD" using eq map by (simp add: registered_def)
    moreover have "fit d ?PD" if "pinned v j"
    proof (cases "conn_loop d = conn_loop c")
      case True
      with fit_frame[OF _ frame P(2) fitD(1)[OF fit] chan[OF j(2)] fd[OF j(2) that]] J(3)[OF that] eq
      show ?thesis by simp
    next
      case False
      with J(3)[OF that] show ?thesis by simp
    qed
    moreover have "bound d ?PD"
      using J(4) frame P(2) chan[OF j(2)] eq by (auto simp: bound_def poller_frame_def)
    ultimately show ?thesis
      using J(1,2) PD pins[of j] j(1) by (intro conn_invI[where P = ?PD]) (simp_all add: in_phase_def)
  qed
  moreover have "task_inv ?v"
  proof (rule task_inv_more[OF D(3)])
    show "task_at ?v p F j" if t: "task_at v p F j" for p F j
    proof -
      have "j \<noteq> i" using task_at_conn[OF t] new by auto
      then have "v_conns ?v j = v_conns v j" "v_base ?v = v_base v" by simp_all
      then show ?thesis using t unfolding task_at_def by (simp only:)
    qed
  qed simp
  moreover have "poller_inv infra ?v"
    unfolding poller_inv_def
  proof (intro allI impI)
    fix p PP
    assume pp: "v_pollers ?v p = Some PP"
    have same: "chans P' q = chans P q" if "chans P q \<noteq> None" for q
    proof -
      have "q \<noteq> conn_channel c" using that fresh by auto
      then show ?thesis using frame P(2) by (simp add: poller_frame_def)
    qed
    obtain P0 where P0: "v_pollers v p = Some P0" "channelMap PP = channelMap P0" "poller_ok PP"
        "\<And>q. chans P0 q \<noteq> None \<Longrightarrow> chans PP q = chans P0 q"
    proof (cases "p = conn_loop c")
      case True
      with that[of P] pp P(1) map same fitD(1)[OF fit] show ?thesis by simp
    next
      case False
      with that[of PP] pp D(4) show ?thesis by (auto simp: poller_inv_def)
    qed
    have "g \<in> infra \<and> infra_chan (p = v_base ?v) PP q \<or>
        (\<exists>j d. v_conns ?v j = Some d \<and> conn_loop d = p \<and> sockfd d = g \<and> conn_channel d = q)"
      if "channelMap PP g = Some q" for g q
    proof -
      from that P0(1,2) D(4) have "g \<in> infra \<and> infra_chan (p = v_base v) P0 q \<or>
          (\<exists>j d. v_conns v j = Some d \<and> conn_loop d = p \<and> sockfd d = g \<and> conn_channel d = q)"
        unfolding poller_inv_def by simp
      then show ?thesis
      proof
        assume infra: "g \<in> infra \<and> infra_chan (p = v_base v) P0 q"
        then have "chans P0 q \<noteq> None" by (auto simp: infra_chan_def)
        with infra P0(4) show ?thesis by (simp add: infra_chan_def)
      next
        assume "\<exists>j d. v_conns v j = Some d \<and> conn_loop d = p \<and> sockfd d = g \<and> conn_channel d = q"
        then obtain j d where j: "v_conns v j = Some d" "conn_loop d = p" "sockfd d = g" "conn_channel d = q" by blast
        then have "j \<noteq> i" using new by auto
        with j show ?thesis by (intro disjI2 exI[of _ j] exI[of _ d]) simp
      qed
    qed
    with P0(3) show "poller_ok PP \<and> (\<forall>g q. channelMap PP g = Some q \<longrightarrow> g \<in> infra \<and> infra_chan (p = v_base ?v) PP q \<or>
        (\<exists>j d. v_conns ?v j = Some d \<and> conn_loop d = p \<and> sockfd d = g \<and> conn_channel d = q))"
      by blast
  qed
  moreover have "apart ?v"
    using D(5) chan fd unfolding apart_def pins by (auto split: if_splits) metis+
  ultimately show ?thesis
    using D(2) unfolding view_inv_def by auto
qed

lemma view_queue_established:
  assumes inv: "view_inv infra v" and c: "v_conns v i = Some c" "i \<in> v_map v" "conn_state c = kConnecting"
    and none: "\<And>p F. F \<in> set (v_queue v p) \<Longrightarrow> \<not> about i F"
    and unmapped: "\<And>P. v_pollers v (conn_loop c) = Some P \<Longrightarrow> \<not> registered c P"
  shows "view_inv infra (v\<lparr>v_queue := (v_queue v)(conn_loop c := v_queue v (conn_loop c) @ [F_connectEstablished i])\<rparr>)"
    (is "view_inv infra ?v")
proof (rule view_queues[OF inv, where M = "v_map v" and q = "v_queue ?v"])
  have queue: "v_queue ?v p = v_queue v p @ (if p = conn_loop c then [F_connectEstablished i] else [])" for p by simp
  show "?v = v\<lparr>v_queue := v_queue ?v, v_map := v_map v\<rparr>" by simp
  show "\<forall>j \<in> v_map v. v_conns v j \<noteq> None" using view_invD(2)[OF inv] by blast
  show "task_inv ?v"
  proof (rule task_inv_more[OF view_invD(3)[OF inv]])
    show "task_at ?v p F j" if "task_at v p F j" for p F j
      using that by (subst task_at_cong[of _ v]) simp_all
    show "F \<in> set (v_queue v p) \<or> task_at ?v p F j" if "F \<in> set (v_queue ?v p)" "about j F" for p F j
      using that c(1) unfolding queue by (auto simp: task_at_def split: if_splits)
  qed
  show "pinned v j" if "pinned ?v j" for j
    using that c(2) unfolding pinned_def queue by (auto split: if_splits)
  show "in_phase ?v j d P" if j: "v_conns v j = Some d" "v_pollers v (conn_loop d) = Some P" "in_phase v j d P" for j d P
  proof (rule in_phase_change[OF j(3)])
    fix R
    assume R: "R = (F_removeConnectionInLoop j \<in> set (v_queue v (v_base v)))"
      and ph: "phase (prof d) (v_strings v) j (j \<in> v_map v) (v_queue v (conn_loop d)) R (conn_state d) (registered d P)"
    have R': "R = (F_removeConnectionInLoop j \<in> set (v_queue ?v (v_base v)))" using R unfolding queue by simp
    show "phase (prof d) (v_strings v) j (j \<in> v_map ?v) (v_queue ?v (conn_loop d))
        (F_removeConnectionInLoop j \<in> set (v_queue ?v (v_base v))) (conn_state d) (registered d P)"
    proof (cases "j = i")
      case True
      with j(1) c(1) have d: "d = c" by simp
      have no: "F_connectEstablished i \<notin> set (v_queue v (conn_loop c))" "F_connectDestroyed i \<notin> set (v_queue v (conn_loop c))"
        "F_removeConnectionInLoop i \<notin> set (v_queue v (v_base v))" "\<not> registered c P"
        "\<forall>F \<in> set (v_queue v (conn_loop c)). \<not> about i F"
        using none unmapped j(2) d by fastforce+
      then have "phase (prof c) (v_strings v) i True (v_queue v (conn_loop c) @ [F_connectEstablished i]) False kConnecting False"
        using c(2,3) by (auto simp: phase_def)
      then show ?thesis using True d R R' c(2,3) no unfolding queue by simp
    next
      case False
      then have "phase (prof d) (v_strings v) j (j \<in> v_map v)
          (v_queue v (conn_loop d) @ (if conn_loop d = conn_loop c then [F_connectEstablished i] else [])) R
          (conn_state d) (registered d P)"
        using ph by (intro phase_other) auto
      then show ?thesis using False unfolding R' queue by simp
    qed
  qed simp_all
qed

end
