(* ===== verification/ServerFrame.thy ===== *)
theory ServerFrame
  imports TcpServer
begin

text \<open>
  What the operations of the server leave as it was: a locale for relations between worlds that
  the steps of the code keep, with three instances - loops, base loop and connections stay where
  they are; the channels that the pollers know stay known, while no connection is destroyed; the
  connections keep their sockets.
\<close>

text \<open>An operation on connection \<open>c\<close> starts in this state.\<close>

abbreviation conn_in :: "tcp_conn \<Rightarrow> event_loop \<Rightarrow> world \<Rightarrow> cstate" where
  "conn_in c L w \<equiv> \<lparr>conn = c, cloop = L, strings = wstrings w, upcalls = []\<rparr>"

text \<open>The memory at \<open>cp\<close> is no channel's.\<close>

definition fresh_ptr :: "ptr \<Rightarrow> world \<Rightarrow> bool" where
  "fresh_ptr cp w \<longleftrightarrow> (\<forall>p L. wloops w p = Some L \<longrightarrow> chans (el_poller L) cp = None) \<and>
     (\<forall>i c. wconns w i = Some c \<longrightarrow> conn_channel c \<noteq> cp)"

definition in_thread :: "ptr \<Rightarrow> int \<Rightarrow> world \<Rightarrow> bool" where
  "in_thread p tid w = (case wloops w p of None \<Rightarrow> False | Some L \<Rightarrow> threadId L = tid)"

lemma in_threadD: "in_thread p tid w \<Longrightarrow> \<exists>L. wloops w p = Some L \<and> tid = threadId L"
  by (auto simp: in_thread_def split: option.splits)

section \<open>Relations that the operations of the server keep\<close>

text \<open>
  A relation between worlds that the operations of a connection (through \<open>R\<close>), the queueing of
  tasks and the changes of the map keep.
\<close>

locale world_relation =
  fixes W :: "world \<Rightarrow> world \<Rightarrow> bool" and R :: "cstate \<Rightarrow> cstate \<Rightarrow> bool"
  assumes W_refl: "W w w" and W_trans: "W w x \<Longrightarrow> W x y \<Longrightarrow> W w y"
    and W_connections: "W w (upd_srv (\<lambda>S. S\<lparr>connections := f S\<rparr>) w)"
    and W_queue: "wloops w p = Some L \<Longrightarrow> W w (upd_loop_at p (queueInLoop tid F) w)"
    and W_conn: "wconns w i = Some c \<Longrightarrow> wloops w (conn_loop c) = Some L \<Longrightarrow> R (conn_in c L w) s \<Longrightarrow>
      W w (w\<lparr>wconns := (wconns w)(i \<mapsto> conn s), wloops := (wloops w)(conn_loop c \<mapsto> cloop s)\<rparr>)"
begin

lemma run_in_loop_at_W:
  assumes "W u w" and "ends (run w) (W u)"
  shows "ends (run_in_loop_at p tid F run w) (W u)"
proof (cases "wloops w p")
  case None
  then show ?thesis by (simp add: run_in_loop_at_def loop_at_def)
next
  case (Some L)
  with assms W_trans[OF assms(1) W_queue[OF Some]] show ?thesis
    by (simp add: run_in_loop_at_def loop_at_Some runInLoop_def)
qed

lemma removeConnectionInLoop_W:
  assumes "W u w"
  shows "ends (TcpServer_removeConnectionInLoop tid i w) (W u)"
proof -
  have "ends (queue_in_loop_at p tid F (upd_srv (\<lambda>S. S\<lparr>connections := f S\<rparr>) w)) (W u)" for p F f
    using W_trans[OF W_trans[OF assms W_connections] W_queue]
    by (cases "wloops w p") (simp_all add: queue_in_loop_at_def loop_at_def)
  then show ?thesis unfolding TcpServer_removeConnectionInLoop_def by (rule ends_value)
qed

lemma removeConnection_W: "W u w \<Longrightarrow> ends (TcpServer_removeConnection tid i w) (W u)"
  unfolding TcpServer_removeConnection_def by (intro run_in_loop_at_W removeConnectionInLoop_W)

lemma on_conn_W:
  assumes "W u w" and "\<And>s. ends (f s) (R s)"
  shows "ends (on_conn tid i f w) (W u)"
proof (cases "wconns w i")
  case None
  then show ?thesis by (simp add: on_conn_def conn_at_def)
next
  case (Some c)
  show ?thesis
  proof (cases "wloops w (conn_loop c)")
    case None
    with Some show ?thesis by (simp add: on_conn_def conn_at_Some loop_at_def)
  next
    case L: (Some L)
    have "ends (foldR (TcpServer_removeConnection tid) (upcalls s)
        (w\<lparr>wconns := (wconns w)(i \<mapsto> conn s), wloops := (wloops w)(conn_loop c \<mapsto> cloop s)\<rparr>)) (W u)"
      if "R (conn_in c L w) s" for s
      by (intro ends_foldR removeConnection_W W_trans[OF assms(1) W_conn[OF Some L that]])
    with assms(2)[of "conn_in c L w"] Some L show ?thesis
      by (simp add: on_conn_def conn_at_Some loop_at_Some) (erule ends_seq, simp)
  qed
qed

lemma newConnection_W:
  assumes step: "\<And>f pool c io L ch. wloops w io = Some L \<Longrightarrow> sockfd c = fd \<Longrightarrow>
      W u (upd_srv (\<lambda>S. S\<lparr>connections := f S\<rparr>) ((upd_srv (\<lambda>S. S\<lparr>threadPool := pool, nextConnId := nextConnId S + 1\<rparr>) w)
        \<lparr>wconns := (wconns w)(obj \<mapsto> c), wloops := (wloops w)(io \<mapsto> L\<lparr>el_poller := store cp ch (el_poller L)\<rparr>)\<rparr>))"
    and est: "\<And>s. ends (connectEstablished os tid s) (R s)"
  shows "ends (TcpServer_newConnection os tid obj cp gs fd peer w) (W u)"
  unfolding TcpServer_newConnection_def Let_def
  apply (intro ends_value[where m = "m :: unit res" for m] ends_value[where m = "m :: (ptr \<times> thread_pool) res" for m]
      ends_value[where m = "loop_at (srv_loop (srv w)) w"] ends_if ends_pair)
   apply simp
  subgoal for L0 r iopool io pool
  proof (cases "wloops w io")
    case None
    then show ?thesis by (simp add: loop_at_def)
  next
    case (Some L)
    with TcpConnection_new_total[of io obj "conn_name_of (srv w)" fd cp "sockfd_To_SockAddr gs" peer L] step[OF Some] show ?thesis
      by (auto simp: loop_at_Some setCloseCallback_def setWriteCompleteCallback_def setMessageCallback_def
        setConnectionCallback_def intro!: run_in_loop_at_W on_conn_W est)
  qed
  done

end

section \<open>Loops, base loop and connections stay where they are\<close>

definition conn_place :: "world \<Rightarrow> nat \<Rightarrow> (ptr \<times> ptr) option" where
  "conn_place w i = map_option (\<lambda>c. (conn_loop c, conn_channel c)) (wconns w i)"

definition same_places :: "world \<Rightarrow> world \<Rightarrow> bool" where
  "same_places w w' \<longleftrightarrow> srv_loop (srv w') = srv_loop (srv w) \<and>
     (\<forall>p. map_option threadId (wloops w' p) = map_option threadId (wloops w p)) \<and>
     (\<forall>i. wconns w i \<noteq> None \<longrightarrow> conn_place w' i = conn_place w i)"

lemma conn_place_Some: "conn_place w i = Some x \<Longrightarrow> wconns w i \<noteq> None"
  by (auto simp: conn_place_def)

lemma same_places_trans:
  assumes "same_places w x" and "same_places x y"
  shows "same_places w y"
proof -
  have "conn_place y i = conn_place w i" if "wconns w i \<noteq> None" for i
  proof -
    have "conn_place x i = conn_place w i" using assms(1) that by (simp add: same_places_def)
    moreover from this that have "wconns x i \<noteq> None" by (auto simp: conn_place_def)
    ultimately show ?thesis using assms(2) by (simp add: same_places_def)
  qed
  with assms show ?thesis by (simp add: same_places_def)
qed

interpretation places: world_relation same_places keeps
proof
  show "same_places w w" for w by (simp add: same_places_def)
  show "same_places w x \<Longrightarrow> same_places x y \<Longrightarrow> same_places w y" for w x y by (rule same_places_trans)
  show "same_places w (upd_srv (\<lambda>S. S\<lparr>connections := f S\<rparr>) w)" for w f by (simp add: same_places_def conn_place_def)
  show "same_places w (upd_loop_at p (queueInLoop tid F) w)" if "wloops w p = Some L" for w p L tid F
    using that by (simp add: same_places_def conn_place_def get_loop_def)
  show "same_places w (w\<lparr>wconns := (wconns w)(i \<mapsto> conn s), wloops := (wloops w)(conn_loop c \<mapsto> cloop s)\<rparr>)"
    if "wconns w i = Some c" "wloops w (conn_loop c) = Some L" "keeps (conn_in c L w) s" for w i c L s
    using that by (simp add: same_places_def conn_place_def keeps_def)
qed

text \<open>And the channels that the pollers know stay known, while no connection is destroyed.\<close>

definition listed_in :: "ptr \<Rightarrow> ptr \<Rightarrow> world \<Rightarrow> bool" where
  "listed_in p q w \<longleftrightarrow> (case wloops w p of None \<Rightarrow> False | Some L \<Rightarrow> listed q (el_poller L))"

definition all_listed :: "world \<Rightarrow> world \<Rightarrow> bool" where
  "all_listed w w' \<longleftrightarrow> same_places w w' \<and> (\<forall>p q. listed_in p q w \<longrightarrow> listed_in p q w')"

interpretation listing: world_relation all_listed stays_known
proof
  show "all_listed w w" for w by (simp add: all_listed_def places.W_refl)
  show "all_listed w x \<Longrightarrow> all_listed x y \<Longrightarrow> all_listed w y" for w x y
    unfolding all_listed_def using same_places_trans by blast
  show "all_listed w (upd_srv (\<lambda>S. S\<lparr>connections := f S\<rparr>) w)" for w f
    using places.W_connections by (simp add: all_listed_def listed_in_def)
  show "all_listed w (upd_loop_at p (queueInLoop tid F) w)" if "wloops w p = Some L" for w p L tid F
    using places.W_queue[OF that] that by (simp add: all_listed_def listed_in_def get_loop_def)
  show "all_listed w (w\<lparr>wconns := (wconns w)(i \<mapsto> conn s), wloops := (wloops w)(conn_loop c \<mapsto> cloop s)\<rparr>)"
    if "wconns w i = Some c" "wloops w (conn_loop c) = Some L" "stays_known (conn_in c L w) s" for w i c L s
    using places.W_conn[OF that(1,2)] that(2,3)
    by (simp add: all_listed_def listed_in_def stays_known_def stays_listed_def)
qed

lemma newConnection_listed:
  assumes "wconns w obj = None" and "fresh_ptr cp w"
  shows "ends (TcpServer_newConnection os tid obj cp gs fd peer w) (all_listed w)"
proof (rule listing.newConnection_W)
  show "ends (connectEstablished os tid s) (stays_known s)" for s by (intro known.connectEstablished_R known.R_refl)
  fix f pool c io L ch
  assume L: "wloops w io = Some L"
  then have "\<not> listed cp (el_poller L)" using assms(2) by (auto simp: fresh_ptr_def listed_def)
  from stays_listed_fresh[OF this, of ch] assms(1) L
  show "all_listed w (upd_srv (\<lambda>S. S\<lparr>connections := f S\<rparr>) ((upd_srv (\<lambda>S. S\<lparr>threadPool := pool, nextConnId := nextConnId S + 1\<rparr>) w)
      \<lparr>wconns := (wconns w)(obj \<mapsto> c), wloops := (wloops w)(io \<mapsto> L\<lparr>el_poller := store cp ch (el_poller L)\<rparr>)\<rparr>))"
    by (simp add: all_listed_def same_places_def conn_place_def listed_in_def stays_listed_def upd_srv_def)
qed

lemma acceptable_listed:
  assumes "fd < 0 \<or> wconns w obj = None \<and> fresh_ptr cp w"
  shows "ends (TcpServer_acceptable os tid (fd, peer) obj cp gs w) (all_listed w)"
proof -
  have fds: "all_listed w (w\<lparr>open_fds := F\<rparr>)" for F
    using listing.W_refl[of w] by (simp add: all_listed_def same_places_def conn_place_def listed_in_def)
  have "ends (TcpServer_newConnection os tid obj cp gs fd peer (w\<lparr>open_fds := F\<rparr>)) (all_listed w)" if "\<not> fd < 0" for F
  proof (rule ends_mono[OF newConnection_listed])
    show "wconns (w\<lparr>open_fds := F\<rparr>) obj = None" "fresh_ptr cp (w\<lparr>open_fds := F\<rparr>)"
      using assms that by (auto simp: fresh_ptr_def)
  qed (rule listing.W_trans[OF fds])
  then show ?thesis by (simp add: TcpServer_acceptable_cases listing.W_refl fds)
qed

lemma acceptor_listen_places: "ends (acceptor_listen_at os r w) (same_places w)"
proof (cases "wloops w (srv_loop (srv w))")
  case None
  then show ?thesis by (simp add: acceptor_listen_at_def loop_at_def)
next
  case (Some L)
  have "ends (Acceptor_listen os r (srv_acceptor (srv w), L)) (\<lambda>(a, L1). threadId L1 = threadId L)"
    unfolding Acceptor_listen_def set_interest_def with_poller_def Let_def
    by (auto simp: bindR_assoc intro!: ends_value[where m = "m :: socket res" for m] ends_value[where m = "m :: poller res" for m])
  then have "ends (bindR (Acceptor_listen os r (srv_acceptor (srv w), L)) (\<lambda>(a, L1).
      Inr (upd_srv (\<lambda>S. S\<lparr>srv_acceptor := a\<rparr>) (w\<lparr>wloops := (wloops w)(srv_loop (srv w) \<mapsto> L1)\<rparr>)))) (same_places w)"
    by (rule ends_seq) (use Some in \<open>auto simp: same_places_def conn_place_def upd_srv_def\<close>)
  with Some show ?thesis by (simp add: acceptor_listen_at_def loop_at_Some)
qed

lemma world_functor_places: "ends (world_functor os tid r F w) (same_places w)"
  by (cases F)
    (auto intro!: places.removeConnectionInLoop_W acceptor_listen_places places.on_conn_W conn_intros places.W_refl
      simp del: conn_functor.simps)

lemma same_places_thread: "same_places w w' \<Longrightarrow> in_thread p tid w \<Longrightarrow> in_thread p tid w'"
proof -
  assume "same_places w w'" "in_thread p tid w"
  then have "map_option threadId (wloops w' p) = map_option threadId (wloops w p)" "in_thread p tid w"
    by (simp_all add: same_places_def)
  then show ?thesis by (auto simp: in_thread_def split: option.splits)
qed

section \<open>Every connection keeps its socket\<close>

definition sock_of :: "world \<Rightarrow> nat \<rightharpoonup> fd" where
  "sock_of w = (\<lambda>i. map_option sockfd (wconns w i))"

definition same_sockets :: "world \<Rightarrow> world \<Rightarrow> bool" where
  "same_sockets w w' \<longleftrightarrow> sock_of w' = sock_of w \<and> open_fds w' = open_fds w"

interpretation sockets: world_relation same_sockets keeps
proof
  show "same_sockets w (w\<lparr>wconns := (wconns w)(i \<mapsto> conn s), wloops := (wloops w)(conn_loop c \<mapsto> cloop s)\<rparr>)"
    if "wconns w i = Some c" "keeps (conn_in c L w) s" for w i c L s
    using that by (simp add: same_sockets_def sock_of_def keeps_def profile_of_def fun_eq_iff)
qed (simp_all add: same_sockets_def sock_of_def)

lemma newConnection_sockets:
  "ends (TcpServer_newConnection os tid obj cp gs fd peer w)
     (\<lambda>w'. open_fds w' = open_fds w \<and> sock_of w' = (sock_of w)(obj \<mapsto> fd))"
proof -
  obtain c0 :: tcp_conn where c0: "sockfd c0 = fd" by (metis tcp_conn.select_convs(6))
  have "ends (TcpServer_newConnection os tid obj cp gs fd peer w) (same_sockets (w\<lparr>wconns := (wconns w)(obj \<mapsto> c0)\<rparr>))"
    by (rule sockets.newConnection_W)
      (use c0 kept.connectEstablished_R[OF keeps_refl] in \<open>auto simp: same_sockets_def sock_of_def fun_eq_iff upd_srv_def\<close>)
  then show ?thesis by (rule ends_mono) (use c0 in \<open>simp add: same_sockets_def sock_of_def fun_eq_iff\<close>)
qed

lemma acceptor_listen_sockets: "ends (acceptor_listen_at os r w) (same_sockets w)"
  unfolding acceptor_listen_at_def
  by (auto simp: same_sockets_def sock_of_def intro!: ends_value[where m = "m :: event_loop res" for m]
      ends_value[where m = "m :: (acceptor \<times> event_loop) res" for m] ends_pair)

lemma world_functor_sockets: "ends (world_functor os tid r F w) (same_sockets w)"
  by (cases F)
    (auto intro!: sockets.removeConnectionInLoop_W acceptor_listen_sockets sockets.on_conn_W conn_intros sockets.W_refl
      simp del: conn_functor.simps)

end
