(* ===== verification/Server.thy ===== *)
theory Server
  imports Reactor ServerFrame
begin

text \<open>
  The server at work: the base loop accepts, every loop polls, runs its tasks and the events of its
  connections, other threads send and shut down, connections are freed, in any interleaving. An
  action is one task, one callback or one call; every one of them keeps the invariant of \<open>Reactor\<close>
  and none of them fails, unless a vector outgrows \<open>max_size()\<close>.
\<close>

section \<open>State and actions\<close>

text \<open>\<open>running p\<close> is what \<open>doPendingFunctors\<close> of the loop at \<open>p\<close> has swapped out and not run yet.\<close>

record reactor =
  rw :: world
  running :: "ptr \<Rightarrow> Functor list"

datatype action =
    Accept int "int \<times> sockaddr_in" nat ptr "sockaddr_in option"
  | Swap ptr
  | RunTask ptr int int
  | FinishBatch ptr
  | Poll ptr "nat \<Rightarrow> (32 word \<times> ptr) list sys" timestamp
  | Event int nat callback timestamp
  | Woken ptr
  | SendFrom int nat ptr "char list"
  | ShutdownFrom int nat
  | Drop nat

text \<open>
  \<open>Swap\<close>, \<open>RunTask\<close> and \<open>FinishBatch\<close> are the pieces of \<open>doPendingFunctors\<close> (\<open>batch_in_pieces\<close>
  below puts them together again); \<open>Poll\<close> is the call of \<open>poll\<close> at the start of a turn, and
  \<open>Event\<close> one callback of a channel of a connection; \<open>Drop\<close> is the end of a connection object
  that no \<open>shared_ptr\<close> holds.
\<close>

fun act :: "os \<Rightarrow> action \<Rightarrow> reactor \<Rightarrow> reactor res" where
  "act os (Accept tid answer obj cp gs) s =
     bindR (TcpServer_acceptable os tid answer obj cp gs (rw s)) (\<lambda>w. Inr (s\<lparr>rw := w\<rparr>))"
| "act os (Swap p) s =
     Inr (s\<lparr>rw := upd_loop_at p (\<lambda>L. L\<lparr>callingPendingFunctors := True, pendingFunctors := []\<rparr>) (rw s),
            running := (running s)(p := pendingFunctors (get_loop p (rw s)))\<rparr>)"
| "act os (RunTask p tid listenret) s =
     (case running s p of
        [] \<Rightarrow> Inr s
      | F # Q \<Rightarrow> bindR (world_functor os tid listenret F (rw s)) (\<lambda>w.
          Inr (s\<lparr>rw := w, running := (running s)(p := Q)\<rparr>)))"
| "act os (FinishBatch p) s =
     Inr (s\<lparr>rw := upd_loop_at p (\<lambda>L. L\<lparr>callingPendingFunctors := False\<rparr>) (rw s)\<rparr>)"
| "act os (Poll p wait now) s =
     bindR (EPollPoller_poll wait (el_poller (get_loop p (rw s)), [])) (\<lambda>(P, active).
       Inr (s\<lparr>rw := upd_loop_at p (\<lambda>L. L\<lparr>el_poller := P, activeChannels := active, pollReturnTime := now\<rparr>) (rw s)\<rparr>))"
| "act os (Event tid i cb now) s =
     bindR (on_conn tid i (conn_invoke os tid cb now) (rw s)) (\<lambda>w. Inr (s\<lparr>rw := w\<rparr>))"
| "act os (Woken p) s = Inr (s\<lparr>rw := upd_loop_at p EventLoop_handleRead (rw s)\<rparr>)"
| "act os (SendFrom tid i addr msg) s =
     bindR (on_conn tid i (TcpConnection_send os tid addr msg) (rw s)) (\<lambda>w. Inr (s\<lparr>rw := w\<rparr>))"
| "act os (ShutdownFrom tid i) s =
     bindR (on_conn tid i (TcpConnection_shutdown os tid) (rw s)) (\<lambda>w. Inr (s\<lparr>rw := w\<rparr>))"
| "act os (Drop i) s = bindR (TcpConnection_delete i (rw s)) (\<lambda>w. Inr (s\<lparr>rw := w\<rparr>))"

section \<open>The invariant of the whole\<close>

definition view_at :: "(ptr \<Rightarrow> Functor list) \<Rightarrow> world \<Rightarrow> view" where
  "view_at run w =
     \<lparr>v_conns = wconns w, v_pollers = (\<lambda>p. map_option el_poller (wloops w p)),
      v_queue = (\<lambda>p. run p @ (case wloops w p of None \<Rightarrow> [] | Some L \<Rightarrow> pendingFunctors L)),
      v_map = snd ` set (connections (srv w)), v_strings = wstrings w, v_base = srv_loop (srv w)\<rparr>"

text \<open>No two connection objects have the same name, and all have names that were given.\<close>

definition names_ok :: "world \<Rightarrow> bool" where
  "names_ok w \<longleftrightarrow>
     (\<forall>i c. wconns w i = Some c \<longrightarrow> (\<exists>k < nextConnId (srv w).
        conn_name c = srv_name (srv w) @ ''-'' @ ipPort (srv w) @ ''#'' @ to_string k)) \<and>
     (\<forall>i j c d. i \<noteq> j \<longrightarrow> wconns w i = Some c \<longrightarrow> wconns w j = Some d \<longrightarrow> conn_name c \<noteq> conn_name d)"

definition loops_ok :: "world \<Rightarrow> bool" where
  "loops_ok w \<longleftrightarrow> pool_ok (threadPool (srv w)) \<and> wloops w (srv_loop (srv w)) \<noteq> None \<and>
     (\<forall>k. wloops w (loop_in_turn k (threadPool (srv w))) \<noteq> None)"

text \<open>The user's callbacks: two are set, and what they send fits in a vector.\<close>

definition server_callbacks :: "tcp_server \<Rightarrow>
    (StateE \<Rightarrow> api list) option \<times> (StateE \<Rightarrow> char list \<Rightarrow> timestamp \<Rightarrow> api list) option \<times> (StateE \<Rightarrow> api list) option" where
  "server_callbacks S = (srv_connectionCallback S, srv_messageCallback S, srv_writeCompleteCallback S)"

definition callbacks_ok :: "tcp_server \<Rightarrow> bool" where
  "callbacks_ok S \<longleftrightarrow>
     (\<exists>f. srv_connectionCallback S = Some f \<and> (\<forall>st. list_all api_ok (f st))) \<and>
     (\<exists>f. srv_messageCallback S = Some f \<and> (\<forall>st d now. length d \<le> vec_max \<longrightarrow> list_all api_ok (f st d now))) \<and>
     (case srv_writeCompleteCallback S of None \<Rightarrow> True | Some f \<Rightarrow> \<forall>st. list_all api_ok (f st))"

definition server_inv :: "world \<Rightarrow> bool" where
  "server_inv w \<longleftrightarrow> srv_ok w \<and> names_ok w \<and> loops_ok w \<and> callbacks_ok (srv w) \<and>
     newConnectionCallback (srv_acceptor (srv w))"

definition world_inv :: "fd set \<Rightarrow> (ptr \<Rightarrow> Functor list) \<Rightarrow> world \<Rightarrow> bool" where
  "world_inv infra run w \<longleftrightarrow> view_inv infra (view_at run w) \<and> server_inv w \<and>
     (\<forall>p. F_acceptorListen \<notin> set (v_queue (view_at run w) p))"

section \<open>What the steps do to the view\<close>

lemma view_at_simps [simp]:
  "v_conns (view_at run w) = wconns w" "v_strings (view_at run w) = wstrings w"
  "v_base (view_at run w) = srv_loop (srv w)" "v_map (view_at run w) = snd ` set (connections (srv w))"
  by (simp_all add: view_at_def)

lemma view_pollers: "wloops w p = Some L \<Longrightarrow> v_pollers (view_at run w) p = Some (el_poller L)"
  by (simp add: view_at_def)

lemma view_queue: "wloops w p = Some L \<Longrightarrow> v_queue (view_at run w) p = run p @ pendingFunctors L"
  by (simp add: view_at_def)

lemma poller_loop: "v_pollers (view_at run w) p = Some P \<Longrightarrow> \<exists>L. wloops w p = Some L \<and> P = el_poller L"
  by (auto simp: view_at_def)

lemma wstrings_upd [simp]: "wstrings (upd_loop_at p f w) = wstrings w" "wstrings (upd_srv g w) = wstrings w"
  by (simp_all add: upd_loop_at_def upd_srv_def)

text \<open>A task joins the queue of the loop at \<open>p\<close>.\<close>

lemma view_queue_task:
  assumes "wloops w p = Some L"
  shows "view_at run (upd_loop_at p (queueInLoop tid F) w) =
    (view_at run w)\<lparr>v_queue := (v_queue (view_at run w))(p := v_queue (view_at run w) p @ [F])\<rparr>"
  using assms by (simp add: view_at_def get_loop_def fun_eq_iff)

text \<open>A change of the loop at \<open>p\<close> that the view does not see.\<close>

lemma view_loop_same:
  assumes "wloops w p = Some L" and "el_poller (f L) = el_poller L" and "run' p @ pendingFunctors (f L) = run p @ pendingFunctors L"
    and "\<And>q. q \<noteq> p \<Longrightarrow> run' q = run q"
  shows "view_at run' (upd_loop_at p f w) = view_at run w"
  using assms by (simp add: view_at_def get_loop_def fun_eq_iff)

lemma same_server: "srv w' = srv w \<Longrightarrow> \<exists>C. srv w' = (srv w)\<lparr>connections := C\<rparr>"
  by (rule exI[of _ "connections (srv w)"]) simp

lemma server_inv_same:
  assumes "server_inv w" and "srv_ok w'" and "\<exists>C. srv w' = (srv w)\<lparr>connections := C\<rparr>"
    and "\<And>i. map_option conn_name (wconns w' i) = map_option conn_name (wconns w i)"
    and "\<And>p. wloops w p \<noteq> None \<Longrightarrow> wloops w' p \<noteq> None"
  shows "server_inv w'"
proof -
  have name: "\<exists>c'. wconns w i = Some c' \<and> conn_name c' = conn_name c" if "wconns w' i = Some c" for i c
    using assms(4)[of i] that by (cases "wconns w i") auto
  have "names_ok w'"
    using assms(1,3) unfolding server_inv_def names_ok_def by (metis (no_types, lifting) name tcp_server.select_convs(2,3,11) tcp_server.surjective tcp_server.update_convs(12))
  with assms(1-3,5) show ?thesis by (auto simp: server_inv_def loops_ok_def callbacks_ok_def)
qed


section \<open>Removing a connection\<close>

text \<open>A connection on its way out: disconnected, still referred to, and never to be established.\<close>

definition leaving :: "(ptr \<Rightarrow> Functor list) \<Rightarrow> nat \<Rightarrow> world \<Rightarrow> bool" where
  "leaving run i w \<longleftrightarrow> pinned (view_at run w) i \<and>
     (case wconns w i of None \<Rightarrow> False
      | Some c \<Rightarrow> conn_state c = kDisconnected \<and>
          F_connectEstablished i \<notin> set (v_queue (view_at run w) (conn_loop c)))"

lemma world_invD:
  assumes "world_inv infra run w"
  shows "view_inv infra (view_at run w)" "server_inv w" "srv_ok w" "names_ok w" "loops_ok w" "callbacks_ok (srv w)"
    "F_acceptorListen \<notin> set (v_queue (view_at run w) p)"
  using assms by (auto simp: world_inv_def server_inv_def)

lemma conn_loop_exists:
  assumes "world_inv infra run w" and "wconns w i = Some c"
  shows "\<exists>L. wloops w (conn_loop c) = Some L"
  using conn_inv_poller[OF view_invD(1)[OF world_invD(1)[OF assms(1)]], of i c] assms(2) by (auto dest: poller_loop)

lemma base_loop_exists: "world_inv infra run w \<Longrightarrow> \<exists>L. wloops w (srv_loop (srv w)) = Some L"
  using world_invD(5) by (auto simp: loops_ok_def)

text \<open>Erasing a connection's name erases that connection.\<close>

lemma erase_one:
  assumes "srv_ok w" and "names_ok w" and "wconns w i = Some c"
  shows "snd ` set (AList.delete (conn_name c) (connections (srv w))) = snd ` set (connections (srv w)) - {i}"
proof -
  have "n = conn_name c \<longleftrightarrow> j = i" if "(n, j) \<in> set (connections (srv w))" for n j
    using srv_okD(1)[OF assms(1) that] assms(2,3) unfolding names_ok_def by (metis option.inject)
  then show ?thesis by (force simp: alist_delete_filter image_def)
qed

lemma removeConnectionInLoop_inv:
  assumes inv: "world_inv infra run w" and "leaving run i w"
  shows "\<exists>w'. TcpServer_removeConnectionInLoop tid i w = Inr w' \<and> world_inv infra run w' \<and> leaving run i w' \<and>
    wconns w' = wconns w \<and> (\<forall>p. map_option el_poller (wloops w' p) = map_option el_poller (wloops w p))"
proof -
  let ?v = "view_at run w"
  obtain c where c: "wconns w i = Some c" "pinned ?v i" "conn_state c = kDisconnected"
    "F_connectEstablished i \<notin> set (v_queue ?v (conn_loop c))"
    using assms(2) by (auto simp: leaving_def split: option.splits)
  obtain L where L: "wloops w (conn_loop c) = Some L" using conn_loop_exists[OF inv c(1)] by blast
  let ?w1 = "upd_srv (\<lambda>S. S\<lparr>connections := AList.delete (conn_name c) (connections S)\<rparr>) w"
  let ?w = "upd_loop_at (conn_loop c) (queueInLoop tid (F_connectDestroyed i)) ?w1"
  let ?q = "(v_queue ?v)(conn_loop c := v_queue ?v (conn_loop c) @ [F_connectDestroyed i])"
  have run: "TcpServer_removeConnectionInLoop tid i w = Inr ?w"
    using c(1) L by (simp add: TcpServer_removeConnectionInLoop_def conn_at_Some queue_at)
  have "view_at run ?w1 = ?v\<lparr>v_map := v_map ?v - {i}\<rparr>"
    using erase_one[OF world_invD(3,4)[OF inv] c(1)] by (simp add: view_at_def)
  then have view: "view_at run ?w = ?v\<lparr>v_map := v_map ?v - {i}, v_queue := ?q\<rparr>"
    using view_queue_task[of ?w1 "conn_loop c" L run tid "F_connectDestroyed i"] L by simp
  have "view_inv infra (view_at run ?w)"
    unfolding view using c by (intro view_removed[OF world_invD(1)[OF inv]]) simp_all
  moreover have "server_inv ?w"
    by (rule server_inv_same[OF world_invD(2)[OF inv]])
      (use srv_ok_delete[OF world_invD(3)[OF inv]] in \<open>auto simp: upd_srv_def upd_loop_at_def srv_ok_def\<close>)
  moreover have "F_acceptorListen \<notin> set (v_queue (view_at run ?w) p)" for p
    using world_invD(7)[OF inv] unfolding view by auto
  moreover have "pinned (view_at run ?w) i"
    unfolding view pinned_def by (rule disjI2, rule exI[of _ "conn_loop c"]) simp
  then have "leaving run i ?w" using c unfolding leaving_def by (simp add: view)
  moreover have "map_option el_poller (wloops ?w p) = map_option el_poller (wloops w p)" for p
    using L by (simp add: get_loop_def)
  ultimately show ?thesis using run by (auto simp: world_inv_def)
qed

lemma removeConnection_inv:
  assumes inv: "world_inv infra run w" and "leaving run i w"
  shows "\<exists>w'. TcpServer_removeConnection tid i w = Inr w' \<and> world_inv infra run w' \<and> leaving run i w' \<and>
    wconns w' = wconns w \<and> (\<forall>p. map_option el_poller (wloops w' p) = map_option el_poller (wloops w p))"
proof -
  let ?v = "view_at run w" and ?b = "srv_loop (srv w)"
  obtain B where B: "wloops w ?b = Some B" using base_loop_exists[OF inv] by blast
  show ?thesis
  proof (cases "threadId B = tid")
    case True
    then have "TcpServer_removeConnection tid i w = TcpServer_removeConnectionInLoop tid i w"
      unfolding TcpServer_removeConnection_def by (rule run_here[OF B])
    with removeConnectionInLoop_inv[OF assms] show ?thesis by simp
  next
    case False
    let ?w = "upd_loop_at ?b (queueInLoop tid (F_removeConnectionInLoop i)) w"
    obtain c where c: "wconns w i = Some c" "pinned ?v i" "conn_state c = kDisconnected"
      "F_connectEstablished i \<notin> set (v_queue ?v (conn_loop c))"
      using assms(2) by (auto simp: leaving_def split: option.splits)
    note view = view_queue_task[OF B, of run tid "F_removeConnectionInLoop i"]
    have "view_inv infra (view_at run ?w)"
      unfolding view using view_queue_removal[OF world_invD(1)[OF inv] _ c(2,3,4)] c(1) by simp
    moreover have "server_inv ?w"
      by (rule server_inv_same[OF world_invD(2)[OF inv] _ same_server]) (use world_invD(3)[OF inv] in auto)
    moreover have "F_acceptorListen \<notin> set (v_queue (view_at run ?w) p)" for p
      using world_invD(7)[OF inv] unfolding view by auto
    moreover have "pinned (view_at run ?w) i"
      unfolding view pinned_def by (rule disjI2, rule exI[of _ ?b]) simp
    then have "leaving run i ?w" using c unfolding leaving_def by (auto simp: view)
    moreover have "map_option el_poller (wloops ?w p) = map_option el_poller (wloops w p)" for p
      using B by (simp add: get_loop_def)
    ultimately show ?thesis
      using run_elsewhere[OF B False] by (auto simp: world_inv_def TcpServer_removeConnection_def)
  qed
qed

text \<open>The calls of the close callback that an operation ends with.\<close>

lemma removeConnections_inv:
  assumes "world_inv infra run w" and "set us \<subseteq> {i}" and "us \<noteq> [] \<longrightarrow> leaving run i w"
  shows "\<exists>w'. foldR (TcpServer_removeConnection tid) us w = Inr w' \<and> world_inv infra run w' \<and>
    wconns w' = wconns w \<and> (\<forall>p. map_option el_poller (wloops w' p) = map_option el_poller (wloops w p))"
  using assms
proof (induction us arbitrary: w)
  case Nil
  then show ?case by simp
next
  case (Cons u us)
  then have "u = i" "leaving run i w" by simp_all
  with removeConnection_inv[OF Cons.prems(1), of i tid] obtain w1 where
    "TcpServer_removeConnection tid u w = Inr w1" "world_inv infra run w1" "leaving run i w1" "wconns w1 = wconns w"
    "\<forall>p. map_option el_poller (wloops w1 p) = map_option el_poller (wloops w p)" by blast
  with Cons.IH[of w1] Cons.prems(2) show ?case by auto
qed

section \<open>An operation of a connection\<close>

lemma view_at_conn:
  assumes "wloops w (conn_loop c) = Some L" and "pendingFunctors L' = pendingFunctors L @ N"
  shows "view_at run (w\<lparr>wconns := (wconns w)(i \<mapsto> c'), wloops := (wloops w)(conn_loop c \<mapsto> L')\<rparr>) =
    (view_at run w)\<lparr>v_conns := (wconns w)(i \<mapsto> c'),
      v_pollers := (v_pollers (view_at run w))(conn_loop c \<mapsto> el_poller L'),
      v_queue := (v_queue (view_at run w))(conn_loop c := v_queue (view_at run w) (conn_loop c) @ N)\<rparr>"
  using assms by (simp add: view_at_def fun_eq_iff)

text \<open>
  Somebody holds the connection (\<open>held\<close>), or it is disconnected and the operation leaves its
  channel alone.
\<close>

lemma on_conn_inv:
  assumes inv: "world_inv infra run w" and c: "wconns w i = Some c" and L: "wloops w (conn_loop c) = Some L"
    and pin: "pinned (view_at run w) i"
    and E: "F_connectEstablished i \<notin> set (v_queue (view_at run w) (conn_loop c))"
    and f: "safely (f (conn_in c L w)) (effect (threadId L) (conn_in c L w))"
    and held: "i \<in> v_map (view_at run w) \<or> F_connectDestroyed i \<in> set (v_queue (view_at run w) (conn_loop c)) \<or>
      conn_state c = kDisconnected \<and> ends (f (conn_in c L w)) (\<lambda>t. el_poller (cloop t) = el_poller L)"
  shows "safely (on_conn tid i f w) (\<lambda>w'. world_inv infra run w' \<and>
    (\<exists>t. f (conn_in c L w) = Inr t \<and> wconns w' i = Some (conn t) \<and>
      map_option el_poller (wloops w' (conn_loop c)) = Some (el_poller (cloop t))))"
proof (cases "f (conn_in c L w)")
  case (Inl e)
  with f c L show ?thesis by (simp add: on_conn_def conn_at_Some loop_at_Some)
next
  case (Inr t)
  let ?s = "conn_in c L w" and ?v = "view_at run w" and ?P = "el_poller L" and ?P' = "el_poller (cloop t)"
  have eff: "effect (threadId L) ?s t" using safely_Inr_D[OF f Inr] .
  then obtain N where N: "pendingFunctors (cloop t) = pendingFunctors L @ N"
      "list_all (new_task (prof c) (wstrings w) (conn_state c) (conn_state (conn t))) N"
    by (auto simp: effect_def prof_of)
  from eff have ok: "conn_ok (threadId L) t" "keeps ?s t" "conn_state c \<le> conn_state (conn t)"
    and ups: "set (upcalls t) \<subseteq> {conn_id c}" "upcalls t \<noteq> [] \<longrightarrow> conn_state (conn t) = kDisconnected"
    by (auto simp: effect_def)
  from ok(2) have same: "conn_id (conn t) = conn_id c" "conn_loop (conn t) = conn_loop c" "conn_channel (conn t) = conn_channel c"
      "sockfd (conn t) = sockfd c" "conn_name (conn t) = conn_name c" "prof (conn t) = prof c" "strings t = wstrings w"
    and frame: "poller_frame (conn_channel c) (sockfd c) ?P ?P'"
    by (auto simp: keeps_def prof_of) (auto simp: prof_def)
  note vinv = world_invD(1)[OF inv] and P = view_pollers[OF L, of run]
  note I = conn_invD[OF view_invD(1)[OF vinv] P, of i] 
  have id: "conn_id c = i" using I(1) c by simp
  let ?R = "F_removeConnectionInLoop i \<in> set (v_queue ?v (v_base ?v))"
  have ph: "phase (prof c) (wstrings w) i (i \<in> v_map ?v) (v_queue ?v (conn_loop c)) ?R (conn_state c) (registered c ?P)"
    using I(2) c by (simp add: in_phase_def)
  have pid: "p_id (prof c) = i" using id by (simp add: prof_def)
  have ph': "phase (prof (conn t)) (wstrings w) i (i \<in> v_map ?v) (v_queue ?v (conn_loop c) @ N) ?R
      (conn_state (conn t)) (registered (conn t) ?P')"
  proof (cases "i \<in> v_map ?v \<or> F_connectDestroyed i \<in> set (v_queue ?v (conn_loop c))")
    case True
    from phase_op[OF ph True E ok(3) N(2) pid] show ?thesis unfolding same .
  next
    case False
    with held Inr have q: "conn_state c = kDisconnected" "?P' = ?P" by auto
    with ok(3) have "conn_state (conn t) = kDisconnected" using kDisconnected_top by simp
    with phase_quiet[OF ph E q(1) _ pid] N(2) q show ?thesis by (simp add: same registered_def)
  qed
  let ?w = "w\<lparr>wconns := (wconns w)(i \<mapsto> conn t), wloops := (wloops w)(conn_loop c \<mapsto> cloop t)\<rparr>"
  note view = view_at_conn[OF L N(1), of run i "conn t"]
  have fit': "fit (conn t) ?P'" using ok(1) by (simp add: conn_ok_fit)
  have NN: "\<forall>F \<in> set N. about i F \<and> F \<noteq> F_removeConnectionInLoop i"
    using N(2) new_taskD[of "prof c" _ _ _ _ i] pid by (auto simp: list_all_iff)
  have "view_inv infra (view_at run ?w)"
    unfolding view using view_op[OF vinv _ P pin same(1-4) frame fit' NN] c ph' by simp
  moreover have "server_inv ?w"
    by (rule server_inv_same[OF world_invD(2)[OF inv] srv_ok_conn[OF world_invD(3)[OF inv] c same(5)] same_server])
      (use c same(5) in auto)
  moreover have "F_acceptorListen \<notin> set N" using NN by fastforce
  then have "F_acceptorListen \<notin> set (v_queue (view_at run ?w) p)" for p
    using world_invD(7)[OF inv, of p] unfolding view by auto
  ultimately have inv': "world_inv infra run ?w" by (simp add: world_inv_def)
  have "F_connectEstablished i \<notin> set N" using N(2) new_taskD(4)[of "prof c"] pid by (auto simp: list_all_iff)
  then have "leaving run i ?w" if "conn_state (conn t) = kDisconnected"
  proof -
    have "pinned (view_at run ?w) i" by (rule pinned_more[OF pin]) (auto simp: view)
    with that E \<open>F_connectEstablished i \<notin> set N\<close> show ?thesis unfolding leaving_def view by (simp add: same)
  qed
  with removeConnections_inv[OF inv', of "upcalls t" i tid] ups id obtain w' where w':
    "foldR (TcpServer_removeConnection tid) (upcalls t) ?w = Inr w'" "world_inv infra run w'" "wconns w' = wconns ?w"
    "\<forall>p. map_option el_poller (wloops w' p) = map_option el_poller (wloops ?w p)"
    by auto
  then have "on_conn tid i f w = Inr w'"
    using c L Inr by (simp add: on_conn_def conn_at_Some loop_at_Some)
  moreover have "map_option el_poller (wloops w' (conn_loop c)) = Some ?P'" using w'(4) by simp
  ultimately show ?thesis using w'(2,3) Inr by simp
qed


section \<open>Running a task\<close>

lemma pop_inv:
  assumes inv: "world_inv infra run w" and Q: "run p = F # Q" and p: "wloops w p = Some L"
    and ran: "\<And>i c P. F = F_connectDestroyed i \<Longrightarrow> wconns w i = Some c \<Longrightarrow>
       map_option el_poller (wloops w (conn_loop c)) = Some P \<Longrightarrow> \<not> registered c P"
  shows "world_inv infra (run(p := Q)) w"
proof -
  let ?v = "view_at run w" and ?Q = "Q @ pendingFunctors L"
  have view: "view_at (run(p := Q)) w = ?v\<lparr>v_queue := (v_queue ?v)(p := ?Q)\<rparr>"
    using p by (auto simp: view_at_def fun_eq_iff)
  have "v_queue ?v p = F # ?Q" using Q view_queue[OF p] by simp
  then have "view_inv infra (view_at (run(p := Q)) w)"
    unfolding view using ran by (intro view_pop[OF world_invD(1)[OF inv]]) (auto simp: view_at_def)
  moreover have "F_acceptorListen \<notin> set (v_queue (view_at (run(p := Q)) w) r)" for r
    using world_invD(7)[OF inv, of r] \<open>v_queue ?v p = F # ?Q\<close> unfolding view by (cases "r = p") auto
  ultimately show ?thesis using world_invD(2)[OF inv] by (simp add: world_inv_def)
qed

text \<open>The callbacks of a disconnected connection leave its channel alone.\<close>

definition quiet_from :: "cstate \<Rightarrow> cstate \<Rightarrow> bool" where
  "quiet_from s t \<longleftrightarrow> conn_state (conn t) = kDisconnected \<and> el_poller (cloop t) = el_poller (cloop s)"

lemma user_call_quiet: "quiet_from s t \<Longrightarrow> ends (user_call os tid a t) (quiet_from s)"
  by (cases a) (auto simp: quiet_from_def TcpConnection_send_def TcpConnection_shutdown_def upd_conn_def
      intro!: ends_value[where m = "m :: (string \<times> buffer) res" for m] ends_pair)

lemma run_script_quiet: "quiet_from s t \<Longrightarrow> ends (run_script os tid as t) (quiet_from s)"
  unfolding run_script_def by (intro ends_foldR user_call_quiet)

lemma notification_quiet:
  assumes "conn_state (conn s) = kDisconnected" and "F = F_writeComplete i \<or> F = F_highWaterMark i n"
  shows "ends (conn_functor os tid F s) (\<lambda>t. el_poller (cloop t) = el_poller (cloop s))"
proof -
  have "quiet_from s s" using assms(1) by (simp add: quiet_from_def)
  then have "ends (run_script os tid as s) (\<lambda>t. el_poller (cloop t) = el_poller (cloop s))" for as
    by (intro ends_mono[OF run_script_quiet]) (auto simp: quiet_from_def)
  with assms(2) show ?thesis by (auto split: option.split)
qed

text \<open>Where a task and its connection stand when the task is next.\<close>

lemma next_task:
  assumes inv: "world_inv infra run w" and Q: "run p = F # Q" and i: "about i F" and p: "wloops w p = Some L"
  shows "\<exists>c LC. wconns w i = Some c \<and> p = (if F = F_removeConnectionInLoop i then srv_loop (srv w) else conn_loop c) \<and>
    wloops w (conn_loop c) = Some LC \<and> in_phase (view_at run w) i c (el_poller LC)"
proof -
  have "F \<in> set (v_queue (view_at run w) p)" using Q view_queue[OF p] by simp
  from task_invD[OF view_invD(3)[OF world_invD(1)[OF inv]] this i] obtain c where
    c: "wconns w i = Some c" "p = (if F = F_removeConnectionInLoop i then srv_loop (srv w) else conn_loop c)"
    unfolding task_at_def by auto
  obtain LC where LC: "wloops w (conn_loop c) = Some LC" using conn_loop_exists[OF inv c(1)] by blast
  have I: "conn_inv (view_at run w) i c" using view_invD(1)[OF world_invD(1)[OF inv]] c(1) by simp
  show ?thesis
    using c LC conn_invD(2)[OF I view_pollers[OF LC]] by blast
qed

text \<open>A connection that the server holds is well formed on its loop.\<close>

lemma pinned_conn_ok:
  assumes "world_inv infra run w" and "wconns w i = Some c" and "wloops w (conn_loop c) = Some L"
    and "pinned (view_at run w) i"
  shows "conn_ok (threadId L) (conn_in c L w)"
  using conn_invD(3)[OF view_invD(1)[OF world_invD(1)[OF assms(1)]] view_pollers[OF assms(3)]] assms(2,4)
  by (simp add: fit_conn_ok)

lemma conn_task_inv:
  assumes os: "env_ok os" and inv: "world_inv infra run w" and Q: "run p = F # Q" and i: "about i F"
    and F: "F \<noteq> F_connectEstablished i" "F \<noteq> F_removeConnectionInLoop i" and p: "wloops w p = Some L"
  shows "safely (on_conn (threadId L) i (conn_functor os (threadId L) F) w) (world_inv infra (run(p := Q)))"
proof -
  let ?v = "view_at run w" and ?tid = "threadId L"
  obtain c where c: "wconns w i = Some c" "p = conn_loop c" and ph: "in_phase ?v i c (el_poller L)"
    using next_task[OF inv Q i p] F(2) p by auto
  note L = p[unfolded c(2)]
  have queue: "v_queue ?v (conn_loop c) = F # Q @ pendingFunctors L" using view_queue[OF L, of run] Q c(2) by simp
  note ph = ph[unfolded in_phase_def]
  have ev: "event_ok (prof c) (wstrings w) (conn_state c) (Task F)" using phaseD(4)[OF ph, of F] i queue by simp
  have E: "F_connectEstablished i \<notin> set (v_queue ?v (conn_loop c))"
  proof
    assume "F_connectEstablished i \<in> set (v_queue ?v (conn_loop c))"
    with ph have "filter (about i) (v_queue ?v (conn_loop c)) = [F_connectEstablished i]" by (simp add: phase_def)
    with F(1) i show False unfolding queue by simp
  qed
  let ?held = "i \<in> v_map ?v \<or> F_connectDestroyed i \<in> set (v_queue ?v (conn_loop c))"
  have raw: "?held" if "raw_this F"
    using ph i that unfolding phase_def queue by auto
  have pin: "pinned ?v i"
  proof (cases "raw_this F")
    case True
    from raw[OF this] show ?thesis using pinned_map pinned_task[of "F_connectDestroyed i"] by fastforce
  next
    case False
    then show ?thesis using pinned_task[of F ?v "conn_loop c" i] i queue by simp
  qed
  note ok = pinned_conn_ok[OF inv c(1) L pin]
  have eff: "safely (conn_functor os ?tid F (conn_in c L w)) (effect ?tid (conn_in c L w))"
    using conn_event_effect[OF os ok, of "Task F"] ev by (simp add: prof_of)
  have held: "?held \<or> conn_state c = kDisconnected \<and>
      ends (conn_functor os ?tid F (conn_in c L w)) (\<lambda>t. el_poller (cloop t) = el_poller L)"
  proof (cases ?held)
    case False
    have "F \<noteq> F_connectDestroyed i" using False queue by auto
    with False raw i F obtain n where "F = F_writeComplete i \<or> F = F_highWaterMark i n" by (cases F) auto
    moreover have "conn_state c = kDisconnected" using phaseD(2)[OF ph] False by simp
    ultimately show ?thesis using notification_quiet[of "conn_in c L w" F i n] by simp
  qed simp
  have op: "safely (on_conn ?tid i (conn_functor os ?tid F) w) (\<lambda>w'. world_inv infra run w' \<and>
    (\<exists>t. conn_functor os ?tid F (conn_in c L w) = Inr t \<and> wconns w' i = Some (conn t) \<and>
      map_option el_poller (wloops w' (conn_loop c)) = Some (el_poller (cloop t))))"
    by (rule on_conn_inv[where f = "conn_functor os ?tid F", OF inv c(1) L pin E eff held[unfolded disj_assoc]])
  show ?thesis
  proof (rule safely_mono[OF op], elim conjE exE)
    fix w' t
    assume w': "world_inv infra run w'" and t: "conn_functor os ?tid F (conn_in c L w) = Inr t"
      "wconns w' i = Some (conn t)" "map_option el_poller (wloops w' (conn_loop c)) = Some (el_poller (cloop t))"
    obtain L' where L': "wloops w' p = Some L'" using t(3) c(2) by auto
    have keep: "keeps (conn_in c L w) t" using safely_Inr_D[OF eff t(1)] by (simp add: effect_def)
    show "world_inv infra (run(p := Q)) w'"
    proof (rule pop_inv[OF w' Q L'])
      fix j d P
      assume D: "F = F_connectDestroyed j" and d: "wconns w' j = Some d" "map_option el_poller (wloops w' (conn_loop d)) = Some P"
      have j: "j = i" using D i by simp
      then have dt: "d = conn t" "P = el_poller (cloop t)" "sockfd d = sockfd c"
        using d t keep by (auto simp: keeps_def profile_of_def)
      have "connectDestroyed os ?tid (conn_in c L w) = Inr t" using t(1) D by simp
      from safely_Inr_D[OF connectDestroyed_unmaps[OF os ok] this] dt show "\<not> registered d P"
        by (simp add: registered_def)
    qed
  qed
qed


lemma established_inv:
  assumes os: "env_ok os" and inv: "world_inv infra run w" and c: "wconns w i = Some c" "i \<in> v_map (view_at run w)"
    "conn_state c = kConnecting" and L: "wloops w (conn_loop c) = Some L"
    and E: "F_connectEstablished i \<notin> set (v_queue (view_at run w) (conn_loop c))"
  shows "safely (on_conn (threadId L) i (connectEstablished os (threadId L)) w) (world_inv infra run)"
proof -
  let ?tid = "threadId L"
  note pin = pinned_map[OF c(2)]
  have eff: "safely (connectEstablished os ?tid (conn_in c L w)) (effect ?tid (conn_in c L w))"
    using conn_event_effect[OF os pinned_conn_ok[OF inv c(1) L pin], of "Task (F_connectEstablished i)"] c(3) by simp
  show ?thesis
    by (rule safely_mono[OF on_conn_inv[where f = "connectEstablished os ?tid", OF inv c(1) L pin E eff disjI1[OF c(2)]]])
      blast
qed

lemma established_task_inv:
  assumes os: "env_ok os" and inv: "world_inv infra run w" and Q: "run p = F_connectEstablished i # Q" and p: "wloops w p = Some L"
  shows "safely (on_conn (threadId L) i (connectEstablished os (threadId L)) w) (world_inv infra (run(p := Q)))"
proof -
  let ?v = "view_at run w"
  obtain c where c: "wconns w i = Some c" "p = conn_loop c" and ph: "in_phase ?v i c (el_poller L)"
    using next_task[OF inv Q _ p, of i] p by auto
  have queue: "v_queue ?v p = F_connectEstablished i # Q @ pendingFunctors L" using view_queue[OF p, of run] Q by simp
  note ph = ph[unfolded in_phase_def c(2)[symmetric] queue]
  from phaseD(1)[OF ph] have M: "i \<in> v_map ?v" "conn_state c = kConnecting" by simp_all
  have "F_connectEstablished i \<notin> set (Q @ pendingFunctors L)"
  proof
    assume "F_connectEstablished i \<in> set (Q @ pendingFunctors L)"
    then have "F_connectEstablished i \<in> set (filter (about i) (Q @ pendingFunctors L))" by simp
    moreover have "filter (about i) (Q @ pendingFunctors L) = []" using ph by (simp add: phase_def)
    ultimately show False by (simp only: list.set(1) empty_iff)
  qed
  moreover have inv': "world_inv infra (run(p := Q)) w" by (rule pop_inv[OF inv Q p]) simp
  moreover have "v_queue (view_at (run(p := Q)) w) (conn_loop c) = Q @ pendingFunctors L"
    using view_queue[OF p, of "run(p := Q)"] c(2) by simp
  ultimately show ?thesis
    using established_inv[OF os inv' c(1)] M p c(2) by simp
qed

lemma removal_task_inv:
  assumes inv: "world_inv infra run w" and Q: "run p = F_removeConnectionInLoop i # Q" and p: "wloops w p = Some L"
  shows "safely (TcpServer_removeConnectionInLoop tid i w) (world_inv infra (run(p := Q)))"
proof -
  let ?v = "view_at run w" and ?F = "F_removeConnectionInLoop i"
  obtain c LC where c: "wconns w i = Some c" "p = srv_loop (srv w)"
    "wloops w (conn_loop c) = Some LC" and ph: "in_phase ?v i c (el_poller LC)"
    using next_task[OF inv Q _ p, of i] by auto
  have F: "?F \<in> set (v_queue ?v p)" using view_queue[OF p, of run] Q by simp
  then have R: "?F \<in> set (v_queue ?v (v_base ?v))" using c(2) by simp
  note ph = ph[unfolded in_phase_def]
  have "leaving run i w"
    unfolding leaving_def using c(1) phaseD(1,2)[OF ph] R pinned_task[OF F] by auto
  from removeConnectionInLoop_inv[OF inv this] obtain w' where w': "TcpServer_removeConnectionInLoop tid i w = Inr w'"
    "world_inv infra run w'" "\<forall>p. map_option el_poller (wloops w' p) = map_option el_poller (wloops w p)" by blast
  obtain L' where "wloops w' p = Some L'" using w'(3) p by (metis map_option_eq_Some option.simps(9))
  from pop_inv[OF w'(2) Q this] w'(1) show ?thesis by simp
qed

lemma task_step_inv:
  assumes os: "env_ok os" and inv: "world_inv infra run w" and Q: "run p = F # Q" and p: "wloops w p = Some L"
  shows "safely (world_functor os (threadId L) r F w) (world_inv infra (run(p := Q)))"
proof -
  note conn = conn_task_inv[OF os inv Q _ _ _ p]
  show ?thesis
  proof (cases F)
    case F_acceptorListen
    then show ?thesis using world_invD(7)[OF inv, of p] view_queue[OF p, of run] Q by simp
  next
    case (F_user n)
    then show ?thesis using pop_inv[OF inv Q p] by simp
  next
    case (F_connectEstablished i)
    have "conn_functor os (threadId L) (F_connectEstablished i) = connectEstablished os (threadId L)" by (rule ext) simp
    with F_connectEstablished show ?thesis using established_task_inv[OF os inv _ p] Q by simp
  next
    case (F_removeConnectionInLoop i)
    then show ?thesis using removal_task_inv[OF inv _ p] Q by simp
  next
    case (F_connectDestroyed i)
    then show ?thesis using conn[of i] by (simp only: world_functor.simps about.simps) simp
  next
    case (F_sendInLoop i a n)
    then show ?thesis using conn[of i] by (simp only: world_functor.simps about.simps) simp
  next
    case (F_shutdownInLoop i)
    then show ?thesis using conn[of i] by (simp only: world_functor.simps about.simps) simp
  next
    case (F_writeComplete i)
    then show ?thesis using conn[of i] by (simp only: world_functor.simps about.simps) simp
  next
    case (F_highWaterMark i n)
    then show ?thesis using conn[of i] by (simp only: world_functor.simps about.simps) simp
  qed
qed

section \<open>Events and calls\<close>

text \<open>A channel that the poller knows belongs to a connection that the server still holds.\<close>

lemma registered_held:
  assumes inv: "world_inv infra run w" and c: "wconns w i = Some c" and L: "wloops w (conn_loop c) = Some L"
    and reg: "registered c (el_poller L)"
  shows "i \<in> v_map (view_at run w) \<or> F_connectDestroyed i \<in> set (v_queue (view_at run w) (conn_loop c))"
    "pinned (view_at run w) i" "F_connectEstablished i \<notin> set (v_queue (view_at run w) (conn_loop c))"
proof -
  let ?v = "view_at run w"
  have "in_phase ?v i c (el_poller L)"
    using conn_invD(2)[OF view_invD(1)[OF world_invD(1)[OF inv]] view_pollers[OF L]] c by simp
  note ph = this[unfolded in_phase_def]
  show held: "i \<in> v_map ?v \<or> F_connectDestroyed i \<in> set (v_queue ?v (conn_loop c))"
    using phaseD(3)[OF ph] reg by simp
  then show "pinned ?v i" using pinned_map pinned_task[of "F_connectDestroyed i"] by fastforce
  show "F_connectEstablished i \<notin> set (v_queue ?v (conn_loop c))" using phaseD(1)[OF ph] reg by blast
qed

lemma event_inv:
  assumes os: "env_ok os" and inv: "world_inv infra run w" and c: "wconns w i = Some c" and L: "wloops w (conn_loop c) = Some L"
    and reg: "registered c (el_poller L)"
  shows "safely (on_conn (threadId L) i (conn_invoke os (threadId L) cb now) w) (world_inv infra run)"
proof -
  let ?tid = "threadId L" and ?f = "conn_invoke os (threadId L) cb now"
  note r = registered_held[OF inv c L reg]
  have eff: "safely (?f (conn_in c L w)) (effect ?tid (conn_in c L w))"
    using conn_event_effect[OF os pinned_conn_ok[OF inv c L r(2)], of "Invoke cb now"] by simp
  show ?thesis
    by (rule safely_mono[OF on_conn_inv[where f = ?f, OF inv c L r(2,3) eff]]) (use r(1) in blast)+
qed

text \<open>A call from another thread takes effect only on a connected connection.\<close>

lemma remote_inv:
  assumes inv: "world_inv infra run w" and c: "wconns w i = Some c" and L: "wloops w (conn_loop c) = Some L"
    and off: "conn_state c \<noteq> kConnected \<Longrightarrow> f (conn_in c L w) = Inr (conn_in c L w)"
    and on: "conn_ok (threadId L) (conn_in c L w) \<Longrightarrow>
      \<exists>t. f (conn_in c L w) = Inr t \<and> effect (threadId L) (conn_in c L w) t"
  shows "safely (on_conn tid i f w) (world_inv infra run)"
proof (cases "conn_state c = kConnected")
  case False
  then have "on_conn tid i f w = Inr w" using c L off by (simp add: on_conn_def conn_at_Some loop_at_Some fun_upd_idem)
  with inv show ?thesis by simp
next
  case True
  let ?v = "view_at run w"
  have "in_phase ?v i c (el_poller L)"
    using conn_invD(2)[OF view_invD(1)[OF world_invD(1)[OF inv]] view_pollers[OF L]] c by simp
  note ph = this[unfolded in_phase_def]
  have M: "i \<in> v_map ?v" using phaseD(2)[OF ph] True by auto
  have E: "F_connectEstablished i \<notin> set (v_queue ?v (conn_loop c))" using phaseD(1)[OF ph] True by auto
  note pin = pinned_map[OF M]
  obtain t where t: "f (conn_in c L w) = Inr t" "effect (threadId L) (conn_in c L w) t"
    using on[OF pinned_conn_ok[OF inv c L pin]] by blast
  show ?thesis
    by (rule safely_mono[OF on_conn_inv[where f = f, OF inv c L pin E _ disjI1[OF M]]]) (use t in simp_all)
qed


section \<open>Accepting\<close>

text \<open>
  What \<open>new\<close> and \<open>accept4\<close> promise: the address is nobody's (\<open>fresh_ptr\<close>), the descriptor is not
  open. It is enough that it is not one of the loops and the acceptor (\<open>infra\<close>) nor one of a
  connection that somebody holds.
\<close>

definition fresh_fd :: "fd set \<Rightarrow> fd \<Rightarrow> view \<Rightarrow> bool" where
  "fresh_fd infra fd v \<longleftrightarrow> fd \<notin> infra \<and> (\<forall>i c. v_conns v i = Some c \<longrightarrow> pinned v i \<longrightarrow> sockfd c \<noteq> fd)"

lemma fresh_fd_unmapped:
  assumes inv: "world_inv infra run w" and "fresh_fd infra fd (view_at run w)" and L: "wloops w p = Some L"
  shows "channelMap (el_poller L) fd = None"
proof (rule ccontr)
  assume "channelMap (el_poller L) fd \<noteq> None"
  then obtain q where q: "channelMap (el_poller L) fd = Some q" by blast
  have "poller_inv infra (view_at run w)" using view_invD(4)[OF world_invD(1)[OF inv]] .
  with q assms(2) obtain i c where c: "wconns w i = Some c" "conn_loop c = p" "sockfd c = fd" "conn_channel c = q"
    using view_pollers[OF L, of run] unfolding poller_inv_def fresh_fd_def by fastforce
  then have "registered c (el_poller L)" using q by (simp add: registered_def)
  with registered_held(2)[OF inv c(1)] c L assms(2) show False by (auto simp: fresh_fd_def)
qed

text \<open>A connection that has just been built, with the callbacks of the server.\<close>

definition new_conn :: "tcp_server \<Rightarrow> tcp_conn \<Rightarrow> bool" where
  "new_conn S c \<longleftrightarrow> conn_state c = kConnecting \<and> sock_hist c = [] \<and> content (inputBuffer c) = [] \<and>
     content (outputBuffer c) = [] \<and> connectionCallback c = srv_connectionCallback S \<and> messageCallback c = srv_messageCallback S \<and>
     writeCompleteCallback c = srv_writeCompleteCallback S \<and> highWaterMarkCallback c = None \<and> conn_closeCallback c"

lemma add_conn_inv:
  assumes inv: "world_inv infra run w" and new: "wconns w obj = None" "fresh_ptr cp w" "fresh_fd infra fd (view_at run w)"
    and io: "wloops w io = Some L" and pool: "pool_ok pool" "\<And>k. loop_in_turn k pool = loop_in_turn (Suc k) (threadPool (srv w))"
    and mk: "TcpConnection_new (Some io) obj (conn_name_of (srv w)) fd cp la pa L = Inr (c, L1)"
    and c1: "c1 = c\<lparr>connectionCallback := srv_connectionCallback (srv w), messageCallback := srv_messageCallback (srv w),
       writeCompleteCallback := srv_writeCompleteCallback (srv w), conn_closeCallback := True\<rparr>"
    and w2: "w2 = upd_srv (\<lambda>S. S\<lparr>connections := AList.update (conn_name_of (srv w)) obj (connections S)\<rparr>)
      ((upd_srv (\<lambda>S. S\<lparr>threadPool := pool, nextConnId := nextConnId S + 1\<rparr>) w)
         \<lparr>wconns := (wconns w)(obj \<mapsto> c1), wloops := (wloops w)(io \<mapsto> L1)\<rparr>)"
  shows "world_inv infra run w2" "obj \<in> v_map (view_at run w2)" "conn_state c1 = kConnecting" "conn_loop c1 = io"
    "threadId L1 = threadId L" "v_queue (view_at run w2) = v_queue (view_at run w)"
    "\<not> registered c1 (el_poller L1)" "new_conn (srv w) c1"
proof -
  let ?v = "view_at run w" and ?S = "srv w" and ?P = "el_poller L"
  from TcpConnection_new_total[of io obj "conn_name_of ?S" fd cp la pa L] mk obtain ch where
    L1: "L1 = L\<lparr>el_poller := store cp ch ?P\<rparr>" and cbs: "callbacks_of ch = (Some (ConnHandleRead obj),
      Some (ConnHandleWrite obj), Some (ConnHandleClose obj), Some (ConnHandleError obj))" and c: "conn_id c = obj" "conn_loop c = io" "conn_name c = conn_name_of ?S"
      "conn_state c = kConnecting" "sockfd c = fd" "conn_channel c = cp"
    by (auto simp: callbacks_of_def)
  have c1f: "conn_id c1 = obj" "conn_loop c1 = io" "conn_name c1 = conn_name_of ?S" "conn_state c1 = kConnecting"
      "sockfd c1 = fd" "conn_channel c1 = cp"
    using c c1 by simp_all
  have cp: "chans ?P cp = None" using new(2) io by (auto simp: fresh_ptr_def)
  have unmapped: "channelMap ?P fd = None" by (rule fresh_fd_unmapped[OF inv new(3) io])
  note vinv = world_invD(1)[OF inv]
  have Pok: "poller_ok ?P" using view_invD(4)[OF vinv] view_pollers[OF io, of run] unfolding poller_inv_def by blast
  have hw: "highWaterMarkCallback c = None" "highWaterMark c = 64 * 1024 * 1024"
    using mk by (auto simp: TcpConnection_new_def CheckLoopNotNull_def Let_def bindR_Inr_iff)
  have c1': "c1 = c\<lparr>connectionCallback := srv_connectionCallback ?S, messageCallback := srv_messageCallback ?S,
      writeCompleteCallback := srv_writeCompleteCallback ?S, highWaterMarkCallback := None,
      conn_closeCallback := True, highWaterMark := 64 * 1024 * 1024\<rparr>"
    using c1 hw by simp
  have prof: "profile_ok (prof c1)"
    using world_invD(6)[OF inv] unfolding c1' by (simp add: profile_ok_def prof_def callbacks_ok_def)
  have "abs_conn (conn_in c1 L1 w) = \<lparr>astate = kConnecting, ahist = [], abacklog = [], ainput = [],
      atasks = pendingFunctors L, anotices = []\<rparr>"
    by (rule new_conn_implements(2)[OF mk Pok cp unmapped]) (simp add: c1')
  then show "new_conn ?S c1" using c1' by (simp add: abs_conn_def new_conn_def)
  have "implements (profile_of (conn_in c1 L1 w)) (threadId L) (abs_conn (conn_in c1 L1 w)) (conn_in c1 L1 w)"
    by (rule new_conn_implements(1)[OF mk Pok cp unmapped]) (simp add: c1')
  with prof have "conn_ok (threadId L) (conn_in c1 L1 w)" by (simp add: conn_ok_def prof_of)
  then have fit: "fit c1 (el_poller L1)" by (simp add: conn_ok_fit)
  have frame: "poller_frame cp fd ?P (el_poller L1)" using cp fit fitD(2)[OF fit] c1f
    by (simp add: poller_frame_def L1)
  have conns: "AList.update (conn_name_of ?S) obj (connections ?S) = connections ?S @ [(conn_name_of ?S, obj)]"
    by (rule alist_update_new[OF conn_name_fresh[OF world_invD(3)[OF inv]]])
  have queue: "v_queue (view_at run w2) = v_queue ?v"
    using io L1 by (auto simp: w2 view_at_def upd_srv_def fun_eq_iff)
  have view: "view_at run w2 = ?v\<lparr>v_conns := (v_conns ?v)(obj \<mapsto> c1), v_pollers := (v_pollers ?v)(conn_loop c1 \<mapsto> el_poller L1),
      v_map := insert obj (v_map ?v)\<rparr>"
    using queue by (auto simp: w2 view_at_def upd_srv_def conns c1f fun_eq_iff)
  have "view_inv infra (view_at run w2)"
    unfolding view
  proof (rule view_add[OF vinv])
    show "v_conns ?v obj = None" using new(1) by simp
    show "v_pollers ?v (conn_loop c1) = Some ?P" using view_pollers[OF io] c1f(2) by simp
    show "chan_fd (conn_channel c1) (sockfd c1) ?P" using cp c1f by (simp add: chan_fd_def)
    show "poller_frame (conn_channel c1) (sockfd c1) ?P (el_poller L1)" using frame c1f by simp
    show "channelMap ?P (sockfd c1) = None" using unmapped c1f by simp
    show "conn_channel d \<noteq> conn_channel c1" if "v_conns ?v j = Some d" for j d
      using that new(2) c1f by (auto simp: fresh_ptr_def)
    show "sockfd d \<noteq> sockfd c1" if "v_conns ?v j = Some d" "pinned ?v j" for j d
      using that new(3) c1f unfolding fresh_fd_def by blast
    show "chans ?P (conn_channel c1) = None" using cp c1f by simp
    show "bound c1 (el_poller L1)" using L1 cbs c1f by (simp add: bound_def)
  qed (use c1f fit L1 in simp_all)
  moreover have "srv_ok w2" unfolding w2 by (rule srv_ok_add[OF world_invD(3)[OF inv] new(1) refl c1f(3)])
  moreover have "names_ok w2"
  proof -
    have old: "\<exists>k < nextConnId ?S. conn_name d = srv_name ?S @ ''-'' @ ipPort ?S @ ''#'' @ to_string k"
      if "wconns w j = Some d" for j d
      using world_invD(4)[OF inv] that unfolding names_ok_def by blast
    have ne: "conn_name d \<noteq> conn_name c1" if "wconns w j = Some d" for j d
      using old[OF that] by (auto simp: c1f(3) conn_name_of_def)
    have "\<exists>k < nextConnId ?S + 1. conn_name d = srv_name ?S @ ''-'' @ ipPort ?S @ ''#'' @ to_string k"
      if "((wconns w)(obj \<mapsto> c1)) j = Some d" for j d
    proof (cases "j = obj")
      case True
      with that c1f(3) show ?thesis by (intro exI[of _ "nextConnId ?S"]) (simp add: conn_name_of_def)
    next
      case False
      with old[of j d] that show ?thesis by force
    qed
    moreover have "conn_name d \<noteq> conn_name e"
      if "i \<noteq> j" "((wconns w)(obj \<mapsto> c1)) i = Some d" "((wconns w)(obj \<mapsto> c1)) j = Some e" for i j d e
      using that ne[of i d] ne[of j e] world_invD(4)[OF inv] unfolding names_ok_def by (auto split: if_splits)
    moreover have "srv_name (srv w2) = srv_name ?S" "ipPort (srv w2) = ipPort ?S" "nextConnId (srv w2) = nextConnId ?S + 1"
      "wconns w2 = (wconns w)(obj \<mapsto> c1)"
      by (simp_all add: w2 upd_srv_def)
    ultimately show ?thesis unfolding names_ok_def by simp
  qed
  moreover have "loops_ok w2"
    using world_invD(5)[OF inv] pool by (simp add: loops_ok_def w2 upd_srv_def)
  moreover have "callbacks_ok (srv w2)" "newConnectionCallback (srv_acceptor (srv w2))"
    using world_invD(2,6)[OF inv] by (simp_all add: callbacks_ok_def w2 upd_srv_def server_inv_def)
  ultimately show "world_inv infra run w2"
    using world_invD(7)[OF inv] by (simp add: world_inv_def server_inv_def queue)
  show "obj \<in> v_map (view_at run w2)" "conn_state c1 = kConnecting" "conn_loop c1 = io" "threadId L1 = threadId L"
    "v_queue (view_at run w2) = v_queue ?v" "\<not> registered c1 (el_poller L1)"
    using c1f queue view L1 unmapped by (simp_all add: registered_def)
qed


lemma no_task_yet:
  assumes "world_inv infra run w" and "wconns w obj = None" and "F \<in> set (v_queue (view_at run w) p)"
  shows "\<not> about obj F"
  using task_at_conn[OF task_invD[OF view_invD(3)[OF world_invD(1)[OF assms(1)]] assms(3)], of obj] assms(2) by auto

text \<open>\<open>newConnection\<close> builds the connection and puts it into the map; then it is established, or will be.\<close>

abbreviation establish :: "os \<Rightarrow> int \<Rightarrow> ptr \<Rightarrow> nat \<Rightarrow> world \<Rightarrow> world res" where
  "establish os tid io obj \<equiv> run_in_loop_at io tid (F_connectEstablished obj) (on_conn tid obj (connectEstablished os tid))"

lemma newConnection_adds:
  assumes inv: "world_inv infra run w"
    and new: "wconns w obj = None" "fresh_ptr cp w" "fresh_fd infra fd (view_at run w)"
    and L0: "wloops w (srv_loop (srv w)) = Some L0" "threadId L0 = tid" and ids: "nextConnId (srv w) < 2147483647"
  obtains io L c w2 where "TcpServer_newConnection os tid obj cp gs fd peer w = establish os tid io obj w2"
    "world_inv infra run w2" "obj \<in> v_map (view_at run w2)" "new_conn (srv w) c" "conn_loop c = io"
    "\<not> registered c (el_poller L)" "wloops w2 io = Some L" "wconns w2 = (wconns w)(obj \<mapsto> c)"
    "v_queue (view_at run w2) = v_queue (view_at run w)" "server_callbacks (srv w2) = server_callbacks (srv w)"
    "io = loop_in_turn 0 (threadPool (srv w))" "map_option threadId (wloops w io) = Some (threadId L)"
proof -
  let ?S = "srv w" and ?io = "loop_in_turn 0 (threadPool (srv w))"
  have pool0: "pool_ok (threadPool ?S)" "wloops w ?io \<noteq> None" using world_invD(5)[OF inv] by (simp_all add: loops_ok_def)
  then obtain L where L: "wloops w ?io = Some L" by blast
  obtain pool where pool: "getNextLoop (threadPool ?S) = Inr (?io, pool)" "pool_ok pool"
      "\<And>k. loop_in_turn k pool = loop_in_turn (Suc k) (threadPool ?S)"
    using getNextLoop_spec[OF pool0(1)] by blast
  obtain c L1 where mk: "TcpConnection_new (Some ?io) obj (conn_name_of ?S) fd cp (sockfd_To_SockAddr gs) peer L = Inr (c, L1)"
    using TcpConnection_new_total[of ?io obj "conn_name_of ?S" fd cp "sockfd_To_SockAddr gs" peer L] by blast
  define c1 where "c1 = c\<lparr>connectionCallback := srv_connectionCallback ?S, messageCallback := srv_messageCallback ?S,
    writeCompleteCallback := srv_writeCompleteCallback ?S, conn_closeCallback := True\<rparr>"
  define w2 where "w2 = upd_srv (\<lambda>S. S\<lparr>connections := AList.update (conn_name_of ?S) obj (connections S)\<rparr>)
      ((upd_srv (\<lambda>S. S\<lparr>threadPool := pool, nextConnId := nextConnId S + 1\<rparr>) w)
         \<lparr>wconns := (wconns w)(obj \<mapsto> c1), wloops := (wloops w)(?io \<mapsto> L1)\<rparr>)"
  have run: "TcpServer_newConnection os tid obj cp gs fd peer w = establish os tid ?io obj w2"
    using L0 ids pool(1) L mk
    by (simp add: TcpServer_newConnection_def assertInLoopThread_def isInLoopThread_def loop_at_Some Let_def w2_def c1_def
        setCloseCallback_def setWriteCompleteCallback_def setMessageCallback_def setConnectionCallback_def)
  note add = add_conn_inv[OF inv new L pool(2,3) mk c1_def w2_def]
  have "wloops w2 ?io = Some L1" "wconns w2 = (wconns w)(obj \<mapsto> c1)" "server_callbacks (srv w2) = server_callbacks ?S"
    by (simp_all add: w2_def upd_srv_def server_callbacks_def)
  with run add L show ?thesis by (intro that[of ?io w2 c1 L1]) simp_all
qed

lemma newConnection_inv:
  assumes os: "env_ok os" and inv: "world_inv infra run w"
    and new: "wconns w obj = None" "fresh_ptr cp w" "fresh_fd infra fd (view_at run w)"
    and L0: "wloops w (srv_loop (srv w)) = Some L0" "threadId L0 = tid" and ids: "nextConnId (srv w) < 2147483647"
  shows "safely (TcpServer_newConnection os tid obj cp gs fd peer w) (world_inv infra run)"
proof -
  obtain io L c w2 where run: "TcpServer_newConnection os tid obj cp gs fd peer w = establish os tid io obj w2"
    and w2: "world_inv infra run w2" "obj \<in> v_map (view_at run w2)"
    and new_c: "new_conn (srv w) c" and c: "conn_loop c = io" "\<not> registered c (el_poller L)"
    and io: "wloops w2 io = Some L" and conns: "wconns w2 = (wconns w)(obj \<mapsto> c)"
    and queue: "v_queue (view_at run w2) = v_queue (view_at run w)"
    by (rule newConnection_adds[OF assms(2-), of os gs peer])
  have c2: "wconns w2 obj = Some c" "conn_state c = kConnecting" using conns new_c by (simp_all add: new_conn_def)
  have none: "\<not> about obj F" if "F \<in> set (v_queue (view_at run w2) p)" for F p
    using no_task_yet[OF inv new(1)] that unfolding queue .
  show ?thesis
  proof (cases "threadId L = tid")
    case True
    have "F_connectEstablished obj \<notin> set (v_queue (view_at run w2) (conn_loop c))" using none by fastforce
    then have "safely (on_conn tid obj (connectEstablished os tid) w2) (world_inv infra run)"
      using established_inv[OF os w2(1) c2(1) w2(2) c2(2)] io c(1) True by simp
    then show ?thesis unfolding run run_here[OF io True] .
  next
    case False
    let ?w = "upd_loop_at io (queueInLoop tid (F_connectEstablished obj)) w2"
    note view = view_queue_task[OF io, of run tid "F_connectEstablished obj"]
    have "view_inv infra (view_at run ?w)"
      unfolding view unfolding c(1)[symmetric]
    proof (rule view_queue_established[OF world_invD(1)[OF w2(1)]])
      show "v_conns (view_at run w2) obj = Some c" using c2 by simp
      show "\<not> registered c P" if "v_pollers (view_at run w2) (conn_loop c) = Some P" for P
        using that c view_pollers[OF io, of run] by simp
    qed (use c2 w2 none in auto)
    moreover have "server_inv ?w"
      by (rule server_inv_same[OF world_invD(2)[OF w2(1)] _ same_server]) (use world_invD(3)[OF w2(1)] in auto)
    moreover have "F_acceptorListen \<notin> set (v_queue (view_at run ?w) p)" for p
      using world_invD(7)[OF w2(1)] unfolding view by auto
    ultimately show ?thesis unfolding run run_elsewhere[OF io False] by (simp add: world_inv_def)
  qed
qed

section \<open>Every action\<close>

text \<open>Every open descriptor of \<open>accept4\<close> is the socket of one connection object, and the other way round.\<close>

definition fds_inv :: "fd set \<Rightarrow> world \<Rightarrow> bool" where
  "fds_inv infra w \<longleftrightarrow> open_fds w = ran (sock_of w) \<and> infra \<inter> open_fds w = {} \<and> inj_on (sock_of w) (dom (sock_of w))"

definition reactor_inv :: "fd set \<Rightarrow> reactor \<Rightarrow> bool" where
  "reactor_inv infra s \<longleftrightarrow> world_inv infra (running s) (rw s) \<and> fds_inv infra (rw s)"

lemma fds_inv_same: "fds_inv infra w \<Longrightarrow> same_sockets w w' \<Longrightarrow> fds_inv infra w'"
  by (auto simp: fds_inv_def same_sockets_def)

lemma fds_inv_fresh: "fds_inv infra w \<Longrightarrow> fd \<notin> infra \<Longrightarrow> fd \<notin> open_fds w \<Longrightarrow> fresh_fd infra fd (view_at run w)"
  by (auto simp: fds_inv_def fresh_fd_def ran_def sock_of_def)

lemma fds_inv_new:
  assumes "fds_inv infra w" and "fd \<notin> infra" "fd \<notin> open_fds w" and "wconns w obj = None"
    and "open_fds w' = insert fd (open_fds w)" "sock_of w' = (sock_of w)(obj \<mapsto> fd)"
  shows "fds_inv infra w'"
proof -
  have none: "sock_of w obj = None" using assms(4) by (simp add: sock_of_def)
  then have "ran (sock_of w') = insert fd (ran (sock_of w))" using assms(6) by (simp add: ran_map_upd)
  moreover have "inj_on (sock_of w') (dom (sock_of w'))"
    using assms(1,3) none unfolding fds_inv_def assms(6) inj_on_def by (auto simp: ran_def)
  ultimately show ?thesis using assms(1,2,5) by (auto simp: fds_inv_def)
qed

lemma fds_inv_drop:
  assumes "fds_inv infra w" and "sock_of w i = Some fd" and "open_fds w' = open_fds w - {fd}" "sock_of w' = (sock_of w)(i := None)"
  shows "fds_inv infra w'"
proof -
  have "inj_on (sock_of w) (dom (sock_of w))" using assms(1) by (simp add: fds_inv_def)
  then have one: "j = i" if "sock_of w j = Some fd" for j
    by (rule inj_onD) (use assms(2) that in auto)
  have "ran (sock_of w') = ran (sock_of w) - {fd}"
  proof (intro equalityI subsetI)
    fix g
    assume "g \<in> ran (sock_of w')"
    then obtain j where "j \<noteq> i" "sock_of w j = Some g" by (auto simp: assms(4) ran_def split: if_splits)
    with one[of j] show "g \<in> ran (sock_of w) - {fd}" by (auto simp: ran_def)
  next
    fix g
    assume "g \<in> ran (sock_of w) - {fd}"
    then obtain j where "sock_of w j = Some g" "g \<noteq> fd" by (auto simp: ran_def)
    with assms(2) have "sock_of w' j = Some g" by (auto simp: assms(4))
    then show "g \<in> ran (sock_of w')" by (rule ranI)
  qed
  moreover have "inj_on (sock_of w') (dom (sock_of w'))"
    using assms(1) unfolding fds_inv_def assms(4) inj_on_def by auto
  ultimately show ?thesis using assms(1,3) by (auto simp: fds_inv_def)
qed

text \<open>
  When an action can happen: in the thread where the code does it, on a loop that exists;
  \<open>accept4\<close> fails or fresh addresses and descriptors come back, and fewer than \<open>2 ^ 31 - 1\<close>
  connections are accepted; \<open>epoll_wait\<close> reports what is watched; a channel is called back while
  the poller knows it; a string that another thread sends outlives the task, and fits in a vector;
  a connection is freed when neither the map nor a task holds it (nor a user, whose \<open>shared_ptr\<close>
  only delays the action).
\<close>

definition accept_doc :: "fd set \<Rightarrow> int \<Rightarrow> nat \<Rightarrow> ptr \<Rightarrow> world \<Rightarrow> bool" where
  "accept_doc infra fd obj cp w \<longleftrightarrow> fd < 0 \<or> nextConnId (srv w) < 2147483647 \<and>
     wconns w obj = None \<and> fresh_ptr cp w \<and> fd \<notin> infra \<and> fd \<notin> open_fds w"

fun enabled :: "fd set \<Rightarrow> action \<Rightarrow> reactor \<Rightarrow> bool" where
  "enabled infra (Accept tid answer obj cp gs) s \<longleftrightarrow>
     in_thread (srv_loop (srv (rw s))) tid (rw s) \<and> accept_doc infra (fst answer) obj cp (rw s)"
| "enabled infra (Swap p) s \<longleftrightarrow> wloops (rw s) p \<noteq> None \<and> running s p = []"
| "enabled infra (RunTask p tid r) s \<longleftrightarrow> in_thread p tid (rw s)"
| "enabled infra (FinishBatch p) s \<longleftrightarrow> wloops (rw s) p \<noteq> None"
| "enabled infra (Poll p wait now) s \<longleftrightarrow>
     (case wloops (rw s) p of None \<Rightarrow> False | Some L \<Rightarrow> wait_doc wait (el_poller L))"
| "enabled infra (Event tid i cb now) s \<longleftrightarrow>
     (case wconns (rw s) i of None \<Rightarrow> False
      | Some c \<Rightarrow> in_thread (conn_loop c) tid (rw s) \<and>
          (case wloops (rw s) (conn_loop c) of None \<Rightarrow> False | Some L \<Rightarrow> registered c (el_poller L)))"
| "enabled infra (Woken p) s \<longleftrightarrow> wloops (rw s) p \<noteq> None"
| "enabled infra (SendFrom tid i addr msg) s \<longleftrightarrow>
     (case wconns (rw s) i of None \<Rightarrow> False | Some c \<Rightarrow> \<not> in_thread (conn_loop c) tid (rw s)) \<and>
     wstrings (rw s) addr = Some msg \<and> length msg \<le> vec_max"
| "enabled infra (ShutdownFrom tid i) s \<longleftrightarrow>
     (case wconns (rw s) i of None \<Rightarrow> False | Some c \<Rightarrow> \<not> in_thread (conn_loop c) tid (rw s))"
| "enabled infra (Drop i) s \<longleftrightarrow> wconns (rw s) i \<noteq> None \<and> \<not> pinned (view_at (running s) (rw s)) i"

text \<open>A change that the view does not see.\<close>

lemma loop_same_inv:
  assumes "world_inv infra run w" and p: "wloops w p = Some L" and "el_poller (f L) = el_poller L"
    and "run' p @ pendingFunctors (f L) = run p @ pendingFunctors L" and "\<And>q. q \<noteq> p \<Longrightarrow> run' q = run q"
  shows "world_inv infra run' (upd_loop_at p f w)"
proof -
  have view: "view_at run' (upd_loop_at p f w) = view_at run w" by (rule view_loop_same[where f = f]) (use assms in auto)
  have "server_inv (upd_loop_at p f w)"
    by (rule server_inv_same[OF world_invD(2)[OF assms(1)] _ same_server]) (use world_invD(3)[OF assms(1)] in auto)
  then show ?thesis using assms(1) unfolding world_inv_def view by simp
qed

lemma poll_inv:
  assumes inv: "world_inv infra run w" and L: "wloops w p = Some L" "wait_doc wait (el_poller L)"
  shows "\<exists>P active. EPollPoller_poll wait (el_poller (get_loop p w), []) = Inr (P, active) \<and>
    world_inv infra run (upd_loop_at p (\<lambda>L. L\<lparr>el_poller := P, activeChannels := active, pollReturnTime := now\<rparr>) w) \<and>
    (\<forall>q \<in> set active. \<exists>ch. chans P q = Some ch \<and> ch_index ch = kAdded)"
proof -
  note P = view_pollers[OF L(1), of run]
  have "poller_ok (el_poller L)" using view_invD(4)[OF world_invD(1)[OF inv]] P by (simp add: poller_inv_def)
  from poll_safe[OF this L(2), of "[]"] obtain P' active where t: "EPollPoller_poll wait (el_poller L, []) = Inr (P', active)"
    "poller_ok P'" "same_but_revents (el_poller L) P'" "\<forall>q \<in> set active. \<exists>ch. chans P' q = Some ch \<and> ch_index ch = kAdded"
    by auto
  let ?f = "\<lambda>L. L\<lparr>el_poller := P', activeChannels := active, pollReturnTime := now\<rparr>"
  have view: "view_at run (upd_loop_at p ?f w) = (view_at run w)\<lparr>v_pollers := (v_pollers (view_at run w))(p \<mapsto> P')\<rparr>"
    using L(1) by (simp add: view_at_def get_loop_def fun_eq_iff)
  have "server_inv (upd_loop_at p ?f w)"
    by (rule server_inv_same[OF world_invD(2)[OF inv] _ same_server]) (use world_invD(3)[OF inv] in auto)
  moreover have "view_inv infra (view_at run (upd_loop_at p ?f w))"
    unfolding view by (rule view_poll[OF world_invD(1)[OF inv] P t(3,2)])
  ultimately have "world_inv infra run (upd_loop_at p ?f w)"
    using world_invD(7)[OF inv] view by (simp add: world_inv_def)
  then show ?thesis using t L(1) by (simp add: get_loop_def)
qed

text \<open>The end of a connection object that nobody holds.\<close>

lemma drop_inv:
  assumes inv: "world_inv infra run w" and c: "wconns w i = Some c" and pin: "\<not> pinned (view_at run w) i"
  shows "\<exists>w'. TcpConnection_delete i w = Inr w' \<and> world_inv infra run w'"
proof -
  let ?v = "view_at run w"
  note vinv = world_invD(1)[OF inv]
  obtain L where L: "wloops w (conn_loop c) = Some L" using conn_loop_exists[OF inv c] by blast
  note P = view_pollers[OF L, of run]
  have "bound c (el_poller L)" using conn_invD(4)[OF view_invD(1)[OF vinv], of i c] P c by simp
  then obtain ch where ch: "chans (el_poller L) (conn_channel c) = Some ch" by (auto simp: bound_def)
  let ?w = "w\<lparr>wconns := (wconns w)(i := None),
    wloops := (wloops w)(conn_loop c \<mapsto> Channel_delete (conn_channel c) L), open_fds := open_fds w - {sockfd c}\<rparr>"
  let ?P = "(el_poller L)\<lparr>chans := (chans (el_poller L))(conn_channel c := None)\<rparr>"
  have "view_at run ?w = ?v\<lparr>v_conns := (v_conns ?v)(i := None), v_pollers := (v_pollers ?v)(conn_loop c \<mapsto> ?P)\<rparr>"
    using L by (simp add: view_at_def Channel_delete_def fun_eq_iff)
  note view = this
  have "view_inv infra (view_at run ?w)"
    unfolding view by (rule view_drop[OF vinv _ P pin refl]) (use c in simp)
  moreover have "server_inv ?w"
  proof -
    have "i \<notin> snd ` set (connections (srv w))" using pinned_map[of i ?v] pin by auto
    then have "srv_ok ?w" using TcpConnection_delete_srv_ok[OF world_invD(3)[OF inv], of i ?w] c L ch
      by (simp add: TcpConnection_delete_Inr)
    moreover have "names_ok ?w" using world_invD(4)[OF inv] by (auto simp: names_ok_def)
    moreover have "loops_ok ?w" using world_invD(5)[OF inv] by (simp add: loops_ok_def)
    ultimately show ?thesis using world_invD(2)[OF inv] by (simp add: server_inv_def)
  qed
  moreover have "F_acceptorListen \<notin> set (v_queue (view_at run ?w) p)" for p
    using world_invD(7)[OF inv] unfolding view by simp
  ultimately have "world_inv infra run ?w" by (simp add: world_inv_def)
  with c L ch show ?thesis by (intro exI[of _ ?w]) (simp add: TcpConnection_delete_Inr)
qed

text \<open>\<open>world_inv\<close> does not look at the open descriptors.\<close>

lemma world_inv_fds [simp]: "world_inv infra run (w\<lparr>open_fds := F\<rparr>) = world_inv infra run w"
  by (simp add: world_inv_def server_inv_def view_at_def srv_ok_def names_ok_def loops_ok_def)

lemma view_at_fds [simp]: "view_at run (w\<lparr>open_fds := F\<rparr>) = view_at run w"
  by (simp add: view_at_def)

lemma act_world:
  assumes os: "env_ok os" and inv: "reactor_inv infra s" and en: "enabled infra a s"
  shows "safely (act os a s) (\<lambda>t. world_inv infra (running t) (rw t))"
proof -
  note winv = conjunct1[OF inv[unfolded reactor_inv_def]] and finv = conjunct2[OF inv[unfolded reactor_inv_def]]
  have lift: "safely (bindR m (\<lambda>w. Inr (s\<lparr>rw := w\<rparr>))) (\<lambda>t. world_inv infra (running t) (rw t))"
    if "safely m (world_inv infra (running s))" for m
    using that by simp
  show ?thesis
  proof (cases a)
    case (Accept tid answer obj cp gs)
    obtain fd peer where ans: "answer = (fd, peer)" by (cases answer)
    let ?w = "rw s\<lparr>open_fds := insert fd (open_fds (rw s))\<rparr>"
    have en': "in_thread (srv_loop (srv (rw s))) tid (rw s)" "accept_doc infra fd obj cp (rw s)"
      using en Accept ans by simp_all
    obtain L0 where L0: "wloops ?w (srv_loop (srv ?w)) = Some L0" "threadId L0 = tid"
      using in_threadD[OF en'(1)] by auto
    have "safely (TcpServer_newConnection os tid obj cp gs fd peer ?w) (world_inv infra (running s))" if "0 \<le> fd"
    proof -
      have "fd \<notin> infra" "fd \<notin> open_fds (rw s)" "wconns ?w obj = None" "fresh_ptr cp ?w" "nextConnId (srv ?w) < 2147483647"
        using en'(2) that by (simp_all add: accept_doc_def fresh_ptr_def)
      with newConnection_inv[OF os _ _ _ _ L0, of infra "running s"] fds_inv_fresh[OF finv] winv show ?thesis by simp
    qed
    then have "safely (TcpServer_acceptable os tid answer obj cp gs (rw s)) (world_inv infra (running s))"
      using winv world_invD(2)[OF winv] by (simp add: ans TcpServer_acceptable_cases server_inv_def)
    then show ?thesis unfolding Accept act.simps by (rule lift)
  next
    case (Swap p)
    then obtain L where "wloops (rw s) p = Some L" "running s p = []" using en by auto
    then have "world_inv infra ((running s)(p := pendingFunctors (get_loop p (rw s))))
        (upd_loop_at p (\<lambda>L. L\<lparr>callingPendingFunctors := True, pendingFunctors := []\<rparr>) (rw s))"
      by (intro loop_same_inv[OF winv]) (simp_all add: get_loop_def)
    then show ?thesis by (simp add: Swap)
  next
    case (RunTask p tid r)
    obtain L where L: "wloops (rw s) p = Some L" "tid = threadId L" using in_threadD[of p tid "rw s"] en RunTask by auto
    show ?thesis
    proof (cases "running s p")
      case Nil
      then show ?thesis using winv RunTask by simp
    next
      case (Cons F Q)
      with task_step_inv[OF os winv Cons L(1), of r] show ?thesis
        unfolding RunTask act.simps by (simp add: L(2))
    qed
  next
    case (FinishBatch p)
    then obtain L where "wloops (rw s) p = Some L" using en by auto
    then have "world_inv infra (running s) (upd_loop_at p (\<lambda>L. L\<lparr>callingPendingFunctors := False\<rparr>) (rw s))"
      by (intro loop_same_inv[OF winv]) simp_all
    then show ?thesis by (simp add: FinishBatch)
  next
    case (Poll p wait now)
    then obtain L where L: "wloops (rw s) p = Some L" "wait_doc wait (el_poller L)" using en by (auto split: option.splits)
    from poll_inv[OF winv L, of now] obtain P active where
      "EPollPoller_poll wait (el_poller (get_loop p (rw s)), []) = Inr (P, active)"
      "world_inv infra (running s)
        (upd_loop_at p (\<lambda>L. L\<lparr>el_poller := P, activeChannels := active, pollReturnTime := now\<rparr>) (rw s))"
      by blast
    then show ?thesis by (simp add: Poll)
  next
    case (Event tid i cb now)
    then obtain c L where c: "wconns (rw s) i = Some c" "wloops (rw s) (conn_loop c) = Some L" "tid = threadId L"
        "registered c (el_poller L)"
      using en by (auto simp: in_thread_def split: option.splits)
    from event_inv[OF os winv c(1,2,4)] show ?thesis unfolding Event act.simps c(3) by (rule lift)
  next
    case (Woken p)
    then obtain L where "wloops (rw s) p = Some L" using en by auto
    then have "world_inv infra (running s) (upd_loop_at p EventLoop_handleRead (rw s))"
      by (intro loop_same_inv[OF winv]) (simp_all add: EventLoop_handleRead_def)
    then show ?thesis by (simp add: Woken)
  next
    case (SendFrom tid i addr msg)
    then obtain c where c: "wconns (rw s) i = Some c" and str: "wstrings (rw s) addr = Some msg" "length msg \<le> vec_max"
      and tid: "\<not> in_thread (conn_loop c) tid (rw s)"
      using en by (auto split: option.splits)
    obtain L where L: "wloops (rw s) (conn_loop c) = Some L" using conn_loop_exists[OF winv c] by blast
    have "tid \<noteq> threadId L" using tid L by (auto simp: in_thread_def)
    with remote_send_effect[of "threadId L" "conn_in c L (rw s)" tid addr msg os] str
    have "safely (on_conn tid i (TcpConnection_send os tid addr msg) (rw s)) (world_inv infra (running s))"
      by (intro remote_inv[OF winv c L]) (simp_all add: TcpConnection_send_def)
    then show ?thesis unfolding SendFrom act.simps by (rule lift)
  next
    case (ShutdownFrom tid i)
    then obtain c where c: "wconns (rw s) i = Some c" and tid: "\<not> in_thread (conn_loop c) tid (rw s)"
      using en by (auto split: option.splits)
    obtain L where L: "wloops (rw s) (conn_loop c) = Some L" using conn_loop_exists[OF winv c] by blast
    have "tid \<noteq> threadId L" using tid L by (auto simp: in_thread_def)
    with remote_shutdown_effect[of "threadId L" "conn_in c L (rw s)" tid os]
    have "safely (on_conn tid i (TcpConnection_shutdown os tid) (rw s)) (world_inv infra (running s))"
      by (intro remote_inv[OF winv c L]) (simp_all add: TcpConnection_shutdown_def)
    then show ?thesis unfolding ShutdownFrom act.simps by (rule lift)
  next
    case (Drop i)
    then obtain c where "wconns (rw s) i = Some c" "\<not> pinned (view_at (running s) (rw s)) i" using en by auto
    from drop_inv[OF winv this] show ?thesis unfolding Drop act.simps by (intro lift safely_total)
  qed
qed

text \<open>The descriptors: only accepting and freeing touch them.\<close>

lemma act_fds:
  assumes inv: "fds_inv infra (rw s)" and en: "enabled infra a s"
  shows "ends (act os a s) (\<lambda>t. fds_inv infra (rw t))"
proof -
  have lift: "ends (bindR m (\<lambda>w. Inr (s\<lparr>rw := w\<rparr>))) (\<lambda>t. fds_inv infra (rw t))" if "ends m (same_sockets (rw s))" for m
    by (rule ends_seq[OF that]) (simp add: fds_inv_same[OF inv])
  have loop: "fds_inv infra (upd_loop_at p f (rw s))" for p f
    by (rule fds_inv_same[OF inv]) (simp add: same_sockets_def sock_of_def)
  have op: "ends (bindR (on_conn tid i f (rw s)) (\<lambda>w. Inr (s\<lparr>rw := w\<rparr>))) (\<lambda>t. fds_inv infra (rw t))"
    if "\<And>u. ends (f u) (keeps u)" for tid i f
    by (rule lift[OF sockets.on_conn_W[OF sockets.W_refl that]])
  show ?thesis
  proof (cases a)
    case (Accept tid answer obj cp gs)
    obtain fd peer where ans: "answer = (fd, peer)" by (cases answer)
    have doc: "accept_doc infra fd obj cp (rw s)" using en Accept ans by simp
    show ?thesis
    proof (cases "0 \<le> fd \<and> newConnectionCallback (srv_acceptor (srv (rw s)))")
      case True
      then have new: "fd \<notin> infra" "fd \<notin> open_fds (rw s)" "wconns (rw s) obj = None" using doc by (simp_all add: accept_doc_def)
      let ?w = "rw s\<lparr>open_fds := insert fd (open_fds (rw s))\<rparr>"
      have "ends (TcpServer_newConnection os tid obj cp gs fd peer ?w) (fds_inv infra)"
        by (rule ends_mono[OF newConnection_sockets], rule fds_inv_new[OF inv new]) (simp_all add: sock_of_def)
      with True show ?thesis by (simp add: Accept ans TcpServer_acceptable_cases ends_bind)
    next
      case False
      have "fds_inv infra (rw s\<lparr>open_fds := open_fds (rw s) - {fd}\<rparr>)" if "0 \<le> fd"
        using inv doc that by (auto simp: accept_doc_def fds_inv_def sock_of_def)
      with False inv show ?thesis by (auto simp: Accept ans TcpServer_acceptable_cases ends_bind)
    qed
  next
    case (RunTask p tid r)
    show ?thesis
    proof (cases "running s p")
      case (Cons F Q)
      then show ?thesis
        using ends_mono[OF world_functor_sockets fds_inv_same[OF inv]] by (simp add: RunTask ends_bind)
    qed (use inv RunTask in simp)
  next
    case (Drop i)
    have "ends (TcpConnection_delete i (rw s)) (fds_inv infra)"
      unfolding ends_def
      by (auto simp: TcpConnection_delete_Inr sock_of_def fun_eq_iff intro!: fds_inv_drop[OF inv] split: sum.split)
    then show ?thesis by (simp add: Drop ends_bind)
  next
    case (Poll p wait now)
    show ?thesis unfolding Poll act.simps by (rule ends_value) (auto intro: loop)
  next
    case (Event tid i cb now)
    show ?thesis unfolding Event act.simps by (rule op[OF kept.conn_invoke_R[OF keeps_refl]])
  next
    case (SendFrom tid i addr msg)
    show ?thesis unfolding SendFrom act.simps by (rule op[OF kept.TcpConnection_send_R[OF keeps_refl]])
  next
    case (ShutdownFrom tid i)
    show ?thesis unfolding ShutdownFrom act.simps by (rule op[OF kept.TcpConnection_shutdown_R[OF keeps_refl]])
  qed (use loop in simp_all)
qed

lemma act_inv:
  assumes "env_ok os" and "reactor_inv infra s" and "enabled infra a s"
  shows "safely (act os a s) (reactor_inv infra)"
  using safely_ends[OF act_world[OF assms] act_fds[OF _ assms(3)]] assms(2) by (simp add: reactor_inv_def[abs_def])

text \<open>The machine: a server that listens, with no connection and nothing to do.\<close>

definition idle_loop :: "fd set \<Rightarrow> bool \<Rightarrow> event_loop \<Rightarrow> bool" where
  "idle_loop infra base L \<longleftrightarrow> pendingFunctors L = [] \<and> poller_ok (el_poller L) \<and>
     (\<forall>g q. channelMap (el_poller L) g = Some q \<longrightarrow> g \<in> infra \<and> infra_chan base (el_poller L) q)"

definition server_idle :: "fd set \<Rightarrow> reactor \<Rightarrow> bool" where
  "server_idle infra s \<longleftrightarrow> running s = (\<lambda>_. []) \<and> wconns (rw s) = Map.empty \<and> connections (srv (rw s)) = [] \<and>
     open_fds (rw s) = {} \<and> loops_ok (rw s) \<and> callbacks_ok (srv (rw s)) \<and> newConnectionCallback (srv_acceptor (srv (rw s))) \<and>
     (\<forall>p L. wloops (rw s) p = Some L \<longrightarrow> idle_loop infra (p = srv_loop (srv (rw s))) L)"

inductive reactor_step :: "os \<Rightarrow> fd set \<Rightarrow> reactor \<Rightarrow> reactor \<Rightarrow> bool" for os :: os and infra :: "fd set" where
  acts: "enabled infra a s \<Longrightarrow> act os a s = Inr t \<Longrightarrow> reactor_step os infra s t"

inductive_cases reactor_stepE: "reactor_step os infra s t"

lemma server_idle_inv:
  assumes "server_idle infra s"
  shows "reactor_inv infra s"
proof -
  let ?v = "view_at (running s) (rw s)"
  note idle = assms[unfolded server_idle_def idle_loop_def]
  have queue: "v_queue ?v p = []" for p using idle by (auto simp: view_at_def split: option.split)
  have none: "v_conns ?v i = None" "v_map ?v = {}" for i using idle by simp_all
  have "poller_inv infra ?v"
    using idle unfolding poller_inv_def by (fastforce dest: poller_loop)
  with none queue have "view_inv infra ?v" by (simp add: view_inv_def task_inv_def apart_def)
  moreover have "server_inv (rw s)" using idle by (simp add: server_inv_def srv_ok_def names_ok_def)
  moreover have "fds_inv infra (rw s)" using idle by (simp add: fds_inv_def sock_of_def)
  ultimately show ?thesis using queue by (simp add: reactor_inv_def world_inv_def)
qed

interpretation serving: safe_machine "server_idle infra" "reactor_step os infra" "\<lambda>s. env_ok os \<longrightarrow> reactor_inv infra s" for infra os
proof
  show "env_ok os \<longrightarrow> reactor_inv infra s" if "server_idle infra s" for s using server_idle_inv[OF that] by simp
  show "env_ok os \<longrightarrow> reactor_inv infra t" if "env_ok os \<longrightarrow> reactor_inv infra s" "reactor_step os infra s t" for s t
  proof
    assume os: "env_ok os"
    from that(2) obtain a where a: "enabled infra a s" "act os a s = Inr t" by (rule reactor_stepE)
    have "reactor_inv infra s" using that(1) os by simp
    from act_inv[OF os this a(1)] a(2) show "reactor_inv infra t" by simp
  qed
qed

lemma reachable_inv: "env_ok os \<Longrightarrow> reach (server_idle infra) (reactor_step os infra) s \<Longrightarrow> reactor_inv infra s"
  using serving.reach_inv by blast

section \<open>What the invariant says\<close>

text \<open>The tasks that the loop at \<open>p\<close> has still to run.\<close>

definition tasks_of :: "reactor \<Rightarrow> ptr \<Rightarrow> Functor list" where
  "tasks_of s p = running s p @ (case wloops (rw s) p of None \<Rightarrow> [] | Some L \<Rightarrow> pendingFunctors L)"

text \<open>Who owns connection \<open>i\<close>: the server's map, or the task that will take it out of its loop.\<close>

definition in_map :: "reactor \<Rightarrow> nat \<Rightarrow> bool" where
  "in_map s i \<longleftrightarrow> i \<in> snd ` set (connections (srv (rw s)))"

definition watched_owned :: "fd set \<Rightarrow> reactor \<Rightarrow> bool" where
  "watched_owned infra s \<longleftrightarrow> (\<forall>p L fd ev q. wloops (rw s) p = Some L \<longrightarrow> watched (el_poller L) fd = Some (ev, q) \<longrightarrow>
     fd \<in> infra \<or> (\<exists>i c. wconns (rw s) i = Some c \<and> conn_loop c = p \<and> sockfd c = fd \<and> conn_channel c = q \<and>
       (in_map s i \<or> F_connectDestroyed i \<in> set (tasks_of s p))))"

definition raw_tasks_owned :: "reactor \<Rightarrow> bool" where
  "raw_tasks_owned s \<longleftrightarrow> (\<forall>p Q1 F Q2 i. tasks_of s p = Q1 @ F # Q2 \<longrightarrow> raw_this F \<longrightarrow> about i F \<longrightarrow>
     in_map s i \<or> F_connectDestroyed i \<in> set Q2)"

lemma tasks_view: "tasks_of s p = v_queue (view_at (running s) (rw s)) p"
  by (simp add: tasks_of_def view_at_def)

lemma reactor_watched_owned:
  assumes inv: "reactor_inv infra s"
  shows "watched_owned infra s"
  unfolding watched_owned_def
proof (intro allI impI)
  fix p L fd ev q
  assume L: "wloops (rw s) p = Some L" and q: "watched (el_poller L) fd = Some (ev, q)"
  note winv = conjunct1[OF inv[unfolded reactor_inv_def]]
  let ?v = "view_at (running s) (rw s)"
  note pinv = view_invD(4)[OF world_invD(1)[OF winv], unfolded poller_inv_def, rule_format, OF view_pollers[OF L]]
  have map: "channelMap (el_poller L) fd = Some q" using watched_mapped[OF conjunct1[OF pinv] q] .
  have "fd \<in> infra \<or> (\<exists>i c. wconns (rw s) i = Some c \<and> conn_loop c = p \<and> sockfd c = fd \<and> conn_channel c = q)"
    using conjunct2[OF pinv, rule_format, OF map] by (simp only: view_at_simps) blast
  then consider "fd \<in> infra" | i c where "wconns (rw s) i = Some c" "conn_loop c = p" "sockfd c = fd" "conn_channel c = q"
    by blast
  then show "fd \<in> infra \<or> (\<exists>i c. wconns (rw s) i = Some c \<and> conn_loop c = p \<and> sockfd c = fd \<and> conn_channel c = q \<and>
       (in_map s i \<or> F_connectDestroyed i \<in> set (tasks_of s p)))"
  proof cases
    case 2
    then have "registered c (el_poller L)" using map by (simp add: registered_def)
    with registered_held(1)[OF winv 2(1)] 2 L show ?thesis
      by (intro disjI2 exI[of _ i] exI[of _ c]) (simp add: in_map_def tasks_view)
  qed simp
qed

lemma reactor_raw_tasks_owned:
  assumes inv: "reactor_inv infra s"
  shows "raw_tasks_owned s"
  unfolding raw_tasks_owned_def
proof (intro allI impI)
  fix p Q1 F Q2 i
  assume Q: "tasks_of s p = Q1 @ F # Q2" and F: "raw_this F" "about i F"
  note winv = conjunct1[OF inv[unfolded reactor_inv_def]]
  let ?v = "view_at (running s) (rw s)"
  have "F \<in> set (v_queue ?v p)" and "F \<noteq> F_removeConnectionInLoop i" using Q F(1) by (auto simp: tasks_view)
  with task_invD[OF view_invD(3)[OF world_invD(1)[OF winv]] _ F(2)] obtain c where
    c: "wconns (rw s) i = Some c" "p = conn_loop c"
    unfolding task_at_def by auto
  obtain L where L: "wloops (rw s) (conn_loop c) = Some L" using conn_loop_exists[OF winv c(1)] by blast
  have "in_phase ?v i c (el_poller L)"
    using conn_invD(2)[OF view_invD(1)[OF world_invD(1)[OF winv]] view_pollers[OF L]] c by simp
  then have "i \<in> v_map ?v \<or> raw_covered i (Q1 @ F # Q2)"
    using Q c(2) unfolding in_phase_def phase_def by (simp add: tasks_view)
  with raw_covered_split F show "in_map s i \<or> F_connectDestroyed i \<in> set Q2" by (auto simp: in_map_def)
qed


section \<open>A batch of tasks in pieces\<close>

lemma upd_loop_at_twice: "upd_loop_at p f (upd_loop_at p g w) = upd_loop_at p (\<lambda>L. f (g L)) w"
  by (simp add: upd_loop_at_def get_loop_def)

lemma run_all_tasks:
  "running s p = Fs \<Longrightarrow> foldR (act os) (map (\<lambda>_. RunTask p tid r) Fs) s =
     bindR (foldR (world_functor os tid r) Fs (rw s)) (\<lambda>w. Inr (s\<lparr>rw := w, running := (running s)(p := [])\<rparr>))"
proof (induction Fs arbitrary: s)
  case Nil
  then show ?case by (simp add: fun_upd_idem)
next
  case (Cons F Fs)
  show ?case
  proof (cases "world_functor os tid r F (rw s)")
    case (Inr w)
    with Cons.IH[of "s\<lparr>rw := w, running := (running s)(p := Fs)\<rparr>"] Cons.prems show ?thesis
      by (simp cong: if_cong)
  qed (use Cons.prems in simp)
qed


lemma batch_in_pieces:
  assumes "running s p = []"
  shows "foldR (act os) (Swap p # map (\<lambda>_. RunTask p tid r) (pendingFunctors (get_loop p (rw s))) @ [FinishBatch p]) s =
    bindR (doPendingFunctors (get_loop p) (upd_loop_at p) (world_functor os tid r) (rw s)) (\<lambda>w. Inr (s\<lparr>rw := w\<rparr>))"
proof -
  let ?Fs = "pendingFunctors (get_loop p (rw s))"
  let ?w = "upd_loop_at p (\<lambda>L. L\<lparr>callingPendingFunctors := True, pendingFunctors := []\<rparr>) (rw s)"
  let ?s = "s\<lparr>rw := ?w, running := (running s)(p := ?Fs)\<rparr>"
  have swap: "act os (Swap p) s = Inr ?s" by simp
  have tasks: "foldR (act os) (map (\<lambda>_. RunTask p tid r) ?Fs) ?s =
      bindR (foldR (world_functor os tid r) ?Fs ?w) (\<lambda>w. Inr (s\<lparr>rw := w\<rparr>))"
    using run_all_tasks[of ?s p ?Fs os tid r] assms by (simp add: fun_upd_idem)
  have "doPendingFunctors (get_loop p) (upd_loop_at p) (world_functor os tid r) (rw s) =
      bindR (foldR (world_functor os tid r) ?Fs ?w) (\<lambda>w. Inr (upd_loop_at p (\<lambda>L. L\<lparr>callingPendingFunctors := False\<rparr>) w))"
    by (simp add: doPendingFunctors_def Let_def upd_loop_at_twice)
  then show ?thesis
    unfolding foldR.simps swap bindR.simps foldR_append tasks by (simp add: bindR_assoc)
qed

section \<open>Properties\<close>

definition sample_serving :: reactor where
  "sample_serving = \<lparr>rw = sample_world, running = (\<lambda>_. [])\<rparr>"

definition sample_served :: reactor where
  "sample_served = \<lparr>rw = (case TcpServer_acceptable sample_os 100 (12, zero_addr) 50 70 None sample_world of Inr w \<Rightarrow> w),
     running = (\<lambda>_. [])\<rparr>"

abbreviation sample_accept :: action where
  "sample_accept \<equiv> Accept 100 (12, zero_addr) 50 70 None"

lemma sample_serving_reach: "reach (server_idle {4, 6}) (reactor_step os {4, 6}) sample_serving"
  by (rule reach_init)
    (auto simp: server_idle_def idle_loop_def sample_serving_def sample_world_def loops_ok_def callbacks_ok_def pool_ok_def
      loop_in_turn_def sample_acceptor_def sample_loop_def poller_ok_def)

lemma sample_accept_enabled: "enabled {4, 6} sample_accept sample_serving"
  by (auto simp: sample_serving_def sample_world_def in_thread_def accept_doc_def fresh_ptr_def fresh_fd_def split: if_splits)

lemma sample_accept_result:
  "act sample_os sample_accept sample_serving = Inr sample_served"
  "in_map sample_served 50" "tasks_of sample_served 2 = [F_connectEstablished 50]"
  "\<exists>c L. wconns (rw sample_served) 50 = Some c \<and> wloops (rw sample_served) (conn_loop c) = Some L"
proof -
  let ?w = "sample_world\<lparr>open_fds := {12}\<rparr>"
  have "wloops ?w (srv_loop (srv ?w)) = Some sample_loop" "threadId sample_loop = 100"
    "pool_ok (threadPool (srv ?w))" "nextConnId (srv ?w) < 2147483647"
    "wloops ?w (loop_in_turn 0 (threadPool (srv ?w))) = Some (sample_loop\<lparr>threadId := 101\<rparr>)"
    "threadId (sample_loop\<lparr>threadId := 101\<rparr>) \<noteq> 100" "srv_ok ?w" "loop_in_turn 0 (threadPool (srv ?w)) = 2"
    by (simp_all add: sample_world_def pool_ok_def loop_in_turn_def srv_ok_def)
  from newConnection_elsewhere[OF this(1-7), of sample_os 50 70 None 12 zero_addr] this(8) obtain w' c L' where
    w': "TcpServer_newConnection sample_os 100 50 70 None 12 zero_addr ?w = Inr w'"
    "connections (srv w') = connections (srv ?w) @ [(conn_name_of (srv ?w), 50)]" "wconns w' = (wconns ?w)(50 \<mapsto> c)"
    "conn_loop c = 2" "wloops w' 2 = Some L'" "pendingFunctors L' = [F_connectEstablished 50]"
    by auto
  have "newConnectionCallback (srv_acceptor (srv sample_world))" "open_fds sample_world = {}"
    by (simp_all add: sample_world_def sample_acceptor_def)
  with w'(1) have ran: "TcpServer_acceptable sample_os 100 (12, zero_addr) 50 70 None sample_world = Inr w'"
    by (simp add: TcpServer_acceptable_cases)
  then have acc: "rw sample_served = w'" by (simp add: sample_served_def)
  with ran show "act sample_os sample_accept sample_serving = Inr sample_served"
    by (simp add: sample_serving_def sample_served_def)
  show "in_map sample_served 50" "tasks_of sample_served 2 = [F_connectEstablished 50]"
    "\<exists>c L. wconns (rw sample_served) 50 = Some c \<and> wloops (rw sample_served) (conn_loop c) = Some L"
    using w' acc by (simp_all add: in_map_def tasks_of_def) (simp_all add: sample_served_def)
qed

lemma sample_served_reach: "reach (server_idle {4, 6}) (reactor_step sample_os {4, 6}) sample_served"
  using reach_step[OF sample_serving_reach acts[OF sample_accept_enabled sample_accept_result(1)]] .







text \<open>The actions are the code's own turn taken apart: swapping the queue out, running the swapped
  tasks one by one and finishing the batch, with nothing in between, is doPendingFunctors of that
  loop on the whole server, failures included.\<close>

theorem batch_is_doPendingFunctors:
  assumes "running s p = []"
  shows "foldR (act os) (Swap p # map (\<lambda>_. RunTask p tid r) (pendingFunctors (get_loop p (rw s))) @ [FinishBatch p]) s =
    bindR (doPendingFunctors (get_loop p) (upd_loop_at p) (world_functor os tid r) (rw s)) (\<lambda>w. Inr (s\<lparr>rw := w\<rparr>))"
  using assms by (rule batch_in_pieces)

theorem batch_is_doPendingFunctors_witness:
  "foldR (act sample_os) [Swap 2, RunTask 2 101 0, FinishBatch 2] sample_served =
    bindR (doPendingFunctors (get_loop 2) (upd_loop_at 2) (world_functor sample_os 101 0) (rw sample_served))
      (\<lambda>w. Inr (sample_served\<lparr>rw := w\<rparr>))"
proof -
  have "running sample_served 2 = []" by (simp add: sample_served_def)
  moreover have "pendingFunctors (get_loop 2 (rw sample_served)) = [F_connectEstablished 50]"
    using sample_accept_result(3) by (auto simp: tasks_of_def get_loop_def sample_served_def split: option.splits)
  ultimately show ?thesis using batch_is_doPendingFunctors[of sample_served 2 sample_os 101 0] by simp
qed

end
