(* ===== verification/ServerLoop.thy ===== *)
theory ServerLoop
  imports Server
begin

text \<open>
  The loop of the running server: what \<open>handleEvent\<close> of a channel calls, and a whole turn of
  \<open>EventLoop::loop\<close> over the server - \<open>poll\<close>, the callbacks of the channels it reports, the
  queued tasks. A turn is made of the actions of \<open>Server\<close>: the channels that \<open>poll\<close> has put into
  \<open>activeChannels_\<close> are still the poller's when their turn comes, whatever the callbacks of the
  others have done.
\<close>

section \<open>What an event calls\<close>

text \<open>
  \<open>handleEvent\<close> of the channel at \<open>q\<close> in the loop at \<open>p\<close>. \<open>accepting w\<close> is what the system gives
  when the listening socket is readable in \<open>w\<close>: the answer of \<open>accept4\<close>, the addresses of the new
  objects and the local address; \<open>alive w i\<close> tells whether a \<open>shared_ptr\<close> to connection \<open>i\<close> exists.
\<close>

type_synonym accepting = "world \<Rightarrow> (int \<times> sockaddr_in) \<times> nat \<times> ptr \<times> sockaddr_in option"

fun conn_of :: "callback \<Rightarrow> nat option" where
  "conn_of (ConnHandleRead i) = Some i"
| "conn_of (ConnHandleWrite i) = Some i"
| "conn_of (ConnHandleClose i) = Some i"
| "conn_of (ConnHandleError i) = Some i"
| "conn_of _ = None"

definition server_invoke :: "os \<Rightarrow> int \<Rightarrow> accepting \<Rightarrow> ptr \<Rightarrow> callback \<Rightarrow> timestamp \<Rightarrow> world \<Rightarrow> world res" where
  "server_invoke os tid accepting p cb now w =
     (case conn_of cb of
        Some i \<Rightarrow> on_conn tid i (conn_invoke os tid cb now) w
      | None \<Rightarrow>
          if cb = AcceptorHandleRead
          then (case accepting w of (answer, obj, cp, gs) \<Rightarrow> TcpServer_acceptable os tid answer obj cp gs w)
          else Inr (upd_loop_at p EventLoop_handleRead w))"

definition server_handle ::
    "os \<Rightarrow> int \<Rightarrow> (world \<Rightarrow> nat \<Rightarrow> bool) \<Rightarrow> accepting \<Rightarrow> ptr \<Rightarrow> ptr \<Rightarrow> timestamp \<Rightarrow> world \<Rightarrow> world res" where
  "server_handle os tid alive accepting p q now w =
     bindR (loop_at p w) (\<lambda>L.
     bindR (deref q (el_poller L)) (\<lambda>ch.
       Channel_handleEvent (alive w) (server_invoke os tid accepting p) ch now w))"

text \<open>Whose callback it is: the loop's, the acceptor's, or that of the connection with this channel.\<close>

definition belongs :: "ptr \<Rightarrow> ptr \<Rightarrow> callback \<Rightarrow> world \<Rightarrow> bool" where
  "belongs p q cb w \<longleftrightarrow> cb = LoopHandleRead \<or> cb = AcceptorHandleRead \<and> p = srv_loop (srv w) \<or>
     (\<exists>i. conn_of cb = Some i \<and> conn_place w i = Some (p, q))"

lemma belongs_places: "belongs p q cb w \<Longrightarrow> same_places w w' \<Longrightarrow> belongs p q cb w'"
  using conn_place_Some unfolding belongs_def same_places_def by metis

lemma due_callbacks:
  "cb \<in> set (due ch) \<Longrightarrow> cb \<in> Option.set_option (readCallback ch) \<union> Option.set_option (writeCallback ch) \<union>
     Option.set_option (closeCallback ch) \<union> Option.set_option (errorCallback ch)"
  by (auto simp: due_def List.map_filter_def split: if_splits option.splits)

text \<open>A listed channel is the loop's own or a connection's, and it calls back its owner.\<close>

lemma listed_owner:
  assumes inv: "world_inv infra run w" and L: "wloops w p = Some L" and q: "listed q (el_poller L)"
  obtains "infra_chan (p = srv_loop (srv w)) (el_poller L) q"
  | i c where "wconns w i = Some c" "conn_loop c = p" "conn_channel c = q" "registered c (el_poller L)" "bound c (el_poller L)"
      "conn_id c = i"
proof -
  let ?v = "view_at run w"
  note vinv = world_invD(1)[OF inv] and P = view_pollers[OF L, of run]
  obtain ch where ch: "chans (el_poller L) q = Some ch" "ch_index ch \<noteq> kNew"
    using q by (auto simp: listed_def split: option.splits)
  note pinv = view_invD(4)[OF vinv, unfolded poller_inv_def, rule_format, OF P]
  have "channelMap (el_poller L) (ch_fd ch) = Some q"
    using poller_okD(1)[OF conjunct1[OF pinv] ch(1)] ch(2) by (auto simp: chan_ok_def)
  note map = this
  have "infra_chan (p = srv_loop (srv w)) (el_poller L) q \<or>
      (\<exists>i c. wconns w i = Some c \<and> conn_loop c = p \<and> sockfd c = ch_fd ch \<and> conn_channel c = q)"
    using conjunct2[OF pinv, rule_format, OF map] by (simp only: view_at_simps) blast
  then show thesis
  proof
    assume "\<exists>i c. wconns w i = Some c \<and> conn_loop c = p \<and> sockfd c = ch_fd ch \<and> conn_channel c = q"
    then obtain i c where c: "wconns w i = Some c" "conn_loop c = p" "sockfd c = ch_fd ch" "conn_channel c = q" by blast
    have "conn_inv ?v i c" using view_invD(1)[OF vinv] c(1) by simp
    from conn_invD[OF this, of "el_poller L"] P c(2) have "conn_id c = i" "bound c (el_poller L)" by simp_all
    with c map that(2) show thesis by (simp add: registered_def)
  qed (rule that(1))
qed

lemma listed_due:
  assumes "world_inv infra run w" and L: "wloops w p = Some L" and "listed q (el_poller L)"
    and ch: "chans (el_poller L) q = Some ch" "cb \<in> set (due ch)"
  shows "belongs p q cb w"
  using assms(1-3)
proof (cases rule: listed_owner)
  case 1
  with due_callbacks[OF ch(2)] ch(1) show ?thesis by (auto simp: infra_chan_def callbacks_of_def belongs_def)
next
  case (2 i c)
  then have "conn_place w i = Some (p, q)" by (simp add: conn_place_def)
  moreover have "conn_of cb = Some i"
    using due_callbacks[OF ch(2)] ch(1) 2 by (auto simp: bound_def callbacks_of_def)
  ultimately show ?thesis by (simp add: belongs_def)
qed

lemma listed_registered:
  assumes inv: "world_inv infra run w" and "conn_place w i = Some (p, q)" and L: "wloops w p = Some L"
    and q: "listed q (el_poller L)"
  shows "\<exists>c. wconns w i = Some c \<and> conn_loop c = p \<and> registered c (el_poller L)"
proof -
  obtain c where c: "wconns w i = Some c" "conn_loop c = p" "conn_channel c = q"
    using assms(2) by (auto simp: conn_place_def)
  note vinv = world_invD(1)[OF inv] and P = view_pollers[OF L, of run]
  have b: "bound c (el_poller L)" using conn_invD(4)[OF view_invD(1)[OF vinv], of i c] P c by simp
  from inv L q show ?thesis
  proof (cases rule: listed_owner)
    case 1
    with infra_not_bound[OF _ b] c(3) show ?thesis by blast
  next
    case (2 j d)
    have "j = i" using apartD(1)[OF view_invD(5)[OF vinv], of j i d c] 2(1,3) c(1,3) by auto
    with 2 c show ?thesis by auto
  qed
qed

section \<open>A turn is made of actions\<close>

definition served :: "os \<Rightarrow> fd set \<Rightarrow> reactor \<Rightarrow> bool" where
  "served os infra s \<longleftrightarrow> reach (server_idle infra) (reactor_step os infra) s"

lemma act_served:
  assumes "env_ok os" and "served os infra s" and "enabled infra a s"
  shows "safely (act os a s) (served os infra)"
proof (cases "act os a s")
  case (Inl e)
  with act_inv[OF assms(1) reachable_inv[OF assms(1)] assms(3)] assms(2) show ?thesis by (simp add: served_def)
next
  case (Inr t)
  have "served os infra t"
    using assms(2) acts[OF assms(3) Inr] unfolding served_def by (rule reach_step)
  with Inr show ?thesis by simp
qed

lemma act_served_world:
  assumes "env_ok os" and "served os infra (s\<lparr>rw := w\<rparr>)" and "enabled infra a (s\<lparr>rw := w\<rparr>)"
    and "act os a (s\<lparr>rw := w\<rparr>) = bindR m (\<lambda>w. Inr (s\<lparr>rw := w\<rparr>))"
  shows "safely m (\<lambda>w. served os infra (s\<lparr>rw := w\<rparr>))"
  using act_served[OF assms(1-3)] unfolding assms(4) by simp

lemma served_inv: "env_ok os \<Longrightarrow> served os infra s \<Longrightarrow> world_inv infra (running s) (rw s)"
  using reachable_inv by (simp add: served_def reactor_inv_def)

text \<open>What the system answers to \<open>accept4\<close>, whenever it is asked.\<close>

definition accepting_doc :: "fd set \<Rightarrow> accepting \<Rightarrow> bool" where
  "accepting_doc infra accepting \<longleftrightarrow>
     (\<forall>w. case accepting w of (answer, obj, cp, gs) \<Rightarrow> accept_doc infra (fst answer) obj cp w)"

lemma invoke_served:
  assumes os: "env_ok os" and s: "served os infra (s\<lparr>rw := w\<rparr>)"
    and acc: "case accepting w of (answer, obj, cp, gs) \<Rightarrow> accept_doc infra (fst answer) obj cp w"
    and p: "in_thread p tid w" and cb: "belongs p q cb w" and q: "listed_in p q w"
  shows "safely (server_invoke os tid accepting p cb now w) (\<lambda>w'. served os infra (s\<lparr>rw := w'\<rparr>) \<and> all_listed w w')"
proof -
  note act = act_served_world[OF os s]
  obtain L where L: "wloops w p = Some L" using p by (auto simp: in_thread_def split: option.splits)
  show ?thesis
  proof (cases "conn_of cb")
    case (Some i)
    then have i: "conn_place w i = Some (p, q)" using cb by (auto simp: belongs_def)
    have "world_inv infra (running s) w"
      using served_inv[OF os s] by simp
    from listed_registered[OF this i L] q L have "enabled infra (Event tid i cb now) (s\<lparr>rw := w\<rparr>)"
      using p by (auto simp: listed_in_def)
    from act[OF this] have "safely (on_conn tid i (conn_invoke os tid cb now) w) (\<lambda>w. served os infra (s\<lparr>rw := w\<rparr>))" by simp
    moreover have "ends (on_conn tid i (conn_invoke os tid cb now) w) (all_listed w)"
      by (rule listing.on_conn_W[where f = "conn_invoke os tid cb now", OF listing.W_refl known.conn_invoke_R[OF known.R_refl]])
    ultimately show ?thesis using Some by (simp add: server_invoke_def safely_ends)
  next
    case None
    show ?thesis
    proof (cases "cb = AcceptorHandleRead")
      case True
      obtain fd peer obj cp gs where a: "accepting w = ((fd, peer), obj, cp, gs)" by (metis surj_pair)
      have doc: "accept_doc infra fd obj cp w"
        using acc a by simp
      let ?m = "TcpServer_acceptable os tid (fd, peer) obj cp gs w"
      have "p = srv_loop (srv w)" using cb True by (simp add: belongs_def)
      then have "enabled infra (Accept tid (fd, peer) obj cp gs) (s\<lparr>rw := w\<rparr>)" using p doc by simp
      from act[OF this] have "safely ?m (\<lambda>w. served os infra (s\<lparr>rw := w\<rparr>))" by simp
      moreover have "ends ?m (all_listed w)" using doc by (intro acceptable_listed) (auto simp: accept_doc_def)
      ultimately show ?thesis using True a by (simp add: server_invoke_def safely_ends)
    next
      case False
      have "enabled infra (Woken p) (s\<lparr>rw := w\<rparr>)" using L by simp
      from act[OF this, of "Inr (upd_loop_at p EventLoop_handleRead w)"]
      have "served os infra (s\<lparr>rw := upd_loop_at p EventLoop_handleRead w\<rparr>)" by simp
      moreover have "all_listed w (upd_loop_at p EventLoop_handleRead w)"
        using L by (simp add: all_listed_def same_places_def conn_place_def listed_in_def get_loop_def EventLoop_handleRead_def)
      ultimately show ?thesis using None False by (simp add: server_invoke_def)
    qed
  qed
qed

lemma handle_served:
  assumes os: "env_ok os" and s: "served os infra (s\<lparr>rw := w\<rparr>)" and acc: "accepting_doc infra accepting"
    and p: "in_thread p tid w" and q: "listed_in p q w"
  shows "safely (server_handle os tid alive accepting p q now w) (\<lambda>w'. served os infra (s\<lparr>rw := w'\<rparr>) \<and> all_listed w w')"
proof -
  obtain L ch where L: "wloops w p = Some L" "listed q (el_poller L)" "chans (el_poller L) q = Some ch"
    using q by (auto simp: listed_in_def listed_def split: option.splits)
  have inv: "world_inv infra (running s) w"
    using served_inv[OF os s] by simp
  let ?P = "\<lambda>w'. served os infra (s\<lparr>rw := w'\<rparr>) \<and> all_listed w w'"
  have "safely (foldR (\<lambda>cb. server_invoke os tid accepting p cb now) (due ch) w) ?P"
  proof (rule safely_foldR)
    show "?P w" using s by (simp add: listing.W_refl)
    show "safely (server_invoke os tid accepting p cb now w') ?P" if "cb \<in> set (due ch)" "?P w'" for cb w'
    proof -
      have w': "same_places w w'" "listed_in p q w'" using that(2) q by (simp_all add: all_listed_def)
      have "belongs p q cb w'" using belongs_places[OF listed_due[OF inv L that(1)] w'(1)] .
      from invoke_served[where accepting = accepting, OF os conjunct1[OF that(2)] acc[unfolded accepting_doc_def, THEN spec] same_places_thread[OF w'(1) p] this w'(2)]
      show ?thesis by (rule safely_mono) (use that(2) listing.W_trans in blast)
    qed
  qed
  then have "safely (handleEventWithGuard (server_invoke os tid accepting p) ch now w) ?P"
    by (simp add: handleEventWithGuard_due)
  with s L show ?thesis
    by (simp add: server_handle_def loop_at_Some Channel_handleEvent_def listing.W_refl split: option.split)
qed

lemma channels_served:
  assumes os: "env_ok os" and s: "served os infra (s\<lparr>rw := w\<rparr>)" and acc: "accepting_doc infra accepting"
    and p: "in_thread p tid w" and q: "\<forall>q \<in> set qs. listed_in p q w"
  shows "safely (foldR (\<lambda>q. server_handle os tid alive accepting p q now) qs w) (\<lambda>w'. served os infra (s\<lparr>rw := w'\<rparr>) \<and> all_listed w w')"
proof (rule safely_foldR)
  show "served os infra (s\<lparr>rw := w\<rparr>) \<and> all_listed w w" using s by (simp add: listing.W_refl)
  fix q w'
  assume q': "q \<in> set qs" and w': "served os infra (s\<lparr>rw := w'\<rparr>) \<and> all_listed w w'"
  then have "in_thread p tid w'" "listed_in p q w'"
    using q same_places_thread[OF _ p] by (auto simp: all_listed_def)
  from handle_served[OF os conjunct1[OF w'] acc this]
  show "safely (server_handle os tid alive accepting p q now w') (\<lambda>w'. served os infra (s\<lparr>rw := w'\<rparr>) \<and> all_listed w w')"
    by (rule safely_mono) (use w' listing.W_trans in blast)
qed

lemma tasks_served:
  assumes os: "env_ok os" and s: "served os infra s" and run: "running s p = []" and p: "in_thread p tid (rw s)"
  shows "safely (doPendingFunctors (get_loop p) (upd_loop_at p) (world_functor os tid r) (rw s)) (\<lambda>w. served os infra (s\<lparr>rw := w\<rparr>))"
proof -
  let ?as = "map (\<lambda>_. RunTask p tid r) (pendingFunctors (get_loop p (rw s))) @ [FinishBatch p]"
  let ?P = "\<lambda>t. served os infra t \<and> in_thread p tid (rw t)"
  have loop: "wloops w p \<noteq> None" if "in_thread p tid w" for w using that by (auto simp: in_thread_def split: option.splits)
  have step: "safely (act os a t) ?P" if a: "a \<in> {Swap p, RunTask p tid r, FinishBatch p}" "enabled infra a t" "?P t" for a t
  proof -
    have upd: "in_thread p tid (upd_loop_at p f (rw t))" if "\<And>L. threadId (f L) = threadId L" for f
      using \<open>?P t\<close> that by (auto simp: in_thread_def get_loop_def split: option.splits)
    have "ends (act os a t) (\<lambda>t. in_thread p tid (rw t))"
    proof (cases "a = RunTask p tid r")
      case True
      have "ends (world_functor os tid r F (rw t)) (in_thread p tid)" for F
        by (rule ends_mono[OF world_functor_places]) (use a(3) same_places_thread in blast)
      with True a(3) show ?thesis by (auto simp: ends_bind split: list.split)
    next
      case False
      with a(1) show ?thesis by (auto intro!: upd)
    qed
    then show ?thesis using act_served[OF os _ a(2)] a(3) by (simp add: safely_ends)
  qed
  have "safely (foldR (act os) (Swap p # ?as) s) ?P"
  proof -
    have "safely (act os (Swap p) s) ?P" using step[of "Swap p" s] s p run loop by simp
    then show ?thesis
      by (simp only: foldR.simps safely_bind)
        (erule safely_mono, rule safely_foldR, assumption, rule step, auto dest: loop)
  qed
  then show ?thesis
    unfolding batch_in_pieces[OF run] safely_bind by (rule safely_mono) simp
qed

section \<open>Properties\<close>


definition sample_accepting :: accepting where
  "sample_accepting w = (if accept_doc {4, 6} 13 51 71 w then ((13, zero_addr), 51, 71, None) else ((- 1, zero_addr), 0, 0, None))"

lemma sample_accepting_doc: "accepting_doc {4, 6} sample_accepting"
  by (simp add: accepting_doc_def sample_accepting_def) (simp add: accept_doc_def)


text \<open>
  The store of a server as a typed heap: every pointer leads to an object of the right kind, and
  the objects agree on who belongs to whom.
\<close>

definition conn_callbacks :: "nat \<Rightarrow> callback option \<times> callback option \<times> callback option \<times> callback option" where
  "conn_callbacks i = (Some (ConnHandleRead i), Some (ConnHandleWrite i), Some (ConnHandleClose i), Some (ConnHandleError i))"

definition conn_typed :: "reactor \<Rightarrow> nat \<Rightarrow> tcp_conn \<Rightarrow> bool" where
  "conn_typed s i c \<longleftrightarrow> conn_id c = i \<and>
     (case wloops (rw s) (conn_loop c) of None \<Rightarrow> False
      | Some L \<Rightarrow> map_option callbacks_of (chans (el_poller L) (conn_channel c)) = Some (conn_callbacks i))"

definition channel_typed :: "fd set \<Rightarrow> reactor \<Rightarrow> ptr \<Rightarrow> fd \<Rightarrow> ptr \<Rightarrow> channel \<Rightarrow> bool" where
  "channel_typed infra s p fd q ch \<longleftrightarrow> ch_fd ch = fd \<and>
     (fd \<in> infra \<and> callbacks_of ch = (Some LoopHandleRead, None, None, None) \<or>
      fd \<in> infra \<and> p = srv_loop (srv (rw s)) \<and> callbacks_of ch = (Some AcceptorHandleRead, None, None, None) \<or>
      (\<exists>i c. wconns (rw s) i = Some c \<and> conn_loop c = p \<and> sockfd c = fd \<and> conn_channel c = q \<and>
         callbacks_of ch = conn_callbacks i))"

definition heap_typed :: "fd set \<Rightarrow> reactor \<Rightarrow> bool" where
  "heap_typed infra s \<longleftrightarrow>
     (\<forall>i c. wconns (rw s) i = Some c \<longrightarrow> conn_typed s i c) \<and>
     (\<forall>p L fd q. wloops (rw s) p = Some L \<longrightarrow> channelMap (el_poller L) fd = Some q \<longrightarrow>
        (case chans (el_poller L) q of None \<Rightarrow> False | Some ch \<Rightarrow> channel_typed infra s p fd q ch)) \<and>
     (\<forall>p F i. F \<in> set (tasks_of s p) \<longrightarrow> about i F \<longrightarrow>
        (\<exists>c. wconns (rw s) i = Some c \<and> p = (if F = F_removeConnectionInLoop i then srv_loop (srv (rw s)) else conn_loop c))) \<and>
     (\<forall>i. in_map s i \<longrightarrow> wconns (rw s) i \<noteq> None)"

lemma reactor_heap_typed:
  assumes inv: "reactor_inv infra s"
  shows "heap_typed infra s"
proof -
  note winv = conjunct1[OF inv[unfolded reactor_inv_def]]
  let ?v = "view_at (running s) (rw s)"
  note D = view_invD[OF world_invD(1)[OF winv]]
  have conn: "conn_typed s i c" if c: "wconns (rw s) i = Some c" for i c
  proof -
    obtain L where L: "wloops (rw s) (conn_loop c) = Some L" using conn_loop_exists[OF winv c] by blast
    have I: "conn_inv ?v i c" using D(1) c by simp
    show ?thesis
      using conn_invD(1,4)[OF I view_pollers[OF L]] L by (simp add: conn_typed_def conn_callbacks_def bound_def)
  qed
  have "case chans (el_poller L) q of None \<Rightarrow> False | Some ch \<Rightarrow> channel_typed infra s p fd q ch"
    if L: "wloops (rw s) p = Some L" and q: "channelMap (el_poller L) fd = Some q" for p L fd q
  proof -
    note pinv = D(4)[unfolded poller_inv_def, rule_format, OF view_pollers[OF L]]
    obtain ch where ch: "chans (el_poller L) q = Some ch" "ch_fd ch = fd" using poller_okD(2)[OF conjunct1[OF pinv] q] by blast
    have "fd \<in> infra \<and> infra_chan (p = srv_loop (srv (rw s))) (el_poller L) q \<or>
        (\<exists>i c. wconns (rw s) i = Some c \<and> conn_loop c = p \<and> sockfd c = fd \<and> conn_channel c = q)"
      using conjunct2[OF pinv, rule_format, OF q] by (simp only: view_at_simps)
    then have "channel_typed infra s p fd q ch"
    proof
      assume "\<exists>i c. wconns (rw s) i = Some c \<and> conn_loop c = p \<and> sockfd c = fd \<and> conn_channel c = q"
      then obtain i c where c: "wconns (rw s) i = Some c" "conn_loop c = p" "sockfd c = fd" "conn_channel c = q" by blast
      with conn[OF c(1)] L ch(1) have "callbacks_of ch = conn_callbacks i" by (simp add: conn_typed_def)
      with c ch(2) show ?thesis unfolding channel_typed_def by blast
    qed (use ch in \<open>auto simp: channel_typed_def infra_chan_def\<close>)
    with ch(1) show ?thesis by simp
  qed
  moreover have "\<exists>c. wconns (rw s) i = Some c \<and> p = (if F = F_removeConnectionInLoop i then srv_loop (srv (rw s)) else conn_loop c)"
    if "F \<in> set (tasks_of s p)" "about i F" for p F i
    using task_invD[OF D(3), of F p i] that unfolding task_at_def tasks_view by (simp only: view_at_simps)
  moreover have "wconns (rw s) i \<noteq> None" if "in_map s i" for i using D(2)[of i] that by (simp add: in_map_def)
  ultimately show ?thesis using conn unfolding heap_typed_def by blast
qed



definition sockets_exact :: "reactor \<Rightarrow> bool" where
  "sockets_exact s \<longleftrightarrow> open_fds (rw s) = {fd. \<exists>i c. wconns (rw s) i = Some c \<and> sockfd c = fd} \<and>
     (\<forall>i j c d. wconns (rw s) i = Some c \<longrightarrow> wconns (rw s) j = Some d \<longrightarrow> sockfd c = sockfd d \<longrightarrow> i = j)"

text \<open>C9: No descriptor leaks and none is closed under a connection: in every reachable state of a running
  server the open descriptors that accept4 returned are exactly the sockets of the connection
  objects that exist, one for each, and none of them is a wake-up or listening descriptor.\<close>

theorem server_descriptors_exact:
  assumes "env_ok os" and "reach (server_idle infra) (reactor_step os infra) s"
  shows "sockets_exact s \<and> infra \<inter> open_fds (rw s) = {}"
proof -
  have inv: "fds_inv infra (rw s)" using reachable_inv[OF assms] by (simp add: reactor_inv_def)
  then have "inj_on (sock_of (rw s)) (dom (sock_of (rw s)))" by (simp add: fds_inv_def)
  then have "i = j" if "wconns (rw s) i = Some c" "wconns (rw s) j = Some d" "sockfd c = sockfd d" for i j c d
    by (rule inj_onD) (use that in \<open>auto simp: sock_of_def\<close>)
  moreover have "ran (sock_of (rw s)) = {fd. \<exists>i c. wconns (rw s) i = Some c \<and> sockfd c = fd}"
    by (auto simp: ran_def sock_of_def)
  ultimately show ?thesis using inv unfolding fds_inv_def sockets_exact_def by simp blast
qed

theorem server_descriptors_exact_witness:
  "(\<exists>c. wconns (rw sample_served) 50 = Some c) \<and> sockets_exact sample_served"
  using server_descriptors_exact[OF sample_env sample_served_reach] sample_accept_result(4) by blast

end
