(* ===== verification/ServerRun.thy ===== *)
theory ServerRun
  imports ServerLoop
begin

text \<open>
  The loops of the server, interleaved: every loop thread goes through its turns - \<open>poll\<close>, the
  channels of \<open>activeChannels_\<close> one after the other, the callbacks due on each, the batch of
  tasks - and between any two of these steps the other loops, the other threads and the end of
  connections may come. The machine of \<open>Server\<close> is its specification: each step of a loop is one of
  the actions there, or none, and a channel that was reported or a callback that is due stays good
  until its turn comes.
\<close>

section \<open>Steps of a loop\<close>

datatype position = InPoll | InHandlers | InTasks

text \<open>
  \<open>due_chans p\<close> is what the loop at \<open>p\<close> has still to visit of \<open>activeChannels_\<close>, \<open>due_calls p\<close> what
  \<open>handleEvent\<close> of the current channel has still to call.
\<close>

record loops_run =
  core :: reactor
  position_of :: "ptr \<Rightarrow> position"
  due_chans :: "ptr \<Rightarrow> ptr list"
  due_calls :: "ptr \<Rightarrow> (ptr \<times> callback) list"

datatype move =
    PollFor ptr "nat \<Rightarrow> (32 word \<times> ptr) list sys" timestamp
  | HandleEvent ptr "nat \<Rightarrow> bool"
  | Call ptr int "(int \<times> sockaddr_in) \<times> nat \<times> ptr \<times> sockaddr_in option"
  | StartTasks ptr
  | NextTask ptr int int
  | EndTasks ptr
  | Elsewhere action

fun move_loop :: "os \<Rightarrow> move \<Rightarrow> loops_run \<Rightarrow> loops_run res" where
  "move_loop os (PollFor p wait now) r =
     bindR (act os (Poll p wait now) (core r)) (\<lambda>s.
       Inr (r\<lparr>core := s, position_of := (position_of r)(p := InHandlers),
              due_chans := (due_chans r)(p := activeChannels (get_loop p (rw s)))\<rparr>))"
| "move_loop os (HandleEvent p alive) r =
     (case due_chans r p of
        [] \<Rightarrow> Inr r
      | q # qs \<Rightarrow> bindR (deref q (el_poller (get_loop p (rw (core r))))) (\<lambda>ch.
          Inr (r\<lparr>due_chans := (due_chans r)(p := qs),
                 due_calls := (due_calls r)(p :=
                   if ch_tied ch \<and> (case ch_tie ch of None \<Rightarrow> True | Some obj \<Rightarrow> \<not> alive obj) then []
                   else map (Pair q) (due ch))\<rparr>)))"
| "move_loop os (Call p tid accepted) r =
     (case due_calls r p of
        [] \<Rightarrow> Inr r
      | (q, cb) # cs \<Rightarrow>
          bindR (server_invoke os tid (\<lambda>_. accepted) p cb (pollReturnTime (get_loop p (rw (core r)))) (rw (core r))) (\<lambda>w.
            Inr (r\<lparr>core := (core r)\<lparr>rw := w\<rparr>, due_calls := (due_calls r)(p := cs)\<rparr>)))"
| "move_loop os (StartTasks p) r =
     bindR (act os (Swap p) (core r)) (\<lambda>s. Inr (r\<lparr>core := s, position_of := (position_of r)(p := InTasks)\<rparr>))"
| "move_loop os (NextTask p tid listenret) r =
     bindR (act os (RunTask p tid listenret) (core r)) (\<lambda>s. Inr (r\<lparr>core := s\<rparr>))"
| "move_loop os (EndTasks p) r =
     bindR (act os (FinishBatch p) (core r)) (\<lambda>s. Inr (r\<lparr>core := s, position_of := (position_of r)(p := InPoll)\<rparr>))"
| "move_loop os (Elsewhere a) r = bindR (act os a (core r)) (\<lambda>s. Inr (r\<lparr>core := s\<rparr>))"

text \<open>The code's order; the calls of other threads and the end of a connection come at any time.\<close>

fun from_elsewhere :: "action \<Rightarrow> bool" where
  "from_elsewhere (SendFrom tid i addr msg) = True"
| "from_elsewhere (ShutdownFrom tid i) = True"
| "from_elsewhere (Drop i) = True"
| "from_elsewhere _ = False"

fun can_move :: "fd set \<Rightarrow> move \<Rightarrow> loops_run \<Rightarrow> bool" where
  "can_move infra (PollFor p wait now) r \<longleftrightarrow> position_of r p = InPoll \<and> enabled infra (Poll p wait now) (core r)"
| "can_move infra (HandleEvent p alive) r \<longleftrightarrow> position_of r p = InHandlers \<and> due_calls r p = [] \<and> due_chans r p \<noteq> []"
| "can_move infra (Call p tid accepted) r \<longleftrightarrow> position_of r p = InHandlers \<and> due_calls r p \<noteq> [] \<and>
     in_thread p tid (rw (core r)) \<and>
     (case accepted of (answer, obj, cp, gs) \<Rightarrow> accept_doc infra (fst answer) obj cp (rw (core r)))"
| "can_move infra (StartTasks p) r \<longleftrightarrow> position_of r p = InHandlers \<and> due_calls r p = [] \<and> due_chans r p = []"
| "can_move infra (NextTask p tid listenret) r \<longleftrightarrow> position_of r p = InTasks \<and> running (core r) p \<noteq> [] \<and>
     in_thread p tid (rw (core r))"
| "can_move infra (EndTasks p) r \<longleftrightarrow> position_of r p = InTasks \<and> running (core r) p = []"
| "can_move infra (Elsewhere a) r \<longleftrightarrow> from_elsewhere a \<and> enabled infra a (core r)"

inductive loops_step :: "os \<Rightarrow> fd set \<Rightarrow> loops_run \<Rightarrow> loops_run \<Rightarrow> bool" for os :: os and infra :: "fd set" where
  moves: "can_move infra m r \<Longrightarrow> move_loop os m r = Inr t \<Longrightarrow> loops_step os infra r t"

inductive_cases loops_stepE: "loops_step os infra r t"

definition loops_idle :: "fd set \<Rightarrow> loops_run \<Rightarrow> bool" where
  "loops_idle infra r \<longleftrightarrow> server_idle infra (core r) \<and> position_of r = (\<lambda>_. InPoll) \<and>
     due_chans r = (\<lambda>_. []) \<and> due_calls r = (\<lambda>_. [])"

section \<open>What a loop has still to visit stays good\<close>

text \<open>
  The steps of others, and the callbacks of the loop itself, take no channel out of the poller of
  the loop at \<open>p\<close> and leave its callbacks to the same owner.
\<close>

definition good_call :: "ptr \<Rightarrow> ptr \<Rightarrow> callback \<Rightarrow> world \<Rightarrow> bool" where
  "good_call p q cb w \<longleftrightarrow> listed_in p q w \<and> belongs p q cb w"

definition stays_good :: "ptr \<Rightarrow> world \<Rightarrow> world \<Rightarrow> bool" where
  "stays_good p w w' \<longleftrightarrow> (\<forall>q. listed_in p q w \<longrightarrow> listed_in p q w') \<and>
     (\<forall>q cb. good_call p q cb w \<longrightarrow> good_call p q cb w') \<and> (wloops w p \<noteq> None \<longrightarrow> wloops w' p \<noteq> None)"

lemma stays_goodI:
  assumes "same_places w w'" and "\<And>q. listed_in p q w \<Longrightarrow> listed_in p q w'"
  shows "stays_good p w w'"
proof -
  have "map_option threadId (wloops w' p) = map_option threadId (wloops w p)" using assms(1) by (simp add: same_places_def)
  then have "wloops w p \<noteq> None \<longrightarrow> wloops w' p \<noteq> None" by auto
  then show ?thesis
    using assms(2) belongs_places[OF _ assms(1)] by (auto simp: stays_good_def good_call_def)
qed

lemma all_listed_good: "all_listed w w' \<Longrightarrow> stays_good p w w'"
  by (rule stays_goodI) (auto simp: all_listed_def)

lemma on_conn_elsewhere:
  assumes "wconns w i = Some c" and "conn_loop c \<noteq> p"
  shows "ends (on_conn tid i f w) (\<lambda>w'. \<forall>q. listed_in p q w \<longrightarrow> listed_in p q w')"
proof (cases "wloops w (conn_loop c)")
  case None
  with assms(1) show ?thesis by (simp add: on_conn_def conn_at_Some loop_at_def)
next
  case (Some L)
  have "ends (foldR (TcpServer_removeConnection tid) us
      (w\<lparr>wconns := (wconns w)(i \<mapsto> d), wloops := (wloops w)(conn_loop c \<mapsto> M)\<rparr>)) (\<lambda>w'. \<forall>q. listed_in p q w \<longrightarrow> listed_in p q w')"
    (is "ends (foldR _ us ?w) _") for us d M
  proof -
    have "ends (foldR (TcpServer_removeConnection tid) us ?w) (all_listed ?w)"
      by (intro ends_foldR listing.removeConnection_W listing.W_refl)
    moreover have "listed_in p q ?w = listed_in p q w" for q using assms(2) by (simp add: listed_in_def)
    ultimately show ?thesis by (elim ends_mono) (auto simp: all_listed_def)
  qed
  with assms(1) Some show ?thesis
    by (auto simp: on_conn_def conn_at_Some loop_at_Some intro: ends_value[where m = "m :: cstate res" for m])
qed

lemma task_elsewhere:
  assumes inv: "world_inv infra run w" and Q: "run p' = F # Q" and p': "wloops w p' = Some L" "p' \<noteq> p"
  shows "ends (world_functor os tid r F w) (\<lambda>w'. \<forall>q. listed_in p q w \<longrightarrow> listed_in p q w')"
proof -
  have conn: "ends (on_conn tid i f w) (\<lambda>w'. \<forall>q. listed_in p q w \<longrightarrow> listed_in p q w')"
    if "about i F" "F \<noteq> F_removeConnectionInLoop i" for i f
    using next_task[OF inv Q that(1) p'(1)] that(2) p'(2) on_conn_elsewhere by auto
  have none: "F \<noteq> F_acceptorListen"
    using world_invD(7)[OF inv, of p'] view_queue[OF p'(1), of run] Q by auto
  show ?thesis
  proof (cases F)
    case (F_removeConnectionInLoop i)
    then show ?thesis
      using ends_mono[OF listing.removeConnectionInLoop_W[OF listing.W_refl]] by (simp add: all_listed_def)
  qed (use conn none in auto)
qed

lemma loop_change_good:
  assumes "wloops w p' \<noteq> None" and "\<And>L. el_poller (f L) = el_poller L" and "\<And>L. threadId (f L) = threadId L"
  shows "stays_good p w (upd_loop_at p' f w)"
  by (rule all_listed_good) (use assms in \<open>auto simp: all_listed_def same_places_def conn_place_def listed_in_def get_loop_def\<close>)

lemma drop_good:
  assumes inv: "world_inv infra run w" and i: "\<not> pinned (view_at run w) i"
  shows "ends (TcpConnection_delete i w) (stays_good p w)"
  unfolding ends_def
proof (cases "TcpConnection_delete i w")
  case (Inr w')
  then obtain c L where c: "wconns w i = Some c" "wloops w (conn_loop c) = Some L"
    and w': "w' = w\<lparr>wconns := (wconns w)(i := None), wloops := (wloops w)(conn_loop c \<mapsto> Channel_delete (conn_channel c) L),
       open_fds := open_fds w - {sockfd c}\<rparr>"
    unfolding TcpConnection_delete_Inr by blast
  have reg: "\<not> registered c (el_poller L)" using registered_held(2)[OF inv c] i by blast
  have out: "\<not> listed (conn_channel c) (el_poller L)"
  proof
    assume "listed (conn_channel c) (el_poller L)"
    from listed_registered[OF inv _ c(2) this, of i] c(1) reg show False by (simp add: conn_place_def)
  qed
  have listed: "listed_in p q w'" if "listed_in p q w" for q
    using that out c(2) by (auto simp: w' listed_in_def listed_def Channel_delete_def)
  moreover have "belongs p q cb w'" if g: "good_call p q cb w" for q cb
  proof -
    have "j \<noteq> i" if "conn_place w j = Some (p, q)" for j
      using that g out c by (auto simp: conn_place_def good_call_def listed_in_def)
    moreover have "conn_place w' j = conn_place w j" if "j \<noteq> i" for j using that by (simp add: conn_place_def w')
    moreover have "srv w' = srv w" by (simp add: w')
    ultimately show ?thesis using g unfolding good_call_def belongs_def by metis
  qed
  ultimately show "case TcpConnection_delete i w of Inl e \<Rightarrow> True | Inr w' \<Rightarrow> stays_good p w w'"
    using Inr by (auto simp: stays_good_def good_call_def w')
qed simp

lemma elsewhere_good:
  assumes inv: "world_inv infra (running s) (rw s)" and a: "from_elsewhere a" "enabled infra a s"
  shows "ends (act os a s) (\<lambda>t. running t = running s \<and> stays_good p (rw s) (rw t))"
proof -
  have lift: "ends (bindR m (\<lambda>w. Inr (s\<lparr>rw := w\<rparr>))) (\<lambda>t. running t = running s \<and> stays_good p (rw s) (rw t))"
    if "ends m (stays_good p (rw s))" for m
    by (rule ends_seq[OF that]) simp
  have op: "ends (on_conn tid i f (rw s)) (stays_good p (rw s))" if "\<And>u. ends (f u) (stays_known u)" for tid i f
    by (rule ends_mono[OF listing.on_conn_W[OF listing.W_refl that] all_listed_good])
  show ?thesis
  proof (cases a)
    case (SendFrom tid i addr msg)
    show ?thesis unfolding SendFrom act.simps
      by (rule lift[OF op[where f = "TcpConnection_send os tid addr msg", OF known.TcpConnection_send_R[OF known.R_refl]]])
  next
    case (ShutdownFrom tid i)
    show ?thesis unfolding ShutdownFrom act.simps
      by (rule lift[OF op[where f = "TcpConnection_shutdown os tid", OF known.TcpConnection_shutdown_R[OF known.R_refl]]])
  next
    case (Drop i)
    show ?thesis unfolding Drop act.simps by (rule lift[OF drop_good[OF inv]]) (use a Drop in simp)
  qed (use a in simp_all)
qed

lemma task_good:
  assumes inv: "world_inv infra (running s) (rw s)" and p': "in_thread p' tid (rw s)" "p' \<noteq> p"
  shows "ends (act os (RunTask p' tid r) s) (\<lambda>t. running t p = running s p \<and> stays_good p (rw s) (rw t))"
proof (cases "running s p'")
  case Nil
  then show ?thesis by (simp add: stays_good_def)
next
  case (Cons F Q)
  obtain L where L: "wloops (rw s) p' = Some L" using in_threadD[OF p'(1)] by blast
  have "ends (world_functor os tid r F (rw s)) (stays_good p (rw s))"
    by (rule ends_mono[OF ends_conj[OF world_functor_places task_elsewhere[OF inv Cons L p'(2)]]]) (auto intro: stays_goodI)
  with Cons p'(2) show ?thesis by (auto simp: ends_bind elim!: ends_mono)
qed

section \<open>The invariant\<close>

definition loop_ok :: "reactor \<Rightarrow> ptr \<Rightarrow> position \<Rightarrow> ptr list \<Rightarrow> (ptr \<times> callback) list \<Rightarrow> bool" where
  "loop_ok s p pos qs cs \<longleftrightarrow> (pos \<noteq> InPoll \<longrightarrow> wloops (rw s) p \<noteq> None) \<and> (pos \<noteq> InTasks \<longrightarrow> running s p = []) \<and>
     (pos \<noteq> InHandlers \<longrightarrow> qs = [] \<and> cs = []) \<and>
     (\<forall>q \<in> set qs. listed_in p q (rw s)) \<and> (\<forall>(q, cb) \<in> set cs. good_call p q cb (rw s))"

definition run_inv :: "os \<Rightarrow> fd set \<Rightarrow> loops_run \<Rightarrow> bool" where
  "run_inv os infra r \<longleftrightarrow> served os infra (core r) \<and>
     (\<forall>p. loop_ok (core r) p (position_of r p) (due_chans r p) (due_calls r p))"

lemma loop_ok_stays:
  "loop_ok s p pos qs cs \<Longrightarrow> stays_good p (rw s) (rw t) \<Longrightarrow> running t p = running s p \<Longrightarrow> loop_ok t p pos qs cs"
  by (fastforce simp: loop_ok_def stays_good_def)

lemma run_invD:
  assumes "run_inv os infra r"
  shows "served os infra (core r)" "loop_ok (core r) p (position_of r p) (due_chans r p) (due_calls r p)"
  using assms by (simp_all add: run_inv_def)

lemma run_inv_step:
  assumes "run_inv os infra r" and "served os infra (core t)"
    and "\<And>p'. p' \<noteq> p \<Longrightarrow> stays_good p' (rw (core r)) (rw (core t)) \<and> running (core t) p' = running (core r) p'"
    and "\<And>p'. p' \<noteq> p \<Longrightarrow> position_of t p' = position_of r p' \<and> due_chans t p' = due_chans r p' \<and> due_calls t p' = due_calls r p'"
    and "loop_ok (core t) p (position_of t p) (due_chans t p) (due_calls t p)"
  shows "run_inv os infra t"
  unfolding run_inv_def
proof (intro conjI allI)
  fix p'
  show "loop_ok (core t) p' (position_of t p') (due_chans t p') (due_calls t p')"
  proof (cases "p' = p")
    case False
    with assms(3,4)[OF False] loop_ok_stays[OF run_invD(2)[OF assms(1)]] show ?thesis by simp
  qed (use assms(5) in simp)
qed (rule assms(2))

lemma poll_move_inv:
  assumes os: "env_ok os" and inv: "run_inv os infra r" and en: "can_move infra (PollFor p wait now) r"
  shows "safely (move_loop os (PollFor p wait now) r) (run_inv os infra)"
proof -
  let ?s = "core r"
  have pos: "position_of r p = InPoll" "enabled infra (Poll p wait now) ?s" using en by simp_all
  then obtain L where L: "wloops (rw ?s) p = Some L" "wait_doc wait (el_poller L)" by (auto split: option.splits)
  note s = run_invD(1)[OF inv] and own = run_invD(2)[OF inv, of p]
  from poll_inv[OF served_inv[OF os s] L, of now] obtain P active where
    poll: "EPollPoller_poll wait (el_poller (get_loop p (rw ?s)), []) = Inr (P, active)"
    and live: "\<forall>q \<in> set active. \<exists>ch. chans P q = Some ch \<and> ch_index ch = kAdded" by blast
  let ?f = "\<lambda>L. L\<lparr>el_poller := P, activeChannels := active, pollReturnTime := now\<rparr>"
  let ?t = "?s\<lparr>rw := upd_loop_at p ?f (rw ?s)\<rparr>"
  have act: "act os (Poll p wait now) ?s = Inr ?t" using poll by simp
  have "served os infra ?t" using act_served[OF os s pos(2)] unfolding act by simp
  moreover have "stays_good p' (rw ?s) (rw ?t)" if "p' \<noteq> p" for p'
    by (rule stays_goodI) (use L(1) that in \<open>auto simp: same_places_def conn_place_def listed_in_def get_loop_def\<close>)
  moreover have "loop_ok ?t p InHandlers active []"
    using own pos(1) live by (fastforce simp: loop_ok_def listed_in_def listed_def)
  moreover have "due_calls r p = []" using own pos(1) by (simp add: loop_ok_def)
  ultimately have "run_inv os infra (r\<lparr>core := ?t, position_of := (position_of r)(p := InHandlers), due_chans := (due_chans r)(p := active)\<rparr>)"
    by (intro run_inv_step[OF inv, where p = p]) simp_all
  then show ?thesis unfolding move_loop.simps act by simp
qed

lemma handle_move_inv:
  assumes os: "env_ok os" and inv: "run_inv os infra r" and en: "can_move infra (HandleEvent p alive) r"
  shows "safely (move_loop os (HandleEvent p alive) r) (run_inv os infra)"
proof -
  let ?s = "core r"
  note s = run_invD(1)[OF inv] and own = run_invD(2)[OF inv, of p]
  obtain q qs where q: "due_chans r p = q # qs" "position_of r p = InHandlers" using en by (auto simp: neq_Nil_conv)
  then have "listed_in p q (rw ?s)" using own by (simp add: loop_ok_def)
  note listed = this
  then obtain L ch where L: "wloops (rw ?s) p = Some L" "listed q (el_poller L)" "chans (el_poller L) q = Some ch"
    by (auto simp: listed_in_def listed_def split: option.splits)
  define cs where "cs = (if ch_tied ch \<and> (case ch_tie ch of None \<Rightarrow> True | Some obj \<Rightarrow> \<not> alive obj) then [] else map (Pair q) (due ch))"
  have "\<forall>(q', cb) \<in> set cs. good_call p q' cb (rw ?s)"
    using listed_due[OF served_inv[OF os s] L] listed by (auto simp: cs_def good_call_def)
  then have "loop_ok ?s p InHandlers qs cs" using own q by (simp add: loop_ok_def)
  then have "run_inv os infra (r\<lparr>due_chans := (due_chans r)(p := qs), due_calls := (due_calls r)(p := cs)\<rparr>)"
    using s q(2) by (intro run_inv_step[OF inv, where p = p]) (simp_all add: stays_good_def)
  then show ?thesis using q(1) L(1,3) by (simp add: get_loop_def cs_def)
qed

lemma call_move_inv:
  assumes os: "env_ok os" and inv: "run_inv os infra r" and en: "can_move infra (Call p tid accepted) r"
  shows "safely (move_loop os (Call p tid accepted) r) (run_inv os infra)"
proof -
  let ?s = "core r"
  note s = run_invD(1)[OF inv] and own = run_invD(2)[OF inv, of p]
  obtain q cb cs where c: "due_calls r p = (q, cb) # cs" "position_of r p = InHandlers" using en by (auto simp: neq_Nil_conv)
  have tid: "in_thread p tid (rw ?s)" and acc: "case accepted of (answer, obj, cp, gs) \<Rightarrow> accept_doc infra (fst answer) obj cp (rw ?s)"
    using en by simp_all
  have good: "belongs p q cb (rw ?s)" "listed_in p q (rw ?s)" using own c(1) by (auto simp: loop_ok_def good_call_def)
  let ?m = "server_invoke os tid (\<lambda>_. accepted) p cb (pollReturnTime (get_loop p (rw ?s))) (rw ?s)"
  have "safely ?m (\<lambda>w. served os infra (?s\<lparr>rw := w\<rparr>) \<and> all_listed (rw ?s) w)"
    by (rule invoke_served[where s = ?s and accepting = "\<lambda>_. accepted", OF os _ acc tid good]) (use s in simp)
  then have "safely ?m (\<lambda>w. run_inv os infra (r\<lparr>core := ?s\<lparr>rw := w\<rparr>, due_calls := (due_calls r)(p := cs)\<rparr>))"
  proof (rule safely_mono)
    fix w
    assume w: "served os infra (?s\<lparr>rw := w\<rparr>) \<and> all_listed (rw ?s) w"
    have "loop_ok ?s p InHandlers (due_chans r p) cs" using own c by (simp add: loop_ok_def)
    from loop_ok_stays[OF this, of "?s\<lparr>rw := w\<rparr>"] w all_listed_good
    show "run_inv os infra (r\<lparr>core := ?s\<lparr>rw := w\<rparr>, due_calls := (due_calls r)(p := cs)\<rparr>)"
      using c(2) by (intro run_inv_step[OF inv, where p = p]) simp_all
  qed
  then show ?thesis using c(1) by simp
qed

lemma tasks_move_inv:
  assumes os: "env_ok os" and inv: "run_inv os infra r" and en: "can_move infra m r"
    and m: "m = StartTasks p \<or> m = EndTasks p"
  shows "safely (move_loop os m r) (run_inv os infra)"
proof -
  let ?s = "core r"
  note s = run_invD(1)[OF inv] and own = run_invD(2)[OF inv, of p]
  have loop: "wloops (rw ?s) p \<noteq> None" using en m own by (auto simp: loop_ok_def)
  have good: "stays_good p' (rw ?s) (upd_loop_at p f (rw ?s))"
    if "\<And>L. el_poller (f L) = el_poller L" "\<And>L. threadId (f L) = threadId L" for p' f
    by (rule loop_change_good[OF loop that])
  from m show ?thesis
  proof
    assume m: "m = StartTasks p"
    have idle: "running ?s p = []" "due_calls r p = []" "due_chans r p = []" using en own m by (simp_all add: loop_ok_def)
    then have "enabled infra (Swap p) ?s" using loop by simp
    from act_served[OF os s this] loop idle show ?thesis
      unfolding m by (auto intro!: run_inv_step[OF inv, where p = p] good simp: loop_ok_def)
  next
    assume m: "m = EndTasks p"
    have idle: "running ?s p = []" "due_calls r p = []" "due_chans r p = []" using en own m by (simp_all add: loop_ok_def)
    have "enabled infra (FinishBatch p) ?s" using loop by simp
    from act_served[OF os s this] loop idle show ?thesis
      unfolding m by (auto intro!: run_inv_step[OF inv, where p = p] good simp: loop_ok_def)
  qed
qed

lemma next_move_inv:
  assumes os: "env_ok os" and inv: "run_inv os infra r" and en: "can_move infra (NextTask p tid l) r"
  shows "safely (move_loop os (NextTask p tid l) r) (run_inv os infra)"
proof -
  let ?s = "core r" and ?a = "RunTask p tid l"
  note s = run_invD(1)[OF inv] and own = run_invD(2)[OF inv, of p]
  have tid: "in_thread p tid (rw ?s)" and pos: "position_of r p = InTasks" using en by simp_all
  have "enabled infra ?a ?s" using tid by simp
  note safe = act_served[OF os s this]
  have idle: "due_chans r p = []" "due_calls r p = []" using own pos by (simp_all add: loop_ok_def)
  have "ends (act os ?a ?s) (\<lambda>t. in_thread p tid (rw t))"
    using ends_mono[OF world_functor_places same_places_thread] tid by (auto simp: ends_bind split: list.split)
  moreover have "ends (act os ?a ?s) (\<lambda>t. \<forall>p'. p' \<noteq> p \<longrightarrow> running t p' = running ?s p' \<and> stays_good p' (rw ?s) (rw t))"
  proof (cases "act os ?a ?s")
    case (Inr t)
    have "running t p' = running ?s p' \<and> stays_good p' (rw ?s) (rw t)" if "p' \<noteq> p" for p'
      using ends_D[OF task_good[OF served_inv[OF os s] tid that[symmetric]] Inr] .
    with Inr show ?thesis by simp
  qed simp
  ultimately have "safely (act os ?a ?s) (\<lambda>t. served os infra t \<and> in_thread p tid (rw t) \<and>
      (\<forall>p'. p' \<noteq> p \<longrightarrow> running t p' = running ?s p' \<and> stays_good p' (rw ?s) (rw t)))"
    using safe by (intro safely_ends ends_conj)
  then have "safely (act os ?a ?s) (\<lambda>t. run_inv os infra (r\<lparr>core := t\<rparr>))"
  proof (rule safely_mono)
    fix t
    assume t: "served os infra t \<and> in_thread p tid (rw t) \<and>
      (\<forall>p'. p' \<noteq> p \<longrightarrow> running t p' = running ?s p' \<and> stays_good p' (rw ?s) (rw t))"
    then have "loop_ok t p InTasks [] []" using in_threadD by (fastforce simp: loop_ok_def)
    with t idle pos show "run_inv os infra (r\<lparr>core := t\<rparr>)" by (intro run_inv_step[OF inv, where p = p]) simp_all
  qed
  then show ?thesis by (simp del: act.simps)
qed

lemma elsewhere_move_inv:
  assumes os: "env_ok os" and inv: "run_inv os infra r" and en: "can_move infra (Elsewhere a) r"
  shows "safely (move_loop os (Elsewhere a) r) (run_inv os infra)"
proof -
  let ?s = "core r"
  note s = run_invD(1)[OF inv]
  have a: "from_elsewhere a" "enabled infra a ?s" using en by simp_all
  have "ends (act os a ?s) (\<lambda>t. \<forall>p. running t = running ?s \<and> stays_good p (rw ?s) (rw t))"
    using ends_D[OF elsewhere_good[OF served_inv[OF os s] a]] by (cases "act os a ?s") auto
  from safely_ends[OF act_served[OF os s a(2)] this]
  have "safely (act os a ?s) (\<lambda>t. run_inv os infra (r\<lparr>core := t\<rparr>))"
    by (rule safely_mono) (use loop_ok_stays[OF run_invD(2)[OF inv]] in \<open>auto simp: run_inv_def\<close>)
  then show ?thesis by (simp del: act.simps)
qed

lemma move_inv:
  assumes "env_ok os" and "run_inv os infra r" and "can_move infra m r"
  shows "safely (move_loop os m r) (run_inv os infra)"
proof (cases m)
  case (StartTasks p)
  then show ?thesis using tasks_move_inv[OF assms] by blast
next
  case (EndTasks p)
  then show ?thesis using tasks_move_inv[OF assms] by blast
next
  case (PollFor p wait now)
  show ?thesis unfolding PollFor by (rule poll_move_inv[OF assms[unfolded PollFor]])
next
  case (HandleEvent p alive)
  show ?thesis unfolding HandleEvent by (rule handle_move_inv[OF assms[unfolded HandleEvent]])
next
  case (Call p tid accepted)
  show ?thesis unfolding Call by (rule call_move_inv[OF assms[unfolded Call]])
next
  case (NextTask p tid l)
  show ?thesis unfolding NextTask by (rule next_move_inv[OF assms[unfolded NextTask]])
next
  case (Elsewhere a)
  show ?thesis unfolding Elsewhere by (rule elsewhere_move_inv[OF assms[unfolded Elsewhere]])
qed

lemma loops_idle_inv: "loops_idle infra r \<Longrightarrow> run_inv os infra r"
  by (auto simp: loops_idle_def run_inv_def served_def loop_ok_def server_idle_def intro: reach_init)

interpretation turning: safe_machine "loops_idle infra" "loops_step os infra" "\<lambda>r. env_ok os \<longrightarrow> run_inv os infra r" for infra os
proof
  show "env_ok os \<longrightarrow> run_inv os infra r" if "loops_idle infra r" for r using loops_idle_inv[OF that] by simp
  show "env_ok os \<longrightarrow> run_inv os infra t" if "env_ok os \<longrightarrow> run_inv os infra r" "loops_step os infra r t" for r t
  proof
    assume os: "env_ok os"
    from that(2) obtain m where m: "can_move infra m r" "move_loop os m r = Inr t" by (rule loops_stepE)
    have "run_inv os infra r" using that(1) os by simp
    from move_inv[OF os this m(1)] m(2) show "run_inv os infra t" by simp
  qed
qed

lemma reach_run_inv: "env_ok os \<Longrightarrow> reach (loops_idle infra) (loops_step os infra) r \<Longrightarrow> run_inv os infra r"
  using turning.reach_inv by blast

section \<open>A turn ends\<close>

text \<open>Whose step a move is, and how far the loop at \<open>p\<close> is from the end of its turn.\<close>

fun loop_of :: "move \<Rightarrow> ptr option" where
  "loop_of (PollFor p wait now) = Some p"
| "loop_of (HandleEvent p alive) = Some p"
| "loop_of (Call p tid accepted) = Some p"
| "loop_of (StartTasks p) = Some p"
| "loop_of (NextTask p tid listenret) = Some p"
| "loop_of (EndTasks p) = Some p"
| "loop_of (Elsewhere a) = None"

definition turn_rank :: "loops_run \<Rightarrow> ptr \<Rightarrow> nat \<times> nat" where
  "turn_rank r p = (case position_of r p of
     InPoll \<Rightarrow> (0, 0)
   | InTasks \<Rightarrow> (1, length (running (core r) p))
   | InHandlers \<Rightarrow> (2, 5 * length (due_chans r p) + length (due_calls r p)))"

lemma length_due: "length (due ch) \<le> 4"
  by (auto simp: due_def List.map_filter_def)

lemma elsewhere_running: "from_elsewhere a \<Longrightarrow> act os a s = Inr t \<Longrightarrow> running t = running s"
  by (cases a) (auto simp: bindR_Inr_iff)

lemma turn_rank_step:
  assumes "can_move infra m r" and "move_loop os m r = Inr t" and "position_of r p \<noteq> InPoll"
  shows "if loop_of m = Some p then (turn_rank t p, turn_rank r p) \<in> less_than <*lex*> less_than
    else turn_rank t p = turn_rank r p"
proof (cases m)
  case (HandleEvent p' alive)
  then obtain q qs ch where q: "due_chans r p' = q # qs" "position_of r p' = InHandlers" "due_calls r p' = []"
    and t: "t = r\<lparr>due_chans := (due_chans r)(p' := qs), due_calls := (due_calls r)(p' :=
      if ch_tied ch \<and> (case ch_tie ch of None \<Rightarrow> True | Some obj \<Rightarrow> \<not> alive obj) then [] else map (Pair q) (due ch))\<rparr>"
    using assms(1,2) by (auto simp: neq_Nil_conv bindR_Inr_iff)
  show ?thesis using q length_due[of ch] by (auto simp: HandleEvent t turn_rank_def split: position.split)
next
  case (NextTask p' tid l)
  then obtain F Q where "running (core r) p' = F # Q" "position_of r p' = InTasks"
    using assms(1) by (auto simp: neq_Nil_conv)
  with NextTask assms(2) show ?thesis by (auto simp: bindR_Inr_iff turn_rank_def split: position.split)
next
  case (Elsewhere a)
  with assms(1,2) obtain s where "act os a (core r) = Inr s" "t = r\<lparr>core := s\<rparr>" "from_elsewhere a"
    by (auto simp: bindR_Inr_iff simp del: act.simps)
  with elsewhere_running show ?thesis by (auto simp: Elsewhere turn_rank_def split: position.split)
qed (use assms in \<open>auto simp: bindR_Inr_iff turn_rank_def neq_Nil_conv split: position.split if_splits\<close>)

lemma turn_goes_on:
  assumes inv: "run_inv os infra r" and p: "position_of r p \<noteq> InPoll"
  shows "\<exists>m. loop_of m = Some p \<and> can_move infra m r"
proof -
  obtain L where L: "wloops (rw (core r)) p = Some L" using run_invD(2)[OF inv, of p] p by (auto simp: loop_ok_def)
  then have tid: "in_thread p (threadId L) (rw (core r))" by (simp add: in_thread_def)
  show ?thesis
  proof (cases "position_of r p")
    case InHandlers
    show ?thesis
    proof (cases "due_calls r p = []")
      case True
      show ?thesis
      proof (cases "due_chans r p = []")
        case None: True
        with True InHandlers show ?thesis by (intro exI[of _ "StartTasks p"]) simp
      next
        case False
        with True InHandlers show ?thesis by (intro exI[of _ "HandleEvent p (\<lambda>_. True)"]) simp
      qed
    next
      case False
      with InHandlers tid show ?thesis
        by (intro exI[of _ "Call p (threadId L) ((- 1, zero_addr), 0, 0, None)"]) (simp add: accept_doc_def)
    qed
  next
    case InTasks
    show ?thesis
    proof (cases "running (core r) p = []")
      case True
      with InTasks show ?thesis by (intro exI[of _ "EndTasks p"]) simp
    next
      case False
      with InTasks tid show ?thesis by (intro exI[of _ "NextTask p (threadId L) 0"]) simp
    qed
  qed (use p in simp)
qed

section \<open>Properties\<close>

definition sample_run :: loops_run where
  "sample_run = \<lparr>core = sample_serving, position_of = (\<lambda>_. InPoll), due_chans = (\<lambda>_. []), due_calls = (\<lambda>_. [])\<rparr>"

abbreviation sample_poll :: move where
  "sample_poll \<equiv> PollFor 2 (\<lambda>n. SysErr EINTR) 7"

definition sample_polled :: loops_run where
  "sample_polled = (case move_loop sample_os sample_poll sample_run of Inr r \<Rightarrow> r)"

lemma sample_run_reach: "reach (loops_idle {4, 6}) (loops_step os {4, 6}) sample_run"
proof (rule reach_init)
  have "server_idle {4, 6} sample_serving"
    by (auto simp: server_idle_def idle_loop_def sample_serving_def sample_world_def loops_ok_def callbacks_ok_def pool_ok_def
      loop_in_turn_def sample_acceptor_def sample_loop_def poller_ok_def)
  then show "loops_idle {4, 6} sample_run" by (simp add: loops_idle_def sample_run_def)
qed

lemma sample_poll_can: "can_move {4, 6} sample_poll sample_run"
  by (simp add: sample_run_def sample_serving_def sample_world_def wait_doc_def)

lemma sample_polled:
  "move_loop sample_os sample_poll sample_run = Inr sample_polled" "position_of sample_polled 2 = InHandlers"
proof -
  have "\<exists>r. move_loop sample_os sample_poll sample_run = Inr r \<and> position_of r 2 = InHandlers"
    by (simp add: EPollPoller_poll_def)
  then show "move_loop sample_os sample_poll sample_run = Inr sample_polled" "position_of sample_polled 2 = InHandlers"
    by (auto simp: sample_polled_def simp del: move_loop.simps)
qed

lemma sample_polled_reach: "reach (loops_idle {4, 6}) (loops_step sample_os {4, 6}) sample_polled"
  using reach_step[OF sample_run_reach moves[OF sample_poll_can sample_polled(1)]] .

text \<open>What the loops have still to visit.\<close>

definition due_good :: "loops_run \<Rightarrow> bool" where
  "due_good r \<longleftrightarrow> (\<forall>p. (\<forall>q \<in> set (due_chans r p). listed_in p q (rw (core r))) \<and>
     (\<forall>(q, cb) \<in> set (due_calls r p). good_call p q cb (rw (core r))))"



text \<open>C6: A turn of a loop ends, whatever the other threads do: from the return of poll to the end of
  doPendingFunctors the loop always has a next step, each of its steps brings it nearer to the end
  (at most five for each reported channel, one for each task of the batch), and no step of another
  thread sets it back - what they queue waits for the next turn.\<close>

theorem turn_ends:
  assumes "env_ok os" and "reach (loops_idle infra) (loops_step os infra) r" and "position_of r p \<noteq> InPoll"
  shows "(\<exists>m. loop_of m = Some p \<and> can_move infra m r) \<and>
    (\<forall>m t. can_move infra m r \<longrightarrow> move_loop os m r = Inr t \<longrightarrow>
      (if loop_of m = Some p then (turn_rank t p, turn_rank r p) \<in> less_than <*lex*> less_than
       else turn_rank t p = turn_rank r p))"
  using turn_goes_on[OF reach_run_inv[OF assms(1,2)] assms(3)] turn_rank_step[OF _ _ assms(3)] by blast

theorem turn_ends_witness:
  "\<exists>m. loop_of m = Some 2 \<and> can_move {4, 6} m sample_polled"
  using turn_ends[OF sample_env sample_polled_reach, of 2] sample_polled(2) by simp

end
