(* ===== verification/Teardown.thy ===== *)
theory Teardown
  imports ServerRun
begin

text \<open>
  The end of a server: \<open>~TcpServer\<close> with its members, the threads of its loops and what they leave
  behind. The base thread hands every connection to its loop, then ends one I/O thread after the
  other - \<open>quit()\<close>, the last turn of that loop, \<open>~EventLoop\<close>, the join - and unregisters the
  acceptor. A closure that holds a \<open>shared_ptr\<close> frees its connection when it dies as the last holder.
\<close>

section \<open>Destructors\<close>

text \<open>The connection whose \<open>shared_ptr\<close> a closure holds.\<close>

fun holds_conn :: "Functor \<Rightarrow> nat option" where
  "holds_conn (F_connectEstablished i) = Some i"
| "holds_conn (F_connectDestroyed i) = Some i"
| "holds_conn (F_writeComplete i) = Some i"
| "holds_conn (F_highWaterMark i n) = Some i"
| "holds_conn (F_removeConnectionInLoop i) = Some i"
| "holds_conn _ = None"

text \<open>A vector of closures dies.\<close>

definition closures_end :: "(world \<Rightarrow> nat \<Rightarrow> bool) \<Rightarrow> Functor list \<Rightarrow> world \<Rightarrow> world res" where
  "closures_end alive Q = foldR (release alive) (List.map_filter holds_conn Q)"

text \<open>The loop object on the stack of \<open>threadFunc\<close>: \<open>~EventLoop\<close>, then its members, the queue among them.\<close>

definition EventLoop_free :: "os \<Rightarrow> (world \<Rightarrow> nat \<Rightarrow> bool) \<Rightarrow> ptr \<Rightarrow> world \<Rightarrow> world res" where
  "EventLoop_free os alive p w =
     bindR (loop_at p w) (\<lambda>L.
     bindR (EventLoop_delete os L) (\<lambda>(L1, t_loopInThisThread).
     bindR (closures_end alive (pendingFunctors L1)
         (close_fd (wakeupFd L1) (w\<lparr>wloops := (wloops w)(p \<mapsto> L1\<lparr>pendingFunctors := []\<rparr>)\<rparr>))) (\<lambda>w1.
       Inr (w1\<lparr>wloops := (wloops w1)(p := None)\<rparr>))))"

text \<open>
  \<open>threadFunc\<close> from \<open>epoll_wait\<close> on: the rest of the turn, with the end of the swapped closures when
  \<open>doPendingFunctors\<close> returns, the test of \<open>quit_\<close>, the end of the loop. The boolean tells whether
  the thread has ended or waits for its next event.
\<close>

definition turn_events ::
    "('s \<Rightarrow> event_loop) \<Rightarrow> ((event_loop \<Rightarrow> event_loop) \<Rightarrow> 's \<Rightarrow> 's) \<Rightarrow>
     (ptr \<Rightarrow> timestamp \<Rightarrow> 's \<Rightarrow> 's res) \<Rightarrow> answer \<Rightarrow> 's \<Rightarrow> 's res" where
  "turn_events getL mapL handle a s =
     (let s1 = mapL (\<lambda>L. L\<lparr>activeChannels := []\<rparr>) s in
      bindR (EPollPoller_poll (fst a) (el_poller (getL s1), activeChannels (getL s1))) (\<lambda>(p, act).
      let s2 = mapL (\<lambda>L. L\<lparr>el_poller := p, activeChannels := act, pollReturnTime := snd a\<rparr>) s1 in
        foldR (\<lambda>ptr. handle ptr (pollReturnTime (getL s2))) act s2))"

lemma loop_turn_events:
  "loop_turn getL mapL handle run a s = bindR (turn_events getL mapL handle a s) (doPendingFunctors getL mapL run)"
  by (simp add: loop_turn_def turn_events_def Let_def bindR_assoc split_def)

definition threadFunc_end ::
    "os \<Rightarrow> int \<Rightarrow> (world \<Rightarrow> nat \<Rightarrow> bool) \<Rightarrow> accepting \<Rightarrow> answer \<Rightarrow> ptr \<Rightarrow> world \<Rightarrow> (world \<times> bool) res" where
  "threadFunc_end os tid alive accepting a p w =
     (let handle = server_handle os tid alive accepting p; run = world_functor os tid 0 in
      bindR (turn_events (get_loop p) (upd_loop_at p) handle a w) (\<lambda>w1.
      bindR (doPendingFunctors (get_loop p) (upd_loop_at p) run w1) (\<lambda>w2.
      bindR (closures_end alive (pendingFunctors (get_loop p w1)) w2) (\<lambda>w3.
      bindR (loop_while (get_loop p) (upd_loop_at p) handle run [] w3) (\<lambda>(w4, returned).
        if returned then bindR (EventLoop_free os alive p w4) (\<lambda>w5. Inr (w5, True))
        else Inr (w4, False))))))"

text \<open>
  \<open>~EventLoopThread\<close> in thread \<open>tid\<close>, for the thread of the loop at \<open>p\<close>: \<open>io p\<close> is that thread's id
  and what its \<open>epoll_wait\<close> answers. A thread that waits is not joined: the boolean is false.
\<close>

definition EventLoopThread_delete ::
    "os \<Rightarrow> int \<Rightarrow> (world \<Rightarrow> nat \<Rightarrow> bool) \<Rightarrow> accepting \<Rightarrow> (ptr \<Rightarrow> int \<times> answer) \<Rightarrow> ptr \<Rightarrow> world \<Rightarrow> (world \<times> bool) res" where
  "EventLoopThread_delete os tid alive accepting io p w =
     bindR (loop_at p w) (\<lambda>_.
       threadFunc_end os (fst (io p)) alive accepting (snd (io p)) p (upd_loop_at p (EventLoop_quit tid) w))"

fun EventLoopThreadPool_delete ::
    "os \<Rightarrow> int \<Rightarrow> (world \<Rightarrow> nat \<Rightarrow> bool) \<Rightarrow> accepting \<Rightarrow> (ptr \<Rightarrow> int \<times> answer) \<Rightarrow> ptr list \<Rightarrow> world \<Rightarrow> (world \<times> bool) res" where
  "EventLoopThreadPool_delete os tid alive accepting io [] w = Inr (w, True)"
| "EventLoopThreadPool_delete os tid alive accepting io (p # ps) w =
     bindR (EventLoopThread_delete os tid alive accepting io p w) (\<lambda>(w1, joined).
       if joined then EventLoopThreadPool_delete os tid alive accepting io ps w1 else Inr (w1, False))"

text \<open>
  \<open>~TcpServer\<close>: its body, then the members: the map, in which no pointer is left, the thread pool,
  the acceptor with its channel and its socket.
\<close>

definition Acceptor_free :: "os \<Rightarrow> world \<Rightarrow> world res" where
  "Acceptor_free os w =
     (let a = srv_acceptor (srv w); p = srv_loop (srv w) in
      bindR (loop_at p w) (\<lambda>B.
      bindR (Acceptor_delete os a B) (\<lambda>B1.
        Inr (Socket_delete (sock_fd (acceptSocket a))
               (w\<lparr>wloops := (wloops w)(p \<mapsto> Channel_delete (acceptChannel a) B1)\<rparr>)))))"

definition TcpServer_end ::
    "os \<Rightarrow> int \<Rightarrow> (world \<Rightarrow> nat \<Rightarrow> bool) \<Rightarrow> accepting \<Rightarrow> (ptr \<Rightarrow> int \<times> answer) \<Rightarrow> world \<Rightarrow> (world \<times> bool) res" where
  "TcpServer_end os tid alive accepting io w =
     bindR (TcpServer_delete os tid alive w) (\<lambda>w1.
     bindR (EventLoopThreadPool_delete os tid alive accepting io (loops (threadPool (srv w1))) w1) (\<lambda>(w2, joined).
       if joined then bindR (Acceptor_free os w2) (\<lambda>w3. Inr (w3, True)) else Inr (w2, False)))"

section \<open>The wake-up channel\<close>

definition wake_ok :: "fd set \<Rightarrow> event_loop \<Rightarrow> bool" where
  "wake_ok infra L \<longleftrightarrow> poller_ok (el_poller L) \<and> wakeupFd L \<in> infra \<and>
     fd_free (el_poller L) (wakeupChannel L) (wakeupFd L) \<and>
     (\<exists>ch. chans (el_poller L) (wakeupChannel L) = Some ch \<and> ch_fd ch = wakeupFd L \<and>
       callbacks_of ch = (Some LoopHandleRead, None, None, None))"

lemma wake_okE:
  assumes "wake_ok infra L"
  obtains ch where "poller_ok (el_poller L)" "wakeupFd L \<in> infra" "fd_free (el_poller L) (wakeupChannel L) (wakeupFd L)"
    "chans (el_poller L) (wakeupChannel L) = Some ch" "ch_fd ch = wakeupFd L"
    "callbacks_of ch = (Some LoopHandleRead, None, None, None)"
  using assms by (auto simp: wake_ok_def)

lemma wake_ok_same:
  assumes "wake_ok infra L" and "poller_ok (el_poller M)" and "wakeupChannel M = wakeupChannel L" "wakeupFd M = wakeupFd L"
    and "channelMap (el_poller M) (wakeupFd L) = channelMap (el_poller L) (wakeupFd L)"
    and "map_option (\<lambda>ch. (ch_fd ch, callbacks_of ch)) (chans (el_poller M) (wakeupChannel L)) =
      map_option (\<lambda>ch. (ch_fd ch, callbacks_of ch)) (chans (el_poller L) (wakeupChannel L))"
  shows "wake_ok infra M"
  using assms by (auto simp: wake_ok_def fd_free_def)

lemma wake_ok_poll:
  assumes "wake_ok infra L" and "same_but_revents (el_poller L) P" and "poller_ok P"
  shows "wake_ok infra (L\<lparr>el_poller := P, activeChannels := active, pollReturnTime := now\<rparr>)"
  by (rule wake_ok_same[OF assms(1)])
    (use assms(3) same_but_reventsD(1)[OF assms(2)] same_but_reventsD(4)[OF assms(2), of "wakeupChannel L"]
      in \<open>auto simp: set_revents_def callbacks_of_def\<close>)

text \<open>\<open>~EventLoop\<close> on a loop with such a channel.\<close>

lemma EventLoop_delete_ok:
  assumes "ctl_doc os" and "wake_ok infra L"
  shows "\<exists>P. EventLoop_delete os L = Inr (L\<lparr>el_poller := P\<rparr>, None)"
proof -
  let ?q = "wakeupChannel L"
  obtain ch where ch: "poller_ok (el_poller L)" "chans (el_poller L) ?q = Some ch" "fd_free (el_poller L) ?q (ch_fd ch)"
    using assms(2) by (auto elim: wake_okE)
  from epoll.set_law[OF conjI[OF assms(1) ch(1)] ch(2,3), of DisableAll] obtain P where
    P: "Channel_set_interest os DisableAll ?q (el_poller L) = Inr P" "ctl_doc os \<and> poller_ok P"
      "fd_free P ?q (ch_fd ch)" "\<exists>c. chans P ?q = Some c \<and> ch_fd c = ch_fd ch" by auto
  then obtain c where c: "chans P ?q = Some c" "ch_fd c = ch_fd ch" by blast
  from epoll.remove_law[OF P(2) c(1)] P(3) c(2) obtain P2 where "EPollPoller_removeChannel os ?q P = Inr P2" by auto
  with P(1) show ?thesis
    by (intro exI[of _ P2]) (simp add: EventLoop_delete_def set_interest_def EventLoop_removeChannel_def with_poller_def)
qed

section \<open>The last turn of a loop\<close>

text \<open>\<open>epoll_wait\<close> reports nothing but the wake-up channel.\<close>

definition only_wakeup :: "answer \<Rightarrow> event_loop \<Rightarrow> bool" where
  "only_wakeup a L \<longleftrightarrow> wait_doc (fst a) (el_poller L) \<and>
     (\<forall>es ev q. fst a (length (eventList (el_poller L))) = SysOk es \<longrightarrow> (ev, q) \<in> set es \<longrightarrow> q = wakeupChannel L)"

lemma fill_active: "fillActiveChannels es (s, active) = Inr (t, active') \<Longrightarrow> active' = active @ map snd es"
  by (induction es arbitrary: s active) (fastforce simp: bindR_Inr_iff)+

lemma poll_active:
  assumes "EPollPoller_poll wait (s, active) = Inr (t, active')"
  shows "active' = active @ (case wait (length (eventList s)) of SysErr e \<Rightarrow> [] | SysOk es \<Rightarrow> map snd es)"
  using assms by (auto simp: EPollPoller_poll_def Let_def bindR_Inr_iff split: sys.splits if_splits dest: fill_active)

text \<open>A change of the loop at \<open>p\<close> that leaves its tasks and its channels.\<close>

definition loop_moved :: "fd set \<Rightarrow> ptr \<Rightarrow> event_loop \<Rightarrow> world \<Rightarrow> world \<Rightarrow> bool" where
  "loop_moved infra p L w w' \<longleftrightarrow> (\<exists>M. w' = w\<lparr>wloops := (wloops w)(p \<mapsto> M)\<rparr> \<and> wake_ok infra M \<and>
     same_but_revents (el_poller L) (el_poller M) \<and> threadId M = threadId L \<and> pendingFunctors M = pendingFunctors L \<and>
     quit M = quit L \<and> wakeupChannel M = wakeupChannel L)"

lemma loop_moved_upd:
  assumes "loop_moved infra p L w w'"
    and "\<And>M. el_poller (f M) = el_poller M" "\<And>M. threadId (f M) = threadId M" "\<And>M. pendingFunctors (f M) = pendingFunctors M"
      "\<And>M. quit (f M) = quit M" "\<And>M. wakeupChannel (f M) = wakeupChannel M" "\<And>M. wakeupFd (f M) = wakeupFd M"
  shows "loop_moved infra p L w (upd_loop_at p f w')"
proof -
  obtain M where M: "w' = w\<lparr>wloops := (wloops w)(p \<mapsto> M)\<rparr>" "wake_ok infra M" "same_but_revents (el_poller L) (el_poller M)"
    "threadId M = threadId L" "pendingFunctors M = pendingFunctors L" "quit M = quit L" "wakeupChannel M = wakeupChannel L"
    using assms(1) by (auto simp: loop_moved_def)
  have "wake_ok infra (f M)" by (rule wake_ok_same[OF M(2)]) (use M(2) assms in \<open>auto simp: wake_ok_def\<close>)
  with M assms(2-7) show ?thesis
    unfolding loop_moved_def by (intro exI[of _ "f M"]) (simp add: upd_loop_at_def get_loop_def)
qed

lemma wake_turn:
  assumes L: "wloops w p = Some L" "wake_ok infra L" and a: "only_wakeup a L"
  shows "\<exists>w'. turn_events (get_loop p) (upd_loop_at p) (server_handle os tid alive accepting p) a w = Inr w' \<and>
    loop_moved infra p L w w'"
proof -
  let ?handle = "\<lambda>q. server_handle os tid alive accepting p q (snd a)"
  have ok: "poller_ok (el_poller L)" "wait_doc (fst a) (el_poller L)" using L(2) a by (simp_all add: wake_ok_def only_wakeup_def)
  from poll_safe[OF ok, of "[]"] obtain P new where P: "EPollPoller_poll (fst a) (el_poller L, []) = Inr (P, new)" "poller_ok P"
    "same_but_revents (el_poller L) P" by auto
  have new: "q = wakeupChannel L" if "q \<in> set new" for q
    using poll_active[OF P(1)] a that by (auto simp: only_wakeup_def split: sys.splits)
  let ?M = "L\<lparr>el_poller := P, activeChannels := new, pollReturnTime := snd a\<rparr>"
  let ?w = "w\<lparr>wloops := (wloops w)(p \<mapsto> ?M)\<rparr>"
  have start: "loop_moved infra p L w ?w"
    using wake_ok_poll[OF L(2) P(3,2)] P(3) unfolding loop_moved_def by (intro exI[of _ ?M]) simp
  have step: "\<exists>w2. ?handle q w1 = Inr w2 \<and> loop_moved infra p L w w2" if q: "q \<in> set new" and w1: "loop_moved infra p L w w1" for q w1
  proof -
    obtain M where M: "wloops w1 p = Some M" "wake_ok infra M" "wakeupChannel M = wakeupChannel L"
      using w1 by (auto simp: loop_moved_def)
    then obtain ch where ch: "chans (el_poller M) q = Some ch" "callbacks_of ch = (Some LoopHandleRead, None, None, None)"
      using new[OF q] by (auto elim: wake_okE)
    have due: "cb = LoopHandleRead" if "cb \<in> set (due ch)" for cb
      using due_callbacks[OF that] ch(2) by (auto simp: callbacks_of_def)
    have "\<exists>w2. foldR (\<lambda>cb. server_invoke os tid accepting p cb (snd a)) (due ch) w1 = Inr w2 \<and> loop_moved infra p L w w2"
    proof (rule foldR_total[where P = "loop_moved infra p L w", OF w1])
      fix cb w2
      assume "cb \<in> set (due ch)" and w2: "loop_moved infra p L w w2"
      then have "cb = LoopHandleRead" using due by simp
      moreover have "loop_moved infra p L w (upd_loop_at p EventLoop_handleRead w2)"
        by (rule loop_moved_upd[OF w2]) (simp_all add: EventLoop_handleRead_def)
      ultimately show "\<exists>w3. server_invoke os tid accepting p cb (snd a) w2 = Inr w3 \<and> loop_moved infra p L w w3"
        by (simp add: server_invoke_def)
    qed
    with w1 M ch(1) show ?thesis
      by (auto simp: server_handle_def loop_at_Some Channel_handleEvent_def handleEventWithGuard_due split: option.split)
  qed
  have "turn_events (get_loop p) (upd_loop_at p) (server_handle os tid alive accepting p) a w = foldR ?handle new ?w"
    using L(1) P(1) by (simp add: turn_events_def Let_def get_loop_def upd_loop_at_def)
  with foldR_total[where P = "loop_moved infra p L w", OF start step] show ?thesis by simp
qed

section \<open>The connections of the loop\<close>

text \<open>What \<open>connectDestroyed\<close> leaves of a connection in its poller: nothing but the channel object.\<close>

definition let_go :: "tcp_conn \<Rightarrow> poller \<Rightarrow> bool" where
  "let_go c P \<longleftrightarrow> bound c P \<and> chan_fd (conn_channel c) (sockfd c) P \<and> channelMap P (sockfd c) = None"

text \<open>What never changes of a connection.\<close>

definition key :: "tcp_conn \<Rightarrow> nat \<times> ptr \<times> ptr \<times> fd" where
  "key c = (conn_id c, conn_loop c, conn_channel c, sockfd c)"

lemma bound_not_wake: "bound c (el_poller L) \<Longrightarrow> wake_ok infra L \<Longrightarrow> conn_channel c \<noteq> wakeupChannel L"
  by (auto simp: bound_def wake_ok_def)

lemma let_go_frame:
  assumes "let_go d P" and "poller_frame (conn_channel c) (sockfd c) P P'" and "chan_fd (conn_channel c) (sockfd c) P"
    and "conn_channel d \<noteq> conn_channel c" and "sockfd d \<noteq> sockfd c"
  shows "let_go d P'"
  using assms by (auto simp: let_go_def bound_def poller_frame_def chan_fd_def)

text \<open>The task has run for connection \<open>c\<close> on the loop \<open>L\<close> at \<open>p\<close>.\<close>

definition destroyed :: "fd set \<Rightarrow> ptr \<Rightarrow> nat \<Rightarrow> tcp_conn \<Rightarrow> event_loop \<Rightarrow> world \<Rightarrow> world \<Rightarrow> bool" where
  "destroyed infra p i c L w w' \<longleftrightarrow> (\<exists>c' L'.
     w' = w\<lparr>wconns := (wconns w)(i \<mapsto> c'), wloops := (wloops w)(p \<mapsto> L')\<rparr> \<and> key c' = key c \<and>
     conn_state c' \<noteq> kConnected \<and> let_go c' (el_poller L') \<and> poller_ok (el_poller L') \<and>
     (wake_ok infra L \<longrightarrow> wake_ok infra L') \<and> threadId L' = threadId L \<and> quit L' = quit L \<and> pendingFunctors L' = pendingFunctors L \<and>
     poller_frame (conn_channel c) (sockfd c) (el_poller L) (el_poller L'))"

lemma destroy_task:
  assumes os: "env_ok os" and c: "wconns w i = Some c" "conn_loop c = p" "conn_id c = i"
    and L: "wloops w p = Some L" "threadId L = tid" and fit: "fit c (el_poller L)" "bound c (el_poller L)"
    and infra: "sockfd c \<notin> infra"
  shows "safely (world_functor os tid r (F_connectDestroyed i) w) (destroyed infra p i c L w)"
proof -
  let ?s = "conn_in c L w"
  have ok: "conn_ok tid ?s" using fit_conn_ok[OF fit(1)] L(2) by simp
  have p: "profile_ok (profile_of ?s)" "implements (profile_of ?s) tid (abs_conn ?s) ?s"
    using ok by (simp_all add: conn_ok_def)
  have quiet: "atasks (a_destroyed os q a) = atasks a" "anotices (a_destroyed os q a) = anotices a" for q a
    using a_notify_disconnected(3,4)[of "a\<lparr>astate := kDisconnected\<rparr>" os q] by (simp_all add: a_destroyed_def)
  have "safely (connectDestroyed os tid ?s) (\<lambda>t. implements (profile_of ?s) tid (a_destroyed os (profile_of ?s) (abs_conn ?s)) t \<and>
      (watched (el_poller (cloop t)) (sockfd c) = None \<and> channelMap (el_poller (cloop t)) (sockfd c) = None \<and>
        conn_state (conn t) \<noteq> kConnected))"
    using safely_conj[OF connectDestroyed_implements[OF os p] connectDestroyed_unmaps[OF os ok]] by simp
  note safe = safely_ends[OF this kept.connectDestroyed_R[OF keeps_refl]]
  have run: "world_functor os tid r (F_connectDestroyed i) w = bindR (connectDestroyed os tid ?s) (\<lambda>t.
      foldR (TcpServer_removeConnection tid) (upcalls t)
        (w\<lparr>wconns := (wconns w)(i \<mapsto> conn t), wloops := (wloops w)(p \<mapsto> cloop t)\<rparr>))"
    using c L by (simp add: on_conn_def conn_at_Some loop_at_Some)
  show ?thesis
    unfolding run safely_bind
  proof (rule safely_mono[OF safe])
    fix t
    assume t: "(implements (profile_of ?s) tid (a_destroyed os (profile_of ?s) (abs_conn ?s)) t \<and>
        watched (el_poller (cloop t)) (sockfd c) = None \<and> channelMap (el_poller (cloop t)) (sockfd c) = None \<and>
        conn_state (conn t) \<noteq> kConnected) \<and> keeps ?s t"
    then have st: "stands (profile_of ?s) tid (a_destroyed os (profile_of ?s) (abs_conn ?s)) t" by (simp add: implements_def)
    then have abs: "pendingFunctors (cloop t) = pendingFunctors L" "upcalls t = []"
    proof -
      have "abs_conn t = a_destroyed os (profile_of ?s) (abs_conn ?s)" using st by (simp add: stands_def)
      then have "atasks (abs_conn t) = atasks (abs_conn ?s)" "anotices (abs_conn t) = anotices (abs_conn ?s)"
        using quiet by metis+
      then show "pendingFunctors (cloop t) = pendingFunctors L" "upcalls t = []" by (simp_all add: abs_conn_def)
    qed
    have k: "key (conn t) = key c" "threadId (cloop t) = tid" "quit (cloop t) = quit L"
      "wakeupChannel (cloop t) = wakeupChannel L" "wakeupFd (cloop t) = wakeupFd L"
      "poller_frame (conn_channel c) (sockfd c) (el_poller L) (el_poller (cloop t))"
      using t L(2) by (simp_all add: keeps_def key_def profile_of_def)
    have chan: "chan_fd (conn_channel c) (sockfd c) (el_poller L)" by (rule fitD(2)[OF fit(1)])
    have ok': "poller_ok (el_poller (cloop t))" using st by (simp add: stands_def chan_live_def)
    moreover have "wake_ok infra L \<longrightarrow> wake_ok infra (cloop t)"
    proof
      assume wake: "wake_ok infra L"
      have "conn_channel c \<noteq> wakeupChannel L" "sockfd c \<noteq> wakeupFd L"
        using bound_not_wake[OF fit(2) wake] wake infra by (auto simp: wake_ok_def)
      then show "wake_ok infra (cloop t)"
        by (intro wake_ok_same[OF wake ok']) (use k chan in \<open>auto simp: poller_frame_def\<close>)
    qed
    moreover have "bound (conn t) (el_poller (cloop t))"
      using bound_frame[OF fit(2) k(6) chan] k(1) by (simp add: key_def)
    moreover have "chan_fd (conn_channel c) (sockfd c) (el_poller (cloop t))" using k(6) chan by (simp add: poller_frame_def)
    ultimately have "destroyed infra p i c L w (w\<lparr>wconns := (wconns w)(i \<mapsto> conn t), wloops := (wloops w)(p \<mapsto> cloop t)\<rparr>)"
      using t k abs L(2) unfolding destroyed_def
      by (intro exI[of _ "conn t"] exI[of _ "cloop t"]) (simp add: let_go_def key_def)
    then show "safely (foldR (TcpServer_removeConnection tid) (upcalls t)
        (w\<lparr>wconns := (wconns w)(i \<mapsto> conn t), wloops := (wloops w)(p \<mapsto> cloop t)\<rparr>)) (destroyed infra p i c L w)"
      using abs by simp
  qed
qed

section \<open>The last batch\<close>

definition conns_apart :: "fd set \<Rightarrow> world \<Rightarrow> bool" where
  "conns_apart infra w \<longleftrightarrow> (\<forall>i c. wconns w i = Some c \<longrightarrow> conn_id c = i \<and> sockfd c \<notin> infra) \<and>
     (\<forall>i j c d. wconns w i = Some c \<longrightarrow> wconns w j = Some d \<longrightarrow> i \<noteq> j \<longrightarrow>
        conn_channel c \<noteq> conn_channel d \<and> sockfd c \<noteq> sockfd d)"

text \<open>Only the loop at \<open>p\<close> and its connections change, and no connection changes its key.\<close>

definition elsewhere_same :: "ptr \<Rightarrow> world \<Rightarrow> world \<Rightarrow> bool" where
  "elsewhere_same p w w' \<longleftrightarrow> srv w' = srv w \<and> open_fds w' = open_fds w \<and> (\<forall>q. q \<noteq> p \<longrightarrow> wloops w' q = wloops w q) \<and>
     map_option threadId (wloops w' p) = map_option threadId (wloops w p) \<and>
     (\<forall>i. map_option key (wconns w' i) = map_option key (wconns w i)) \<and>
     (\<forall>i c. wconns w i = Some c \<longrightarrow> conn_loop c \<noteq> p \<longrightarrow> wconns w' i = Some c)"

lemma elsewhere_same_refl [simp]: "elsewhere_same p w w"
  by (simp add: elsewhere_same_def)

lemma elsewhere_same_trans: "elsewhere_same p w x \<Longrightarrow> elsewhere_same p x y \<Longrightarrow> elsewhere_same p w y"
  by (simp add: elsewhere_same_def)

lemma same_keyD: "map_option key (wconns w' i) = map_option key (wconns w i) \<Longrightarrow> wconns w' i = Some c' \<Longrightarrow>
    \<exists>c. wconns w i = Some c \<and> key c' = key c"
  by (cases "wconns w i") auto

lemma conns_apart_same:
  assumes "conns_apart infra w" and "elsewhere_same p w w'"
  shows "conns_apart infra w'"
proof -
  have old: "\<exists>c. wconns w i = Some c \<and> key c' = key c" if "wconns w' i = Some c'" for i c'
  proof -
    have "map_option key (wconns w' i) = map_option key (wconns w i)" using assms(2) by (simp add: elsewhere_same_def)
    from same_keyD[OF this that] show ?thesis .
  qed
  have "conn_id c' = i \<and> sockfd c' \<notin> infra" if "wconns w' i = Some c'" for i c'
    using old[OF that] assms(1) by (auto simp: conns_apart_def key_def)
  moreover have "conn_channel c' \<noteq> conn_channel d' \<and> sockfd c' \<noteq> sockfd d'"
    if ij: "wconns w' i = Some c'" "wconns w' j = Some d'" "i \<noteq> j" for i j c' d'
  proof -
    obtain c d where cd: "wconns w i = Some c" "wconns w j = Some d" "key c' = key c" "key d' = key d"
      using old[OF ij(1)] old[OF ij(2)] by blast
    then have "conn_channel c \<noteq> conn_channel d \<and> sockfd c \<noteq> sockfd d"
      using assms(1) ij(3) unfolding conns_apart_def by blast
    with cd(3,4) show ?thesis by (simp add: key_def)
  qed
  ultimately show ?thesis unfolding conns_apart_def by blast
qed

text \<open>
  The loop at \<open>p\<close> on its way out: it has been told to quit and has no further task; the connections
  of \<open>I\<close> have still to be destroyed, those of \<open>J\<close> have been.
\<close>

definition winding_down :: "fd set \<Rightarrow> ptr \<Rightarrow> nat set \<Rightarrow> nat set \<Rightarrow> world \<Rightarrow> bool" where
  "winding_down infra p I J w \<longleftrightarrow> (\<exists>L. wloops w p = Some L \<and> quit L \<and> pendingFunctors L = [] \<and> wake_ok infra L \<and>
     (\<forall>i \<in> I. \<exists>c. wconns w i = Some c \<and> conn_loop c = p \<and> fit c (el_poller L) \<and> bound c (el_poller L)) \<and>
     (\<forall>j \<in> J. \<exists>c. wconns w j = Some c \<and> conn_loop c = p \<and> conn_state c \<noteq> kConnected \<and> let_go c (el_poller L)))"

lemma destroy_next:
  assumes os: "env_ok os" and apart: "conns_apart infra w" and w: "winding_down infra p (insert i I) J w"
    and i: "i \<notin> I" "i \<notin> J" and tid: "in_thread p tid w"
  shows "safely (world_functor os tid r (F_connectDestroyed i) w) (\<lambda>w'. elsewhere_same p w w' \<and> winding_down infra p I (insert i J) w')"
proof -
  obtain L where L: "wloops w p = Some L" "quit L" "pendingFunctors L = []" "wake_ok infra L"
    and I: "\<And>j. j \<in> insert i I \<Longrightarrow> \<exists>c. wconns w j = Some c \<and> conn_loop c = p \<and> fit c (el_poller L) \<and> bound c (el_poller L)"
    and J: "\<And>j. j \<in> J \<Longrightarrow> \<exists>c. wconns w j = Some c \<and> conn_loop c = p \<and> conn_state c \<noteq> kConnected \<and> let_go c (el_poller L)"
    using w by (auto simp: winding_down_def)
  obtain c where c: "wconns w i = Some c" "conn_loop c = p" "fit c (el_poller L)" "bound c (el_poller L)" using I[of i] by blast
  have id: "conn_id c = i" "sockfd c \<notin> infra" using apart c(1) by (auto simp: conns_apart_def)
  have T: "threadId L = tid" using tid L(1) by (simp add: in_thread_def)
  have chan: "chan_fd (conn_channel c) (sockfd c) (el_poller L)" by (rule fitD(2)[OF c(3)])
  have ne: "conn_channel d \<noteq> conn_channel c" "sockfd d \<noteq> sockfd c" if "wconns w j = Some d" "j \<noteq> i" for j d
    using apart that c(1) unfolding conns_apart_def by metis+
  from destroy_task[OF os c(1,2) id(1) L(1) T c(3,4) id(2)] show ?thesis
  proof (rule safely_mono)
    fix w'
    assume "destroyed infra p i c L w w'"
    then obtain c' L' where w': "w' = w\<lparr>wconns := (wconns w)(i \<mapsto> c'), wloops := (wloops w)(p \<mapsto> L')\<rparr>" "key c' = key c"
      "conn_state c' \<noteq> kConnected" "let_go c' (el_poller L')" "wake_ok infra L'" "threadId L' = threadId L"
      "quit L' = quit L" "pendingFunctors L' = pendingFunctors L"
      "poller_frame (conn_channel c) (sockfd c) (el_poller L) (el_poller L')"
      using L(4) by (auto simp: destroyed_def)
    have ok': "poller_ok (el_poller L')" "conn_loop c' = p" using w'(2,5) c(2) by (simp_all add: wake_ok_def key_def)
    have "elsewhere_same p w w'" using w'(2,6) L(1) c(1,2) by (auto simp: w'(1) elsewhere_same_def)
    moreover have "\<exists>d. wconns w' j = Some d \<and> conn_loop d = p \<and> fit d (el_poller L') \<and> bound d (el_poller L')" if j: "j \<in> I" for j
    proof -
      obtain d where d: "wconns w j = Some d" "conn_loop d = p" "fit d (el_poller L)" "bound d (el_poller L)" using I j by blast
      have "j \<noteq> i" using j i by blast
      note n = ne[OF d(1) this]
      have "fit d (el_poller L')" by (rule fit_frame[OF d(3) w'(9) chan ok'(1) n])
      moreover have "bound d (el_poller L')" using d(4) w'(9) chan n by (simp add: bound_def poller_frame_def)
      ultimately show ?thesis using d \<open>j \<noteq> i\<close> by (simp add: w'(1))
    qed
    moreover have "\<exists>d. wconns w' j = Some d \<and> conn_loop d = p \<and> conn_state d \<noteq> kConnected \<and> let_go d (el_poller L')"
      if j: "j \<in> insert i J" for j
    proof (cases "j = i")
      case True
      with w' c(2) show ?thesis by (simp add: key_def)
    next
      case False
      then obtain d where d: "wconns w j = Some d" "conn_loop d = p" "conn_state d \<noteq> kConnected" "let_go d (el_poller L)"
        using J j by blast
      with let_go_frame[OF d(4) w'(9) chan ne[OF d(1) False]] False show ?thesis by (simp add: w'(1))
    qed
    ultimately show "elsewhere_same p w w' \<and> winding_down infra p I (insert i J) w'"
      using w' ok' L by (simp add: winding_down_def)
  qed
qed

lemma destroy_batch:
  assumes "env_ok os" and "conns_apart infra w" and "winding_down infra p (set is) J w" and "distinct is" "set is \<inter> J = {}"
    and "in_thread p tid w"
  shows "safely (foldR (world_functor os tid r) (map F_connectDestroyed is) w)
    (\<lambda>w'. elsewhere_same p w w' \<and> winding_down infra p {} (set is \<union> J) w')"
  using assms(2-)
proof (induction "is" arbitrary: w J)
  case Nil
  then show ?case by simp
next
  case (Cons i "is")
  have "safely (world_functor os tid r (F_connectDestroyed i) w)
      (\<lambda>w'. elsewhere_same p w w' \<and> winding_down infra p (set is) (insert i J) w')"
    using Cons.prems by (intro destroy_next[OF assms(1)]) auto
  then show ?case
    unfolding list.map foldR.simps safely_bind
  proof (rule safely_mono)
    fix u
    assume u: "elsewhere_same p w u \<and> winding_down infra p (set is) (insert i J) u"
    have "in_thread p tid u"
      using u Cons.prems(5) by (auto simp: in_thread_def elsewhere_same_def split: option.splits)
    then have "safely (foldR (world_functor os tid r) (map F_connectDestroyed is) u)
        (\<lambda>w'. elsewhere_same p u w' \<and> winding_down infra p {} (set is \<union> insert i J) w')"
      using Cons.prems u conns_apart_same by (intro Cons.IH) auto
    then show "safely (foldR (world_functor os tid r) (map F_connectDestroyed is) u)
        (\<lambda>w'. elsewhere_same p w w' \<and> winding_down infra p {} (set (i # is) \<union> J) w')"
      by (rule safely_mono) (use u elsewhere_same_trans in auto)
  qed
qed

section \<open>The end of the connections\<close>

text \<open>The server's map or a closure in a queue holds a \<open>shared_ptr\<close> to the connection.\<close>

definition referenced :: "world \<Rightarrow> nat \<Rightarrow> bool" where
  "referenced w i \<longleftrightarrow> pinned (view_at (\<lambda>_. []) w) i"

lemma referenced_iff:
  "referenced w i \<longleftrightarrow> i \<in> snd ` set (connections (srv w)) \<or>
     (\<exists>p L F. wloops w p = Some L \<and> F \<in> set (pendingFunctors L) \<and> about i F \<and> \<not> raw_this F)"
proof -
  have queue: "F \<in> set (v_queue (view_at (\<lambda>_. []) w) p) \<longleftrightarrow> (\<exists>L. wloops w p = Some L \<and> F \<in> set (pendingFunctors L))" for p F
    by (cases "wloops w p") (simp_all add: view_at_def)
  show ?thesis unfolding referenced_def pinned_def Bex_def queue by (simp only: view_at_simps) blast
qed

text \<open>The connections of \<open>K\<close>, all of the loop at \<open>p\<close>, have been freed.\<close>

definition freed :: "ptr \<Rightarrow> nat set \<Rightarrow> world \<Rightarrow> world \<Rightarrow> bool" where
  "freed p K w w' \<longleftrightarrow> srv w' = srv w \<and> (\<forall>q. q \<noteq> p \<longrightarrow> wloops w' q = wloops w q) \<and> wconns w' = wconns w |` (- K) \<and>
     open_fds w' = open_fds w - {fd. \<exists>i c. i \<in> K \<and> wconns w i = Some c \<and> sockfd c = fd} \<and>
     map_option pendingFunctors (wloops w' p) = map_option pendingFunctors (wloops w p)"

lemma freed_refl: "freed p {} w w"
  by (simp add: freed_def restrict_map_def)

lemma freed_trans: "freed p J w x \<Longrightarrow> freed p K x y \<Longrightarrow> freed p (J \<union> K) w y"
proof -
  assume w: "freed p J w x" and x: "freed p K x y"
  have old: "wconns x i = Some c \<longleftrightarrow> i \<notin> J \<and> wconns w i = Some c" for i c using w by (auto simp: freed_def restrict_map_def)
  have "open_fds y = open_fds w - {fd. \<exists>i c. i \<in> J \<union> K \<and> wconns w i = Some c \<and> sockfd c = fd}"
    using w x old unfolding freed_def by blast
  then show "freed p (J \<union> K) w y" using w x by (auto simp: freed_def restrict_map_def fun_eq_iff)
qed

lemma freed_referenced:
  assumes "freed p K w w'"
  shows "referenced w' i = referenced w i"
proof -
  have q: "map_option pendingFunctors (wloops w' q) = map_option pendingFunctors (wloops w q)" for q
    using assms by (cases "q = p") (simp_all add: freed_def)
  have "(\<exists>L. wloops w' q = Some L \<and> F \<in> set (pendingFunctors L)) = (\<exists>L. wloops w q = Some L \<and> F \<in> set (pendingFunctors L))" for q F
    using q[of q] by (cases "wloops w q"; cases "wloops w' q") auto
  moreover have "srv w' = srv w" using assms by (simp add: freed_def)
  ultimately show ?thesis unfolding referenced_iff by metis
qed

lemma freed_apart: "conns_apart infra w \<Longrightarrow> freed p K w w' \<Longrightarrow> conns_apart infra w'"
  by (auto simp: conns_apart_def freed_def restrict_map_def split: if_splits)

lemma let_go_unmapped:
  assumes "let_go c P" and "poller_ok P"
  shows "channelMap P fd \<noteq> Some (conn_channel c)"
proof
  assume "channelMap P fd = Some (conn_channel c)"
  from this poller_okD(2)[OF assms(2) this] show False using assms(1) by (auto simp: let_go_def chan_fd_def)
qed

lemma poller_ok_less:
  assumes "poller_ok P" and "\<And>fd. channelMap P fd \<noteq> Some q"
  shows "poller_ok (P\<lparr>chans := (chans P)(q := None)\<rparr>)"
  using assms by (fastforce simp: poller_ok_def chan_ok_def)

lemma release_one:
  assumes apart: "conns_apart infra w" and w: "winding_down infra p {} J w" and i: "i \<in> J" "\<not> referenced w i"
  shows "\<exists>w'. release referenced i w = Inr w' \<and> winding_down infra p {} (J - {i}) w' \<and> freed p {i} w w'"
proof -
  obtain L where L: "wloops w p = Some L" "quit L" "pendingFunctors L = []" "wake_ok infra L"
    and J: "\<And>j. j \<in> J \<Longrightarrow> \<exists>c. wconns w j = Some c \<and> conn_loop c = p \<and> conn_state c \<noteq> kConnected \<and> let_go c (el_poller L)"
    using w by (auto simp: winding_down_def)
  obtain c where c: "wconns w i = Some c" "conn_loop c = p" "let_go c (el_poller L)" using J[OF i(1)] by blast
  then obtain ch where ch: "chans (el_poller L) (conn_channel c) = Some ch" by (auto simp: let_go_def bound_def)
  let ?L = "Channel_delete (conn_channel c) L"
  let ?w = "w\<lparr>wconns := (wconns w)(i := None), wloops := (wloops w)(p \<mapsto> ?L), open_fds := open_fds w - {sockfd c}\<rparr>"
  have ok: "poller_ok (el_poller L)" using L(4) by (simp add: wake_ok_def)
  have "release referenced i w = Inr ?w"
    using c(1,2) i(2) L(1) ch by (simp add: release_def TcpConnection_delete_Inr)
  moreover have "freed p {i} w ?w" using c(1) L(1) by (auto simp: freed_def restrict_map_def Channel_delete_def)
  moreover have "wake_ok infra ?L"
    using wake_ok_same[OF L(4), of ?L] poller_ok_less[OF ok let_go_unmapped[OF c(3) ok]] bound_not_wake[OF _ L(4), of c] c(3)
    by (simp add: Channel_delete_def let_go_def)
  moreover have "\<exists>d. wconns ?w j = Some d \<and> conn_loop d = p \<and> conn_state d \<noteq> kConnected \<and> let_go d (el_poller ?L)"
    if j: "j \<in> J - {i}" for j
  proof -
    obtain d where d: "wconns w j = Some d" "conn_loop d = p" "conn_state d \<noteq> kConnected" "let_go d (el_poller L)"
      using J j by blast
    then have "conn_channel d \<noteq> conn_channel c" using apart c(1) j unfolding conns_apart_def by blast
    with d j show ?thesis by (simp add: let_go_def bound_def chan_fd_def Channel_delete_def)
  qed
  ultimately show ?thesis
    using L by (intro exI[of _ ?w]) (auto simp: winding_down_def Channel_delete_def)
qed

lemma release_all:
  assumes "conns_apart infra w" and "winding_down infra p {} J w" and "set js \<subseteq> J" "distinct js"
    and "\<And>i. i \<in> set js \<Longrightarrow> \<not> referenced w i"
  shows "\<exists>w'. foldR (release referenced) js w = Inr w' \<and> winding_down infra p {} (J - set js) w' \<and> freed p (set js) w w'"
  using assms
proof (induction js arbitrary: w J)
  case Nil
  then show ?case using freed_refl by auto
next
  case (Cons i js)
  then obtain u where u: "release referenced i w = Inr u" "winding_down infra p {} (J - {i}) u" "freed p {i} w u"
    using release_one[of infra w p J i] by auto
  have "\<exists>w'. foldR (release referenced) js u = Inr w' \<and> winding_down infra p {} (J - {i} - set js) w' \<and> freed p (set js) u w'"
    using Cons.prems u(2) freed_apart[OF Cons.prems(1) u(3)] freed_referenced[OF u(3)] by (intro Cons.IH) auto
  then obtain w' where w': "foldR (release referenced) js u = Inr w'" "winding_down infra p {} (J - {i} - set js) w'" "freed p (set js) u w'"
    by blast
  have "J - {i} - set js = J - set (i # js)" by auto
  with w' u(1) freed_trans[OF u(3) w'(3)] show ?case by auto
qed

section \<open>The end of a thread\<close>

lemma fit_bound_revents:
  assumes "same_but_revents P P'" and "poller_ok P'"
  shows "fit c P \<Longrightarrow> fit c P'" "bound c P \<Longrightarrow> bound c P'"
  using fit_revents[OF _ assms] same_but_reventsD(4)[OF assms(1), of "conn_channel c"] by (auto simp: bound_def)

lemma winding_down_upd:
  assumes "winding_down infra p I J w"
    and "\<And>L. el_poller (f L) = el_poller L" "\<And>L. pendingFunctors (f L) = pendingFunctors L" "\<And>L. quit (f L) = quit L"
      "\<And>L. wakeupChannel (f L) = wakeupChannel L" "\<And>L. wakeupFd (f L) = wakeupFd L"
  shows "winding_down infra p I J (upd_loop_at p f w)"
proof -
  obtain L where L: "wloops w p = Some L" "quit L" "pendingFunctors L = []" "wake_ok infra L"
    "\<forall>i \<in> I. \<exists>c. wconns w i = Some c \<and> conn_loop c = p \<and> fit c (el_poller L) \<and> bound c (el_poller L)"
    "\<forall>j \<in> J. \<exists>c. wconns w j = Some c \<and> conn_loop c = p \<and> conn_state c \<noteq> kConnected \<and> let_go c (el_poller L)"
    using assms(1) by (auto simp: winding_down_def)
  have "wake_ok infra (f L)" by (rule wake_ok_same[OF L(4)]) (use L(4) assms in \<open>auto simp: wake_ok_def\<close>)
  with L assms(2-6) show ?thesis by (simp add: winding_down_def get_loop_def)
qed

text \<open>The loop at \<open>p\<close> has its last tasks, the \<open>connectDestroyed\<close> of all its connections.\<close>

definition last_tasks :: "fd set \<Rightarrow> ptr \<Rightarrow> nat list \<Rightarrow> event_loop \<Rightarrow> world \<Rightarrow> bool" where
  "last_tasks infra p is L w \<longleftrightarrow> wloops w p = Some L \<and> wake_ok infra L \<and> pendingFunctors L = map F_connectDestroyed is \<and>
     distinct is \<and>
     (\<forall>i \<in> set is. \<exists>c. wconns w i = Some c \<and> conn_loop c = p \<and> fit c (el_poller L) \<and> bound c (el_poller L))"

text \<open>The thread of the loop at \<open>p\<close> and the connections \<open>K\<close> are gone.\<close>

definition thread_gone :: "ptr \<Rightarrow> nat set \<Rightarrow> world \<Rightarrow> world \<Rightarrow> bool" where
  "thread_gone p K w w' \<longleftrightarrow> srv w' = srv w \<and> (\<forall>q. q \<noteq> p \<longrightarrow> wloops w' q = wloops w q) \<and> wloops w' p = None \<and>
     dom (wconns w') = dom (wconns w) - K \<and> (\<forall>i. i \<notin> K \<longrightarrow> map_option key (wconns w' i) = map_option key (wconns w i)) \<and>
     (\<forall>i c. wconns w i = Some c \<longrightarrow> conn_loop c \<noteq> p \<longrightarrow> i \<notin> K \<longrightarrow> wconns w' i = Some c) \<and>
     open_fds w' = open_fds w - {fd. \<exists>i c. i \<in> K \<and> wconns w i = Some c \<and> sockfd c = fd}"

lemma closures_end_destroyed: "closures_end alive (map F_connectDestroyed is) = foldR (release alive) is"
  by (simp add: closures_end_def List.map_filter_def comp_def)

lemma leave_loop:
  assumes os: "env_ok os" and w: "winding_down infra p {} {} w" and fds: "infra \<inter> open_fds w = {}"
  shows "\<exists>w'. bindR (loop_while (get_loop p) (upd_loop_at p) handle run [] w) (\<lambda>(u, returned).
        if returned then bindR (EventLoop_free os alive p u) (\<lambda>v. Inr (v, True)) else Inr (u, False)) = Inr (w', True) \<and>
    srv w' = srv w \<and> wloops w' = (wloops w)(p := None) \<and> wconns w' = wconns w \<and> open_fds w' = open_fds w"
proof -
  let ?u = "upd_loop_at p (\<lambda>L. L\<lparr>looping := False\<rparr>) w"
  have "winding_down infra p {} {} ?u" by (rule winding_down_upd[OF w]) simp_all
  then obtain L where L: "wloops ?u p = Some L" "pendingFunctors L = []" "wake_ok infra L" by (auto simp: winding_down_def)
  from EventLoop_delete_ok[OF env_okD(1)[OF os] L(3)] obtain P where P: "EventLoop_delete os L = Inr (L\<lparr>el_poller := P\<rparr>, None)" by blast
  have "quit (get_loop p w)" using w by (auto simp: winding_down_def get_loop_def)
  then have "loop_while (get_loop p) (upd_loop_at p) handle run [] w = Inr (?u, True)" by (simp add: loop_while_quit)
  moreover have "open_fds w - {wakeupFd L} = open_fds w" using fds L(3) by (auto simp: wake_ok_def)
  ultimately show ?thesis
    using L(1,2) P by (simp add: EventLoop_free_def loop_at_Some closures_end_def List.map_filter_def close_fd_def upd_loop_at_def)
qed

text \<open>From the swap of the queue to the end of the swapped closures.\<close>

lemma last_batch:
  assumes os: "env_ok os" and apart: "conns_apart infra w" and L: "last_tasks infra p is L w" "quit L" "threadId L = tid"
    and alone: "\<And>i. i \<in> set is \<Longrightarrow> i \<notin> snd ` set (connections (srv w))"
      "\<And>i q M F. i \<in> set is \<Longrightarrow> q \<noteq> p \<Longrightarrow> wloops w q = Some M \<Longrightarrow> F \<in> set (pendingFunctors M) \<Longrightarrow> \<not> about i F"
  shows "safely (bindR (doPendingFunctors (get_loop p) (upd_loop_at p) (world_functor os tid r) w)
      (closures_end referenced (pendingFunctors (get_loop p w))))
    (\<lambda>w'. winding_down infra p {} {} w' \<and> (\<exists>v. elsewhere_same p w v \<and> freed p (set is) v w'))"
proof -
  let ?f = "\<lambda>L. L\<lparr>callingPendingFunctors := True, pendingFunctors := []\<rparr>" and ?g = "\<lambda>L. L\<lparr>callingPendingFunctors := False\<rparr>"
  let ?w = "upd_loop_at p ?f w"
  have loop: "wloops w p = Some L" "get_loop p w = L" using L(1) by (simp_all add: last_tasks_def get_loop_def)
  have "wake_ok infra (?f L)" by (rule wake_ok_same) (use L(1) in \<open>auto simp: last_tasks_def wake_ok_def\<close>)
  then have wind: "winding_down infra p (set is) {} ?w" using L(1,2) loop by (simp add: winding_down_def last_tasks_def)
  have e1: "elsewhere_same p w ?w" using loop by (simp add: elsewhere_same_def)
  have "in_thread p tid ?w" using loop L(3) by (simp add: in_thread_def)
  moreover have "distinct is" using L(1) by (simp add: last_tasks_def)
  ultimately have batch: "safely (foldR (world_functor os tid r) (map F_connectDestroyed is) ?w)
      (\<lambda>u. elsewhere_same p ?w u \<and> winding_down infra p {} (set is) u)"
    using destroy_batch[OF os conns_apart_same[OF apart e1] wind] by simp
  have tail: "safely (closures_end referenced (map F_connectDestroyed is) (upd_loop_at p ?g u))
      (\<lambda>w'. winding_down infra p {} {} w' \<and> (\<exists>v. elsewhere_same p w v \<and> freed p (set is) v w'))"
    if u: "elsewhere_same p ?w u \<and> winding_down infra p {} (set is) u" for u
  proof -
    let ?v = "upd_loop_at p ?g u"
    have wind': "winding_down infra p {} (set is) ?v" by (rule winding_down_upd[OF conjunct2[OF u]]) simp_all
    then obtain M where M: "wloops ?v p = Some M" "pendingFunctors M = []" by (auto simp: winding_down_def)
    have "elsewhere_same p u ?v" using u by (auto simp: elsewhere_same_def winding_down_def get_loop_def)
    then have e: "elsewhere_same p w ?v" using elsewhere_same_trans[OF e1] elsewhere_same_trans u by blast
    have "\<not> referenced ?v i" if i: "i \<in> set is" for i
    proof -
      have none: "\<not> about i F" if "wloops ?v q = Some N" "F \<in> set (pendingFunctors N)" for q N F
      proof (cases "q = p")
        case True
        with that M show ?thesis by simp
      next
        case False
        then have "wloops w q = Some N" using e that(1) by (simp add: elsewhere_same_def)
        from alone(2)[OF i False this that(2)] show ?thesis .
      qed
      have "i \<notin> snd ` set (connections (srv ?v))" using alone(1)[OF i] e by (simp add: elsewhere_same_def)
      with none show ?thesis unfolding referenced_iff by blast
    qed
    from release_all[OF conns_apart_same[OF apart e] wind' order_refl \<open>distinct is\<close> this] show ?thesis
      using e by (auto simp: closures_end_destroyed)
  qed
  have "doPendingFunctors (get_loop p) (upd_loop_at p) (world_functor os tid r) w =
      bindR (foldR (world_functor os tid r) (map F_connectDestroyed is) ?w) (\<lambda>u. Inr (upd_loop_at p ?g u))"
    using loop L(1) by (simp add: doPendingFunctors_def Let_def upd_loop_at_twice last_tasks_def)
  moreover have "pendingFunctors (get_loop p w) = map F_connectDestroyed is" using loop L(1) by (simp add: last_tasks_def)
  ultimately show ?thesis using batch tail by (simp only: safely_bind safely_simps) (erule safely_mono)
qed

lemma thread_goneI:
  assumes v: "elsewhere_same p w v" and x: "freed p K v x"
    and y: "srv y = srv x" "wloops y = (wloops x)(p := None)" "wconns y = wconns x" "open_fds y = open_fds x"
  shows "thread_gone p K w y"
proof -
  have keys: "map_option key (wconns v i) = map_option key (wconns w i)" for i using v by (simp add: elsewhere_same_def)
  have none: "wconns v i = None \<longleftrightarrow> wconns w i = None" for i using arg_cong[OF keys[of i], of "\<lambda>x. x = None"] by simp
  have sock: "(\<exists>c. wconns v i = Some c \<and> sockfd c = fd) \<longleftrightarrow> (\<exists>c. wconns w i = Some c \<and> sockfd c = fd)" for i fd
    using keys[of i] by (cases "wconns v i"; cases "wconns w i") (auto simp: key_def)
  have conns: "wconns y = wconns v |` (- K)" using x y(3) by (simp add: freed_def)
  have "open_fds y = open_fds w - {fd. \<exists>i. i \<in> K \<and> (\<exists>c. wconns v i = Some c \<and> sockfd c = fd)}"
    using x y(4) v by (auto simp: freed_def elsewhere_same_def)
  then have "open_fds y = open_fds w - {fd. \<exists>i c. i \<in> K \<and> wconns w i = Some c \<and> sockfd c = fd}" by (simp only: sock) blast
  moreover have "dom (wconns y) = dom (wconns w) - K"
  proof -
    have "wconns y i = None \<longleftrightarrow> i \<in> K \<or> wconns w i = None" for i using none by (simp add: conns restrict_map_def)
    then show ?thesis by (auto simp: dom_def)
  qed
  moreover have "map_option key (wconns y i) = map_option key (wconns w i)" if "i \<notin> K" for i
    using keys that by (simp add: conns restrict_map_def)
  moreover have "wconns y i = Some c" if "wconns w i = Some c" "conn_loop c \<noteq> p" "i \<notin> K" for i c
    using v that by (simp add: conns restrict_map_def elsewhere_same_def)
  ultimately show ?thesis using v x y(1,2) by (simp add: thread_gone_def elsewhere_same_def freed_def)
qed

lemma thread_ends:
  assumes os: "env_ok os" and apart: "conns_apart infra w" and L: "last_tasks infra p is L w"
    and io: "fst (io p) = threadId L" "only_wakeup (snd (io p)) L"
    and alone: "\<And>i. i \<in> set is \<Longrightarrow> i \<notin> snd ` set (connections (srv w))"
      "\<And>i q M F. i \<in> set is \<Longrightarrow> q \<noteq> p \<Longrightarrow> wloops w q = Some M \<Longrightarrow> F \<in> set (pendingFunctors M) \<Longrightarrow> \<not> about i F"
    and fds: "infra \<inter> open_fds w = {}"
  shows "safely (EventLoopThread_delete os tid referenced accepting io p w) (\<lambda>(w', joined). joined \<and> thread_gone p (set is) w w')"
proof -
  let ?tid = "threadId L" and ?q = "EventLoop_quit tid"
  let ?w = "upd_loop_at p ?q w" and ?L = "?q L"
  have q: "el_poller ?L = el_poller L" "threadId ?L = threadId L" "pendingFunctors ?L = pendingFunctors L" "quit ?L"
    "wakeupChannel ?L = wakeupChannel L" "wakeupFd ?L = wakeupFd L"
    by (simp_all add: EventLoop_quit_def EventLoop_wakeup_def Let_def)
  have loop: "wloops w p = Some L" "wake_ok infra L" using L by (simp_all add: last_tasks_def)
  have "wake_ok infra ?L" by (rule wake_ok_same[OF loop(2)]) (use loop(2) q in \<open>auto simp: wake_ok_def\<close>)
  moreover have "only_wakeup (snd (io p)) ?L" using io(2) q by (simp add: only_wakeup_def)
  ultimately obtain u where u: "turn_events (get_loop p) (upd_loop_at p) (server_handle os ?tid referenced accepting p) (snd (io p)) ?w = Inr u"
    "loop_moved infra p ?L ?w u"
    using wake_turn[of ?w p ?L infra "snd (io p)" os ?tid referenced accepting] loop by (auto simp: get_loop_def)
  then obtain M where M: "u = ?w\<lparr>wloops := (wloops ?w)(p \<mapsto> M)\<rparr>" "wake_ok infra M" "same_but_revents (el_poller L) (el_poller M)"
    "threadId M = ?tid" "pendingFunctors M = pendingFunctors L" "quit M"
    using q by (auto simp: loop_moved_def)
  have ok: "poller_ok (el_poller M)" using M(2) by (simp add: wake_ok_def)
  have same: "wconns u = wconns w" "srv u = srv w" "open_fds u = open_fds w" "\<And>q. q \<noteq> p \<Longrightarrow> wloops u q = wloops w q" "wloops u p = Some M"
    by (simp_all add: M(1))
  have last: "last_tasks infra p is M u"
    unfolding last_tasks_def
  proof (intro conjI ballI)
    fix i
    assume "i \<in> set is"
    then obtain c where c: "wconns w i = Some c" "conn_loop c = p" "fit c (el_poller L)" "bound c (el_poller L)"
      using L by (auto simp: last_tasks_def)
    then show "\<exists>c. wconns u i = Some c \<and> conn_loop c = p \<and> fit c (el_poller M) \<and> bound c (el_poller M)"
      using fit_bound_revents[OF M(3) ok] same(1) by auto
  qed (use L M same in \<open>simp_all add: last_tasks_def\<close>)
  have apart': "conns_apart infra u" using apart by (simp add: conns_apart_def same(1))
  have e: "elsewhere_same p w u" using M(4) loop(1) same by (simp add: elsewhere_same_def)
  note batch = last_batch[OF os apart' last M(6,4), of 0]
  let ?m = "bindR (doPendingFunctors (get_loop p) (upd_loop_at p) (world_functor os ?tid 0) u)
      (closures_end referenced (pendingFunctors (get_loop p u)))"
  let ?k = "\<lambda>x. bindR (loop_while (get_loop p) (upd_loop_at p) (server_handle os ?tid referenced accepting p) (world_functor os ?tid 0) [] x)
      (\<lambda>(w4, returned). if returned then bindR (EventLoop_free os referenced p w4) (\<lambda>w5. Inr (w5, True)) else Inr (w4, False))"
  have run: "EventLoopThread_delete os tid referenced accepting io p w = bindR ?m ?k"
    using loop(1) io(1) u(1) by (simp add: EventLoopThread_delete_def threadFunc_end_def Let_def bindR_assoc loop_at_Some)
  have "safely ?m (\<lambda>w'. winding_down infra p {} {} w' \<and> (\<exists>v. elsewhere_same p u v \<and> freed p (set is) v w'))"
    by (rule batch) (use alone same in auto)
  then show ?thesis
    unfolding run safely_bind[of ?m]
  proof (rule safely_mono)
    fix x
    assume "winding_down infra p {} {} x \<and> (\<exists>v. elsewhere_same p u v \<and> freed p (set is) v x)"
    then obtain v where x: "winding_down infra p {} {} x" "elsewhere_same p u v" "freed p (set is) v x" by blast
    have v: "elsewhere_same p w v" using elsewhere_same_trans[OF e x(2)] .
    have "infra \<inter> open_fds x = {}" using fds v x(3) by (auto simp: elsewhere_same_def freed_def)
    from leave_loop[OF os x(1) this] obtain y where y: "?k x = Inr (y, True)"
      "srv y = srv x" "wloops y = (wloops x)(p := None)" "wconns y = wconns x" "open_fds y = open_fds x" by blast
    have "thread_gone p (set is) w y" by (rule thread_goneI[OF v x(3) y(2-)])
    with y(1) show "safely (?k x) (\<lambda>(w', joined). joined \<and> thread_gone p (set is) w w')" by simp
  qed
qed

section \<open>The pool, thread by thread\<close>

text \<open>The threads of the loops \<open>ps\<close> have still to end; \<open>own p\<close> are the connections of the loop at \<open>p\<close>.\<close>

definition ending :: "fd set \<Rightarrow> (ptr \<Rightarrow> int \<times> answer) \<Rightarrow> (ptr \<Rightarrow> nat list) \<Rightarrow> ptr list \<Rightarrow> world \<Rightarrow> bool" where
  "ending infra io own ps w \<longleftrightarrow> distinct ps \<and> connections (srv w) = [] \<and> conns_apart infra w \<and> infra \<inter> open_fds w = {} \<and>
     (\<forall>p \<in> set ps. \<exists>L. last_tasks infra p (own p) L w \<and> fst (io p) = threadId L \<and> only_wakeup (snd (io p)) L) \<and>
     (\<forall>q L. q \<notin> set ps \<longrightarrow> wloops w q = Some L \<longrightarrow> pendingFunctors L = []) \<and>
     dom (wconns w) = (\<Union>p \<in> set ps. set (own p)) \<and>
     open_fds w = {fd. \<exists>i c. wconns w i = Some c \<and> sockfd c = fd}"

lemma ending_due:
  assumes "ending infra io own ps w" and "p \<in> set ps" and "i \<in> set (own p)"
  shows "\<exists>c. wconns w i = Some c \<and> conn_loop c = p"
  using assms by (fastforce simp: ending_def last_tasks_def)

lemma ending_next:
  assumes w: "ending infra io own (p # ps) w" and gone: "thread_gone p (set (own p)) w w'"
  shows "ending infra io own ps w'"
proof -
  let ?K = "set (own p)"
  have keys: "map_option key (wconns w' i) = map_option key (wconns w i)" if "i \<notin> ?K" for i using gone that by (simp add: thread_gone_def)
  have dom: "dom (wconns w') = dom (wconns w) - ?K" using gone by (simp add: thread_gone_def)
  have old: "\<exists>c. i \<notin> ?K \<and> wconns w i = Some c \<and> key c' = key c" if i: "wconns w' i = Some c'" for i c'
  proof -
    have "i \<notin> ?K" using dom i by blast
    with same_keyD[OF keys[OF this] i] show ?thesis by blast
  qed
  have other: "i \<notin> ?K" "wconns w' i = wconns w i" if q: "q \<in> set ps" "i \<in> set (own q)" for q i
  proof -
    obtain c where c: "wconns w i = Some c" "conn_loop c = q" using ending_due[OF w _ q(2)] q(1) by auto
    have ne: "q \<noteq> p" using w q(1) by (auto simp: ending_def)
    show out: "i \<notin> ?K" using ending_due[OF w, of p i] c ne by auto
    show "wconns w' i = wconns w i" using gone c ne out by (simp add: thread_gone_def)
  qed
  have "open_fds w' \<subseteq> open_fds w" using gone by (auto simp: thread_gone_def)
  moreover have "infra \<inter> open_fds w = {}" using w unfolding ending_def by (elim conjE)
  ultimately have fds: "infra \<inter> open_fds w' = {}" by blast
  have "conns_apart infra w'"
  proof -
    have a: "conns_apart infra w" using w by (simp add: ending_def)
    have "conn_id c' = i \<and> sockfd c' \<notin> infra" if "wconns w' i = Some c'" for i c'
      using old[OF that] a by (auto simp: conns_apart_def key_def)
    moreover have "conn_channel c' \<noteq> conn_channel d' \<and> sockfd c' \<noteq> sockfd d'"
      if ij: "wconns w' i = Some c'" "wconns w' j = Some d'" "i \<noteq> j" for i j c' d'
    proof -
      obtain c d where cd: "wconns w i = Some c" "wconns w j = Some d" "key c' = key c" "key d' = key d"
        using old[OF ij(1)] old[OF ij(2)] by blast
      then have "conn_channel c \<noteq> conn_channel d \<and> sockfd c \<noteq> sockfd d" using a ij(3) unfolding conns_apart_def by blast
      with cd(3,4) show ?thesis by (simp add: key_def)
    qed
    ultimately show ?thesis unfolding conns_apart_def by blast
  qed
  moreover have "\<exists>L. last_tasks infra q (own q) L w' \<and> fst (io q) = threadId L \<and> only_wakeup (snd (io q)) L" if q: "q \<in> set ps" for q
  proof -
    have ne: "q \<noteq> p" using w q by (auto simp: ending_def)
    obtain L where L: "last_tasks infra q (own q) L w" "fst (io q) = threadId L" "only_wakeup (snd (io q)) L"
      using w q by (auto simp: ending_def)
    moreover have "wloops w' q = wloops w q" using gone ne by (simp add: thread_gone_def)
    ultimately show ?thesis using other(2)[OF q] by (intro exI[of _ L]) (simp add: last_tasks_def)
  qed
  moreover have "dom (wconns w') = (\<Union>q \<in> set ps. set (own q))" using dom w other(1) by (auto simp: ending_def)
  moreover have "open_fds w' = {fd. \<exists>i c. wconns w' i = Some c \<and> sockfd c = fd}"
  proof -
    have inj: "i = j" if "wconns w i = Some c" "wconns w j = Some d" "sockfd c = sockfd d" for i j c d
      using w that unfolding ending_def conns_apart_def by metis
    have new: "(\<exists>c. wconns w' i = Some c \<and> sockfd c = fd) \<longleftrightarrow> i \<notin> ?K \<and> (\<exists>c. wconns w i = Some c \<and> sockfd c = fd)" for i fd
    proof (cases "i \<in> ?K")
      case True
      then have "wconns w' i = None" using dom by blast
      with True show ?thesis by simp
    next
      case False
      with keys[OF this] show ?thesis by (cases "wconns w i"; cases "wconns w' i") (auto simp: key_def)
    qed
    have "open_fds w' = {fd. \<exists>i c. wconns w i = Some c \<and> sockfd c = fd} - {fd. \<exists>i c. i \<in> ?K \<and> wconns w i = Some c \<and> sockfd c = fd}"
      using gone w by (simp add: thread_gone_def ending_def)
    also have "\<dots> = {fd. \<exists>i. i \<notin> ?K \<and> (\<exists>c. wconns w i = Some c \<and> sockfd c = fd)}" using inj by blast
    finally show ?thesis unfolding new[symmetric] by blast
  qed
  moreover have "pendingFunctors L = []" if q: "q \<notin> set ps" "wloops w' q = Some L" for q L
    using gone w q by (cases "q = p") (auto simp: thread_gone_def ending_def)
  moreover have "distinct ps" using w by (simp add: ending_def)
  moreover have "connections (srv w') = []" using w gone by (simp add: ending_def thread_gone_def)
  ultimately show ?thesis using fds unfolding ending_def by blast
qed

lemma pool_ends:
  assumes os: "env_ok os" and "ending infra io own ps w"
  shows "safely (EventLoopThreadPool_delete os tid referenced accepting io ps w) (\<lambda>(w', joined). joined \<and>
    wconns w' = Map.empty \<and> open_fds w' = {} \<and> srv w' = srv w \<and> (\<forall>q. wloops w' q = (if q \<in> set ps then None else wloops w q)))"
  using assms(2)
proof (induction ps arbitrary: w)
  case Nil
  then show ?case by (auto simp: ending_def)
next
  case (Cons p ps)
  note w = Cons.prems
  obtain L where L: "last_tasks infra p (own p) L w" "fst (io p) = threadId L" "only_wakeup (snd (io p)) L"
    using w by (auto simp: ending_def)
  have apart: "conns_apart infra w" "infra \<inter> open_fds w = {}" "connections (srv w) = []" using w unfolding ending_def by blast+
  have alone: "\<not> about i F" if i: "i \<in> set (own p)" and q: "q \<noteq> p" "wloops w q = Some M" "F \<in> set (pendingFunctors M)" for i q M F
  proof (cases "q \<in> set ps")
    case True
    then obtain N where "last_tasks infra q (own q) N w" using w by (auto simp: ending_def)
    with q(2,3) obtain j where j: "F = F_connectDestroyed j" "j \<in> set (own q)" by (auto simp: last_tasks_def)
    have "j \<noteq> i" using ending_due[OF w, of p i] ending_due[OF w, of q j] True i j(2) q(1) by auto
    with j(1) show ?thesis by simp
  next
    case False
    then show ?thesis using w q by (auto simp: ending_def)
  qed
  have "safely (EventLoopThread_delete os tid referenced accepting io p w) (\<lambda>(w', joined). joined \<and> thread_gone p (set (own p)) w w')"
    by (rule thread_ends[where io = io, OF os apart(1) L]) (use apart(2,3) alone in auto)
  then show ?case
    unfolding EventLoopThreadPool_delete.simps safely_bind
  proof (rule safely_mono)
    fix r
    assume r: "case r of (w', joined) \<Rightarrow> joined \<and> thread_gone p (set (own p)) w w'"
    obtain u where u: "r = (u, True)" "thread_gone p (set (own p)) w u" using r by (cases r) auto
    from Cons.IH[OF ending_next[OF w u(2)]]
    show "safely (case r of (w1, joined) \<Rightarrow> if joined then EventLoopThreadPool_delete os tid referenced accepting io ps w1 else Inr (w1, False))
        (\<lambda>(w', joined). joined \<and> wconns w' = Map.empty \<and> open_fds w' = {} \<and> srv w' = srv w \<and>
          (\<forall>q. wloops w' q = (if q \<in> set (p # ps) then None else wloops w q)))"
      unfolding u(1) prod.case if_True
      by (rule safely_mono) (use u(2) in \<open>auto simp: thread_gone_def\<close>)
  qed
qed

section \<open>The server\<close>

text \<open>
  A server at rest: the thread \<open>tid\<close> of its base loop calls the destructor, no task is queued and
  nothing happens on the sockets while it runs (\<open>only_wakeup\<close>), every connection is in the map and on
  the loop of an I/O thread, or on the base loop when there are none; the acceptor listens or has
  not yet begun to.
\<close>

definition at_rest :: "fd set \<Rightarrow> int \<Rightarrow> (ptr \<Rightarrow> int \<times> answer) \<Rightarrow> world \<Rightarrow> bool" where
  "at_rest infra tid io w \<longleftrightarrow>
     distinct (loops (threadPool (srv w))) \<and> srv_loop (srv w) \<notin> set (loops (threadPool (srv w))) \<and>
     (\<forall>p \<in> set (loops (threadPool (srv w))). \<exists>L. wloops w p = Some L \<and> threadId L \<noteq> tid \<and> wake_ok infra L \<and>
        fst (io p) = threadId L \<and> only_wakeup (snd (io p)) L) \<and>
     (\<forall>p L. wloops w p = Some L \<longrightarrow> pendingFunctors L = []) \<and>
     (\<forall>i c. wconns w i = Some c \<longrightarrow> i \<in> snd ` set (connections (srv w)) \<and>
        (if loops (threadPool (srv w)) = [] then conn_loop c = srv_loop (srv w) else conn_loop c \<in> set (loops (threadPool (srv w))))) \<and>
     (\<exists>B. wloops w (srv_loop (srv w)) = Some B \<and> threadId B = tid \<and> acceptor_ok (srv_acceptor (srv w)) B) \<and>
     sock_fd (acceptSocket (srv_acceptor (srv w))) \<in> infra"

lemma reactor_apart:
  assumes "reactor_inv infra s"
  shows "conns_apart infra (rw s)" "infra \<inter> open_fds (rw s) = {}"
    "open_fds (rw s) = {fd. \<exists>i c. wconns (rw s) i = Some c \<and> sockfd c = fd}"
proof -
  have winv: "world_inv infra (running s) (rw s)" and finv: "fds_inv infra (rw s)"
    using assms by (simp_all add: reactor_inv_def)
  note vinv = world_invD(1)[OF winv]
  have inj: "inj_on (sock_of (rw s)) (dom (sock_of (rw s)))" and fds: "open_fds (rw s) = ran (sock_of (rw s))"
    and out: "infra \<inter> open_fds (rw s) = {}" using finv unfolding fds_inv_def by blast+
  show "infra \<inter> open_fds (rw s) = {}" by (rule out)
  show socks: "open_fds (rw s) = {fd. \<exists>i c. wconns (rw s) i = Some c \<and> sockfd c = fd}"
    unfolding fds by (auto simp: ran_def sock_of_def)
  have "conn_id c = i \<and> sockfd c \<notin> infra" if c: "wconns (rw s) i = Some c" for i c
  proof -
    obtain L where "wloops (rw s) (conn_loop c) = Some L" using conn_loop_exists[OF winv c] by blast
    from conn_invD(1)[OF view_invD(1)[OF vinv] view_pollers[OF this]] c have "conn_id c = i" by simp
    with out socks c show ?thesis by blast
  qed
  moreover have "conn_channel c \<noteq> conn_channel d \<and> sockfd c \<noteq> sockfd d"
    if ij: "wconns (rw s) i = Some c" "wconns (rw s) j = Some d" "i \<noteq> j" for i j c d
  proof
    show "conn_channel c \<noteq> conn_channel d" using apartD(1)[OF view_invD(5)[OF vinv] ij(3)] ij(1,2) by simp
    show "sockfd c \<noteq> sockfd d"
    proof
      assume "sockfd c = sockfd d"
      then have "i = j" using ij by (intro inj_onD[OF inj]) (auto simp: sock_of_def)
      with ij(3) show False ..
    qed
  qed
  ultimately show "conns_apart infra (rw s)" unfolding conns_apart_def by blast
qed

lemma distinct_ids:
  assumes "srv_ok w"
  shows "distinct (map snd (connections (srv w)))"
proof -
  have "n = m" if "(n, i) \<in> set (connections (srv w))" "(m, i) \<in> set (connections (srv w))" for n m i
    using srv_okD(1)[OF assms that(1)] srv_okD(1)[OF assms that(2)] by auto
  then have "inj_on snd (set (connections (srv w)))" by (auto simp: inj_on_def)
  moreover have "distinct (connections (srv w))" using assms by (auto simp: srv_ok_def distinct_map)
  ultimately show ?thesis by (simp add: distinct_map)
qed

text \<open>The connections of the loop at \<open>p\<close>, in the order of the map.\<close>

definition conns_of :: "world \<Rightarrow> ptr \<Rightarrow> nat list" where
  "conns_of w p = map snd (filter (\<lambda>e. conn_loop (the (wconns w (snd e))) = p) (connections (srv w)))"

lemma conns_of_iff:
  assumes "srv_ok w"
  shows "i \<in> set (conns_of w p) \<longleftrightarrow> i \<in> snd ` set (connections (srv w)) \<and> (\<exists>c. wconns w i = Some c \<and> conn_loop c = p)"
proof -
  have some: "wconns w i = Some (the (wconns w i))" if "(n, i) \<in> set (connections (srv w))" for n
    using srv_okD(1)[OF assms that] by auto
  have "i \<in> set (conns_of w p) \<longleftrightarrow> (\<exists>n. (n, i) \<in> set (connections (srv w)) \<and> conn_loop (the (wconns w i)) = p)"
    by (auto simp: conns_of_def image_iff)
  also have "\<dots> \<longleftrightarrow> (\<exists>n. (n, i) \<in> set (connections (srv w))) \<and> (\<exists>c. wconns w i = Some c \<and> conn_loop c = p)"
    using some by (metis option.sel)
  also have "(\<exists>n. (n, i) \<in> set (connections (srv w))) \<longleftrightarrow> i \<in> snd ` set (connections (srv w))" by force
  finally show ?thesis .
qed

subsection \<open>Connections on the base loop\<close>

lemma watched_of_map:
  assumes "poller_ok P"
  shows "watched P fd = (case channelMap P fd of None \<Rightarrow> None
    | Some q \<Rightarrow> (case chans P q of None \<Rightarrow> None | Some ch \<Rightarrow> if ch_index ch = kAdded then Some (ch_events ch, q) else None))"
proof (cases "channelMap P fd")
  case None
  then show ?thesis using poller_okD(3)[OF assms] by (simp add: watched_def)
next
  case (Some q)
  then obtain ch where ch: "chans P q = Some ch" "ch_fd ch = fd" using poller_okD(2)[OF assms] by blast
  with poller_okD(1)[OF assms ch(1)] Some show ?thesis by (auto simp: chan_ok_def watched_def)
qed

text \<open>The base loop at \<open>p\<close> serves the connections \<open>M\<close> of the map itself.\<close>

definition serving_here :: "fd set \<Rightarrow> int \<Rightarrow> ptr \<Rightarrow> acceptor \<Rightarrow> (string \<times> nat) list \<Rightarrow> world \<Rightarrow> bool" where
  "serving_here infra tid p a M w \<longleftrightarrow> conns_apart infra w \<and> infra \<inter> open_fds w = {} \<and>
     open_fds w = {fd. \<exists>i c. wconns w i = Some c \<and> sockfd c = fd} \<and>
     connections (srv w) = M \<and> distinct (map fst M) \<and> distinct (map snd M) \<and> dom (wconns w) = snd ` set M \<and>
     (\<forall>q L. wloops w q = Some L \<longrightarrow> pendingFunctors L = []) \<and>
     (\<exists>B. wloops w p = Some B \<and> threadId B = tid \<and> acceptor_ok a B \<and>
        (\<forall>i \<in> snd ` set M. \<exists>c. wconns w i = Some c \<and> conn_loop c = p \<and> fit c (el_poller B) \<and> bound c (el_poller B)))"

text \<open>What the loop at \<open>p\<close> no longer watches.\<close>

definition unwatched :: "ptr \<Rightarrow> fd set \<Rightarrow> world \<Rightarrow> world \<Rightarrow> bool" where
  "unwatched p F w w' \<longleftrightarrow> (\<forall>B. wloops w p = Some B \<longrightarrow> (\<exists>B'. wloops w' p = Some B' \<and>
     watched (el_poller B') = (\<lambda>fd. if fd \<in> F then None else watched (el_poller B) fd)))"

lemma unwatched_trans: "unwatched p F w x \<Longrightarrow> unwatched p G x y \<Longrightarrow> unwatched p (F \<union> G) w y"
  by (fastforce simp: unwatched_def fun_eq_iff)

text \<open>A loop whose poller has let a connection go and whose channel has been freed.\<close>

lemma channel_gone:
  assumes c: "let_go c' P'" "poller_ok P'" "key c' = key c"
    and frame: "poller_frame (conn_channel c) (sockfd c) P P'" "chan_fd (conn_channel c) (sockfd c) P" and P: "poller_ok P"
  defines "Q \<equiv> P'\<lparr>chans := (chans P')(conn_channel c := None)\<rparr>"
  shows "poller_ok Q" "watched Q = (\<lambda>fd. if fd = sockfd c then None else watched P fd)"
    "\<And>q. q \<noteq> conn_channel c \<Longrightarrow> chans Q q = chans P q" "\<And>fd. fd \<noteq> sockfd c \<Longrightarrow> channelMap Q fd = channelMap P fd"
proof -
  have k: "conn_channel c' = conn_channel c" "sockfd c' = sockfd c" using c(3) by (simp_all add: key_def)
  show ok: "poller_ok Q" unfolding Q_def k(1)[symmetric] by (rule poller_ok_less[OF c(2) let_go_unmapped[OF c(1,2)]])
  show chans: "\<And>q. q \<noteq> conn_channel c \<Longrightarrow> chans Q q = chans P q" and maps: "\<And>fd. fd \<noteq> sockfd c \<Longrightarrow> channelMap Q fd = channelMap P fd"
    using frame by (simp_all add: Q_def poller_frame_def)
  have none: "channelMap Q (sockfd c) = None" using c(1) k(2) by (simp add: Q_def let_go_def)
  have "watched Q fd = watched P fd" if fd: "fd \<noteq> sockfd c" for fd
  proof (cases "channelMap P fd")
    case None
    with maps[OF fd] show ?thesis by (simp add: watched_of_map[OF ok] watched_of_map[OF P])
  next
    case (Some q)
    then obtain ch where "chans P q = Some ch" "ch_fd ch = fd" using poller_okD(2)[OF P] by blast
    then have "q \<noteq> conn_channel c" using frame(2) fd by (auto simp: chan_fd_def)
    with Some maps[OF fd] chans show ?thesis by (simp add: watched_of_map[OF ok] watched_of_map[OF P])
  qed
  with none show "watched Q = (\<lambda>fd. if fd = sockfd c then None else watched P fd)"
    by (auto simp: fun_eq_iff watched_of_map[OF ok])
qed

lemma serving_less:
  assumes w: "serving_here infra tid p a ((n, i) # M) w" and a: "sock_fd (acceptSocket a) \<in> infra"
    and c: "wconns w i = Some c" and B: "wloops w p = Some B"
    and x: "wconns x = (wconns w)(i := None)" "wloops x = (wloops w)(p \<mapsto> B')" "open_fds x = open_fds w - {sockfd c}"
      "connections (srv x) = M"
    and B': "threadId B' = threadId B" "pendingFunctors B' = []" "poller_ok (el_poller B')"
      "\<And>q. q \<noteq> conn_channel c \<Longrightarrow> chans (el_poller B') q = chans (el_poller B) q"
      "\<And>fd. fd \<noteq> sockfd c \<Longrightarrow> channelMap (el_poller B') fd = channelMap (el_poller B) fd"
  shows "serving_here infra tid p a M x"
proof -
  have apart: "conns_apart infra w" and fds: "infra \<inter> open_fds w = {}" "open_fds w = {fd. \<exists>i c. wconns w i = Some c \<and> sockfd c = fd}"
    and M: "i \<notin> snd ` set M" "distinct (map fst M)" "distinct (map snd M)"
    and dom: "dom (wconns w) = insert i (snd ` set M)" and idle: "\<And>q L. wloops w q = Some L \<Longrightarrow> pendingFunctors L = []"
    and B0: "threadId B = tid" "acceptor_ok a B"
    and served: "\<And>j. j \<in> insert i (snd ` set M) \<Longrightarrow>
      \<exists>c. wconns w j = Some c \<and> conn_loop c = p \<and> fit c (el_poller B) \<and> bound c (el_poller B)"
    using w B unfolding serving_here_def by auto
  have id: "sockfd c \<notin> infra" using apart c by (auto simp: conns_apart_def)
  have ne: "conn_channel d \<noteq> conn_channel c" "sockfd d \<noteq> sockfd c" if "wconns w j = Some d" "j \<noteq> i" for j d
    using apart that c unfolding conns_apart_def by metis+
  have chan: "chan_fd (conn_channel c) (sockfd c) (el_poller B)" using served[of i] c fitD(2) by auto
  have old: "wconns x j = Some d \<longleftrightarrow> wconns w j = Some d \<and> j \<noteq> i" for j d by (auto simp: x(1))
  have only: "d = c" if "wconns w i = Some d" for d using that c by simp
  obtain ca where "chans (el_poller B) (acceptChannel a) = Some ca" "ch_fd ca = sock_fd (acceptSocket a)"
    using B0(2) by (auto simp: acceptor_ok_def split: option.splits)
  moreover from this have "acceptChannel a \<noteq> conn_channel c" "sock_fd (acceptSocket a) \<noteq> sockfd c"
    using chan a id by (auto simp: chan_fd_def)
  ultimately have acc: "acceptor_ok a B'" using B0(2) B'(3-5) by (simp add: acceptor_ok_def fd_free_def)
  have rest: "\<exists>d. wconns x j = Some d \<and> conn_loop d = p \<and> fit d (el_poller B') \<and> bound d (el_poller B')" if j: "j \<in> snd ` set M" for j
  proof -
    obtain d where d: "wconns w j = Some d" "conn_loop d = p" "fit d (el_poller B)" "bound d (el_poller B)" using served j by blast
    have ji: "j \<noteq> i" using j M(1) by blast
    have "fit d (el_poller B')" using B'(3-5) ne[OF d(1) ji] by (intro fit_same[OF d(3)]) simp_all
    moreover have "bound d (el_poller B')" using d(4) B'(4) ne[OF d(1) ji] unfolding bound_def by simp
    ultimately show ?thesis using d ji by (simp add: x(1))
  qed
  have "conns_apart infra x" using apart old unfolding conns_apart_def by blast
  moreover have "infra \<inter> open_fds x = {}" using fds(1) by (auto simp: x(3))
  moreover have "open_fds x = {fd. \<exists>j d. wconns x j = Some d \<and> sockfd d = fd}"
    unfolding x(3) fds(2) old using only ne(2) by blast
  moreover have "dom (wconns x) = snd ` set M" using dom M(1) by (auto simp: x(1))
  moreover have "\<forall>q N. wloops x q = Some N \<longrightarrow> pendingFunctors N = []" using idle B'(2) by (auto simp: x(2))
  moreover have "wloops x p = Some B'" "threadId B' = tid" using B'(1) B0(1) by (simp_all add: x(2))
  ultimately show ?thesis using x(4) M(2,3) acc rest unfolding serving_here_def by blast
qed

lemma item_ends:
  assumes os: "env_ok os" and w: "serving_here infra tid p a (e # M) w" and a: "sock_fd (acceptSocket a) \<in> infra"
  shows "safely (destroy_item os tid referenced e w) (\<lambda>w'. serving_here infra tid p a M w' \<and> wconns w' = (wconns w)(snd e := None) \<and>
    srv w' = (srv w)\<lparr>connections := M\<rparr> \<and> unwatched p {fd. \<exists>c. wconns w (snd e) = Some c \<and> sockfd c = fd} w w')"
proof -
  obtain n i where e: "e = (n, i)" by (cases e)
  note w' = w[unfolded e]
  have M: "connections (srv w) = (n, i) # M" "n \<notin> fst ` set M" "i \<notin> snd ` set M" and apart: "conns_apart infra w"
    and idle: "\<And>q L. wloops w q = Some L \<Longrightarrow> pendingFunctors L = []"
    using w' unfolding serving_here_def by auto
  obtain B c where B: "wloops w p = Some B" "threadId B = tid" "acceptor_ok a B"
    and c: "wconns w i = Some c" "conn_loop c = p" "fit c (el_poller B)" "bound c (el_poller B)"
    using w' unfolding serving_here_def list.set image_insert snd_conv by blast
  have id: "conn_id c = i" "sockfd c \<notin> infra" using apart c(1) by (auto simp: conns_apart_def)
  let ?v = "upd_srv (\<lambda>S. S\<lparr>connections := AList.delete n (connections S)\<rparr>) w"
  have erased: "AList.delete n (connections (srv w)) = M"
    using M(2) unfolding M(1) by (auto simp: alist_delete_filter filter_id_conv)
  then have srv: "srv ?v = (srv w)\<lparr>connections := M\<rparr>" by (simp add: upd_srv_def)
  have v: "wconns ?v = wconns w" "wloops ?v = wloops w" "open_fds ?v = open_fds w" by (simp_all add: upd_srv_def)
  have "conn_functor os tid (F_connectDestroyed i) = connectDestroyed os tid" by (simp add: fun_eq_iff)
  then have run: "destroy_item os tid referenced e w = bindR (world_functor os tid 0 (F_connectDestroyed i) ?v) (release referenced i)"
    using c(1,2) B(1,2) v by (simp add: destroy_item_def e conn_at_Some run_here[of ?v p B])
  have task: "safely (world_functor os tid 0 (F_connectDestroyed i) ?v) (destroyed infra p i c B ?v)"
    using c id B v by (intro destroy_task[OF os]) simp_all
  show ?thesis
    unfolding run safely_bind
  proof (rule safely_mono[OF task])
    fix u
    assume "destroyed infra p i c B ?v u"
    then obtain c' L where u: "u = ?v\<lparr>wconns := (wconns ?v)(i \<mapsto> c'), wloops := (wloops ?v)(p \<mapsto> L)\<rparr>" "key c' = key c"
      "let_go c' (el_poller L)" "poller_ok (el_poller L)" "threadId L = threadId B" "pendingFunctors L = pendingFunctors B"
      "poller_frame (conn_channel c) (sockfd c) (el_poller B) (el_poller L)"
      by (auto simp: destroyed_def)
    have k: "conn_loop c' = p" "conn_channel c' = conn_channel c" "sockfd c' = sockfd c" using u(2) c(2) by (simp_all add: key_def)
    have quiet: "pendingFunctors N = []" if "wloops u q = Some N" for q N
      using that idle v u(6) B(1) by (cases "q = p") (auto simp: u(1))
    let ?B = "Channel_delete (conn_channel c) L"
    let ?x = "u\<lparr>wconns := (wconns u)(i := None), wloops := (wloops u)(p \<mapsto> ?B), open_fds := open_fds u - {sockfd c}\<rparr>"
    have at_u: "wconns u = (wconns w)(i \<mapsto> c')" "wloops u = (wloops w)(p \<mapsto> L)" "open_fds u = open_fds w" "srv u = srv ?v"
      by (simp_all add: u(1))
    obtain ch where "chans (el_poller L) (conn_channel c) = Some ch" using u(3) k(2) by (auto simp: let_go_def bound_def)
    with at_u k have "TcpConnection_delete i u = Inr ?x"
      unfolding TcpConnection_delete_Inr by (intro exI[of _ c'] exI[of _ L] exI[of _ ch] conjI) simp_all
    moreover have "\<not> referenced u i" using quiet M(3) srv at_u(4) by (fastforce simp: referenced_iff)
    ultimately have freed: "release referenced i u = Inr ?x" using at_u(1) by (simp add: release_def)
    have xs: "wconns ?x = (wconns w)(i := None)" "wloops ?x = (wloops w)(p \<mapsto> ?B)" "open_fds ?x = open_fds w - {sockfd c}"
      "srv ?x = (srv w)\<lparr>connections := M\<rparr>"
      by (simp_all add: at_u erased)
    have poller: "el_poller ?B = (el_poller L)\<lparr>chans := (chans (el_poller L))(conn_channel c := None)\<rparr>" by (simp add: Channel_delete_def)
    have "poller_ok (el_poller B)" using B(3) by (simp add: acceptor_ok_def)
    note gone = channel_gone[OF u(3,4,2,7) fitD(2)[OF c(3)] this, folded poller]
    have "connections (srv ?x) = M" unfolding xs(4) by simp
    moreover have "threadId ?B = threadId B" "pendingFunctors ?B = []" using u(5,6) idle[OF B(1)] by (simp_all add: Channel_delete_def)
    ultimately have "serving_here infra tid p a M ?x"
      by (rule serving_less[OF w' a c(1) B(1) xs(1-3) _ _ _ gone(1,3,4)])
    moreover have "unwatched p {fd. \<exists>c. wconns w (snd e) = Some c \<and> sockfd c = fd} w ?x"
      using B(1) gone(2) c(1) e by (auto simp: unwatched_def xs(2) fun_eq_iff)
    ultimately show "safely (release referenced i u) (\<lambda>w'. serving_here infra tid p a M w' \<and> wconns w' = (wconns w)(snd e := None) \<and>
      srv w' = (srv w)\<lparr>connections := M\<rparr> \<and> unwatched p {fd. \<exists>c. wconns w (snd e) = Some c \<and> sockfd c = fd} w w')"
      using xs(1,4) unfolding freed safely_simps e snd_conv by blast
  qed
qed

lemma items_end:
  assumes os: "env_ok os" and a: "sock_fd (acceptSocket a) \<in> infra" and "serving_here infra tid p a M w"
  shows "safely (foldR (destroy_item os tid referenced) M w) (\<lambda>w'. serving_here infra tid p a [] w' \<and>
    srv w' = (srv w)\<lparr>connections := []\<rparr> \<and>
    unwatched p {fd. \<exists>i c. i \<in> snd ` set M \<and> wconns w i = Some c \<and> sockfd c = fd} w w')"
  using assms(3)
proof (induction M arbitrary: w)
  case Nil
  then have "connections (srv w) = []" by (simp add: serving_here_def)
  with Nil show ?case by (simp add: unwatched_def)
next
  case (Cons e M)
  have fresh: "snd e \<notin> snd ` set M" using Cons.prems by (simp add: serving_here_def)
  show ?case
    unfolding foldR.simps safely_bind
  proof (rule safely_mono[OF item_ends[OF os Cons.prems a]])
    fix x
    assume x: "serving_here infra tid p a M x \<and> wconns x = (wconns w)(snd e := None) \<and> srv x = (srv w)\<lparr>connections := M\<rparr> \<and>
      unwatched p {fd. \<exists>c. wconns w (snd e) = Some c \<and> sockfd c = fd} w x"
    have same: "wconns x i = wconns w i" if "i \<in> snd ` set M" for i
    proof -
      have "i \<noteq> snd e" using that fresh by blast
      with x show ?thesis by simp
    qed
    let ?G = "{fd. \<exists>i c. i \<in> snd ` set M \<and> wconns x i = Some c \<and> sockfd c = fd}"
    have all: "{fd. \<exists>i c. i \<in> snd ` set (e # M) \<and> wconns w i = Some c \<and> sockfd c = fd} =
        {fd. \<exists>c. wconns w (snd e) = Some c \<and> sockfd c = fd} \<union> ?G"
      using same unfolding list.set image_insert by (auto simp del: image_iff)
    have serving: "serving_here infra tid p a M x" using x by blast
    show "safely (foldR (destroy_item os tid referenced) M x) (\<lambda>w'. serving_here infra tid p a [] w' \<and>
      srv w' = (srv w)\<lparr>connections := []\<rparr> \<and>
      unwatched p {fd. \<exists>i c. i \<in> snd ` set (e # M) \<and> wconns w i = Some c \<and> sockfd c = fd} w w')"
      unfolding all
    proof (rule safely_mono[OF Cons.IH[OF serving]])
      fix y
      assume y: "serving_here infra tid p a [] y \<and> srv y = (srv x)\<lparr>connections := []\<rparr> \<and> unwatched p ?G x y"
      with x show "serving_here infra tid p a [] y \<and> srv y = (srv w)\<lparr>connections := []\<rparr> \<and>
          unwatched p ({fd. \<exists>c. wconns w (snd e) = Some c \<and> sockfd c = fd} \<union> ?G) w y"
        using unwatched_trans[of p _ w x ?G y] by simp
    qed
  qed
qed

text \<open>After the body of the destructor every loop has its last tasks.\<close>

definition body_done :: "fd set \<Rightarrow> (ptr \<Rightarrow> int \<times> answer) \<Rightarrow> world \<Rightarrow> world \<Rightarrow> bool" where
  "body_done infra io w w' \<longleftrightarrow> srv w' = (srv w)\<lparr>connections := []\<rparr> \<and>
     (\<exists>own. ending infra io own (loops (threadPool (srv w))) w') \<and>
     (\<exists>B B'. wloops w (srv_loop (srv w)) = Some B \<and> wloops w' (srv_loop (srv w)) = Some B' \<and> acceptor_ok (srv_acceptor (srv w)) B' \<and>
        watched (el_poller B') = (\<lambda>fd. if \<exists>i c. wconns w i = Some c \<and> conn_loop c = srv_loop (srv w) \<and> sockfd c = fd then None
          else watched (el_poller B) fd))"

lemma body_ends_elsewhere:
  assumes s: "reactor_inv infra s" "running s = (\<lambda>_. [])" and rest: "at_rest infra tid io (rw s)"
    and pool: "loops (threadPool (srv (rw s))) \<noteq> []"
  shows "\<exists>w. TcpServer_delete os tid referenced (rw s) = Inr w \<and> body_done infra io (rw s) w"
proof -
  let ?w = "rw s" and ?ps = "loops (threadPool (srv (rw s)))" and ?M = "connections (srv (rw s))" and ?own = "conns_of (rw s)"
  have winv: "world_inv infra (running s) ?w" using s(1) by (simp add: reactor_inv_def)
  note vinv = world_invD(1)[OF winv] and ok = world_invD(3)[OF winv]
  note R = rest[unfolded at_rest_def]
  have loop: "\<exists>L. wloops ?w p = Some L \<and> threadId L \<noteq> tid \<and> wake_ok infra L \<and> fst (io p) = threadId L \<and> only_wakeup (snd (io p)) L"
    if "p \<in> set ?ps" for p using R that by blast
  have conn: "i \<in> snd ` set ?M" "conn_loop c \<in> set ?ps" if "wconns ?w i = Some c" for i c
    using R that pool by (metis (no_types, lifting))+
  have idle: "pendingFunctors L = []" if "wloops ?w p = Some L" for p L using R that by blast
  have "\<forall>(n, i) \<in> set ?M. \<exists>c L. wconns ?w i = Some c \<and> wloops ?w (conn_loop c) = Some L \<and> threadId L \<noteq> tid"
    using srv_okD(1)[OF ok] conn(2) loop by fastforce
  note items = this
  have named: "\<forall>u i p L. wloops u p = Some L \<longrightarrow> F_connectDestroyed i \<in> set (pendingFunctors L) \<longrightarrow> referenced u i"
    unfolding referenced_iff by fastforce
  have none: "filter (\<lambda>e. fst e \<notin> fst ` set ?M) ?M = []" by (simp add: filter_empty_conv)
  from destroy_items[where alive = referenced and os = os, OF items named, unfolded none] obtain w where
    w: "TcpServer_delete os tid referenced ?w = Inr w" "srv w = (srv ?w)\<lparr>connections := []\<rparr>" "wconns w = wconns ?w"
    "open_fds w = open_fds ?w" "\<And>p. wloops ?w p = None \<Longrightarrow> wloops w p = None"
    and new: "\<And>p L. wloops ?w p = Some L \<Longrightarrow> \<exists>L'. wloops w p = Some L' \<and> threadId L' = threadId L \<and>
      el_poller L' = el_poller L \<and> wakeupChannel L' = wakeupChannel L \<and> wakeupFd L' = wakeupFd L \<and>
      pendingFunctors L' = pendingFunctors L @ map (\<lambda>e. F_connectDestroyed (snd e)) (filter (\<lambda>e. conn_loop (the (wconns ?w (snd e))) = p) ?M)"
    unfolding TcpServer_delete_def by blast
  have tasks: "\<exists>L'. wloops w p = Some L' \<and> threadId L' = threadId L \<and> el_poller L' = el_poller L \<and> wakeupChannel L' = wakeupChannel L \<and>
      wakeupFd L' = wakeupFd L \<and> pendingFunctors L' = map F_connectDestroyed (?own p)" if "wloops ?w p = Some L" for p L
    using new[OF that] idle[OF that] by (simp add: conns_of_def comp_def)
  have own: "\<exists>c. wconns ?w i = Some c \<and> conn_loop c = p \<and> fit c (el_poller L) \<and> bound c (el_poller L)"
    if i: "i \<in> set (?own p)" and L: "wloops ?w p = Some L" for i p L
  proof -
    obtain c where c: "wconns ?w i = Some c" "conn_loop c = p" "i \<in> snd ` set ?M" using i unfolding conns_of_iff[OF ok] by blast
    have "conn_inv (view_at (running s) ?w) i c" using view_invD(1)[OF vinv] c(1) by simp
    from conn_invD(3,4)[OF this] view_pollers[OF L] c(2,3) pinned_map[of i "view_at (running s) ?w"]
    have "fit c (el_poller L)" "bound c (el_poller L)" by simp_all
    with c show ?thesis by blast
  qed
  have "ending infra io ?own ?ps w"
    unfolding ending_def
  proof (intro conjI ballI allI impI)
    show "distinct ?ps" using R by blast
    show "conns_apart infra w" using reactor_apart(1)[OF s(1)] w(3) by (simp add: conns_apart_def)
    show "infra \<inter> open_fds w = {}" using reactor_apart(2)[OF s(1)] w(4) by simp
    show "open_fds w = {fd. \<exists>i c. wconns w i = Some c \<and> sockfd c = fd}" using reactor_apart(3)[OF s(1)] w(3,4) by simp
    show "dom (wconns w) = (\<Union>p \<in> set ?ps. set (?own p))"
      using conn w(3) conns_of_iff[OF ok] by (auto simp: dom_def)
    fix p
    assume p: "p \<in> set ?ps"
    then obtain L where L: "wloops ?w p = Some L" "wake_ok infra L" "fst (io p) = threadId L" "only_wakeup (snd (io p)) L"
      using loop by blast
    from tasks[OF L(1)] obtain L' where L': "wloops w p = Some L'" "threadId L' = threadId L" "el_poller L' = el_poller L"
      "wakeupChannel L' = wakeupChannel L" "wakeupFd L' = wakeupFd L" "pendingFunctors L' = map F_connectDestroyed (?own p)" by blast
    have "wake_ok infra L'" by (rule wake_ok_same[OF L(2)]) (use L(2) L' in \<open>auto simp: wake_ok_def\<close>)
    moreover have "distinct (?own p)"
      using distinct_ids[OF ok] by (simp add: conns_of_def distinct_map_filter)
    ultimately have "last_tasks infra p (?own p) L' w"
      using L' own[OF _ L(1)] w(3) by (simp add: last_tasks_def)
    moreover have "only_wakeup (snd (io p)) L'" using L(4) L' by (simp add: only_wakeup_def)
    ultimately show "\<exists>L. last_tasks infra p (?own p) L w \<and> fst (io p) = threadId L \<and> only_wakeup (snd (io p)) L"
      using L(3) L'(2) by (intro exI[of _ L']) simp
  next
    fix q L
    assume q: "q \<notin> set ?ps" "wloops w q = Some L"
    then obtain L0 where L0: "wloops ?w q = Some L0" using w(5)[of q] by (cases "wloops ?w q") auto
    have "?own q = []" using conn(2) q(1) srv_okD(1)[OF ok] by (fastforce simp: conns_of_def filter_empty_conv)
    with tasks[OF L0] q(2) show "pendingFunctors L = []" by auto
  qed (use w(2) in simp_all)
  moreover have "\<exists>B B'. wloops ?w (srv_loop (srv ?w)) = Some B \<and> wloops w (srv_loop (srv ?w)) = Some B' \<and>
      acceptor_ok (srv_acceptor (srv ?w)) B' \<and>
      watched (el_poller B') = (\<lambda>fd. if \<exists>i c. wconns ?w i = Some c \<and> conn_loop c = srv_loop (srv ?w) \<and> sockfd c = fd then None
        else watched (el_poller B) fd)"
  proof -
    obtain B where B: "wloops ?w (srv_loop (srv ?w)) = Some B" "acceptor_ok (srv_acceptor (srv ?w)) B" using R by blast
    obtain B' where B': "wloops w (srv_loop (srv ?w)) = Some B'" "el_poller B' = el_poller B" using new[OF B(1)] by blast
    have "conn_loop c \<noteq> srv_loop (srv ?w)" if "wconns ?w i = Some c" for i c using R conn(2)[OF that] by metis
    then have none: "\<not> (\<exists>i c. wconns ?w i = Some c \<and> conn_loop c = srv_loop (srv ?w) \<and> sockfd c = fd)" for fd by blast
    have "watched (el_poller B') = (\<lambda>fd. if \<exists>i c. wconns ?w i = Some c \<and> conn_loop c = srv_loop (srv ?w) \<and> sockfd c = fd then None
        else watched (el_poller B) fd)"
      using none B'(2) by (simp only: if_False)
    moreover have "acceptor_ok (srv_acceptor (srv ?w)) B'" using B(2) B'(2) by (simp only: acceptor_ok_def)
    ultimately show ?thesis using B(1) B'(1) by blast
  qed
  ultimately show ?thesis unfolding body_done_def using w(1,2) by blast
qed

lemma body_ends_here:
  assumes os: "env_ok os" and s: "reactor_inv infra s" "running s = (\<lambda>_. [])" and rest: "at_rest infra tid io (rw s)"
    and pool: "loops (threadPool (srv (rw s))) = []"
  shows "safely (TcpServer_delete os tid referenced (rw s)) (body_done infra io (rw s))"
proof -
  let ?w = "rw s" and ?M = "connections (srv (rw s))" and ?base = "srv_loop (srv (rw s))" and ?a = "srv_acceptor (srv (rw s))"
  have winv: "world_inv infra (running s) ?w" using s(1) by (simp add: reactor_inv_def)
  note vinv = world_invD(1)[OF winv] and ok = world_invD(3)[OF winv]
  note R = rest[unfolded at_rest_def]
  obtain B where B: "wloops ?w ?base = Some B" "threadId B = tid" "acceptor_ok ?a B" using R by blast
  have conn: "i \<in> snd ` set ?M" "conn_loop c = ?base" if "wconns ?w i = Some c" for i c
    using R that pool by (metis (no_types, lifting))+
  have "serving_here infra tid ?base ?a ?M ?w"
    unfolding serving_here_def
  proof (intro conjI)
    show "conns_apart infra ?w" "infra \<inter> open_fds ?w = {}" "open_fds ?w = {fd. \<exists>i c. wconns ?w i = Some c \<and> sockfd c = fd}"
      by (rule reactor_apart[OF s(1)])+
    show "distinct (map fst ?M)" using ok by (simp add: srv_ok_def)
    show "distinct (map snd ?M)" by (rule distinct_ids[OF ok])
    show "dom (wconns ?w) = snd ` set ?M" using conn(1) srv_okD(1)[OF ok] by fastforce
    show "\<forall>q L. wloops ?w q = Some L \<longrightarrow> pendingFunctors L = []" using R by blast
    show "\<exists>B. wloops ?w ?base = Some B \<and> threadId B = tid \<and> acceptor_ok ?a B \<and>
        (\<forall>i \<in> snd ` set ?M. \<exists>c. wconns ?w i = Some c \<and> conn_loop c = ?base \<and> fit c (el_poller B) \<and> bound c (el_poller B))"
    proof (intro exI[of _ B] conjI ballI)
      fix i
      assume i: "i \<in> snd ` set ?M"
      then obtain c where c: "wconns ?w i = Some c" using srv_okD(1)[OF ok] by fastforce
      have "conn_inv (view_at (running s) ?w) i c" using view_invD(1)[OF vinv] c by simp
      from conn_invD(3,4)[OF this] view_pollers[OF B(1)] conn(2)[OF c] i pinned_map[of i "view_at (running s) ?w"]
      show "\<exists>c. wconns ?w i = Some c \<and> conn_loop c = ?base \<and> fit c (el_poller B) \<and> bound c (el_poller B)"
        using c by auto
    qed (use B in auto)
  qed simp
  moreover have "sock_fd (acceptSocket ?a) \<in> infra" using R by blast
  ultimately show ?thesis
    unfolding TcpServer_delete_def
  proof (intro safely_mono[OF items_end[OF os]])
    fix w
    assume w: "serving_here infra tid ?base ?a [] w \<and> srv w = (srv ?w)\<lparr>connections := []\<rparr> \<and>
      unwatched ?base {fd. \<exists>i c. i \<in> snd ` set ?M \<and> wconns ?w i = Some c \<and> sockfd c = fd} ?w w"
    then have "ending infra io (\<lambda>_. []) [] w" by (auto simp: serving_here_def ending_def)
    then have over: "\<exists>own. ending infra io own (loops (threadPool (srv ?w))) w" unfolding pool by blast
    have "i \<in> snd ` set ?M \<and> wconns ?w i = Some c \<and> sockfd c = fd \<longleftrightarrow>
        wconns ?w i = Some c \<and> conn_loop c = ?base \<and> sockfd c = fd" for i c fd
      using conn[of i c] by (cases "wconns ?w i = Some c") simp_all
    then have sockets: "{fd. \<exists>i c. i \<in> snd ` set ?M \<and> wconns ?w i = Some c \<and> sockfd c = fd} =
        {fd. \<exists>i c. wconns ?w i = Some c \<and> conn_loop c = ?base \<and> sockfd c = fd}"
      by (simp only:)
    obtain B' where B': "wloops w ?base = Some B'"
      "watched (el_poller B') = (\<lambda>fd. if \<exists>i c. wconns ?w i = Some c \<and> conn_loop c = ?base \<and> sockfd c = fd then None
        else watched (el_poller B) fd)"
      using w B(1) unfolding unwatched_def sockets mem_Collect_eq by blast
    have "acceptor_ok ?a B'" using w B'(1) by (auto simp: serving_here_def)
    with over w B(1) B' show "body_done infra io ?w w" unfolding body_done_def by blast
  qed
qed

text \<open>The end of the members.\<close>

definition all_gone :: "world \<Rightarrow> world \<times> bool \<Rightarrow> bool" where
  "all_gone w = (\<lambda>(w', joined). joined \<and> wconns w' = Map.empty \<and> open_fds w' = {} \<and>
     (\<forall>p \<in> set (loops (threadPool (srv w))). wloops w' p = None) \<and>
     (\<exists>B B'. wloops w (srv_loop (srv w)) = Some B \<and> wloops w' (srv_loop (srv w)) = Some B' \<and>
        watched (el_poller B') = (\<lambda>fd. if fd = sock_fd (acceptSocket (srv_acceptor (srv w))) \<or>
            (\<exists>i c. wconns w i = Some c \<and> conn_loop c = srv_loop (srv w) \<and> sockfd c = fd) then None
          else watched (el_poller B) fd)))"

lemma members_end:
  assumes os: "env_ok os" and ended: "body_done infra io w u" and out: "srv_loop (srv w) \<notin> set (loops (threadPool (srv w)))"
  shows "safely (bindR (EventLoopThreadPool_delete os tid referenced accepting io (loops (threadPool (srv u))) u) (\<lambda>(w2, joined).
       if joined then bindR (Acceptor_free os w2) (\<lambda>w3. Inr (w3, True)) else Inr (w2, False))) (all_gone w)"
proof -
  let ?ps = "loops (threadPool (srv w))" and ?base = "srv_loop (srv w)" and ?a = "srv_acceptor (srv w)"
  let ?own = "\<lambda>fd. \<exists>i c. wconns w i = Some c \<and> conn_loop c = ?base \<and> sockfd c = fd"
  obtain own B B' where u: "srv u = (srv w)\<lparr>connections := []\<rparr>" "ending infra io own ?ps u" "wloops w ?base = Some B"
    "wloops u ?base = Some B'" "acceptor_ok ?a B'" "watched (el_poller B') = (\<lambda>fd. if ?own fd then None else watched (el_poller B) fd)"
    using ended unfolding body_done_def by blast
  have ps: "loops (threadPool (srv u)) = ?ps" by (simp add: u(1))
  obtain B2 where B2: "Acceptor_delete os ?a B' = Inr B2"
    "watched (el_poller B2) = (watched (el_poller B'))(sock_fd (acceptSocket ?a) := None)"
    using Acceptor_delete_ok[OF env_okD(1)[OF os] u(5)] by blast
  let ?B = "Channel_delete (acceptChannel ?a) B2"
  have seen: "watched (el_poller ?B) = (\<lambda>fd. if fd = sock_fd (acceptSocket ?a) \<or> ?own fd then None else watched (el_poller B) fd)"
    using B2(2) u(6) by (auto simp: Channel_delete_def watched_def fun_eq_iff)
  show ?thesis
    unfolding ps safely_bind
  proof (rule safely_mono[OF pool_ends[OF os u(2)]])
    fix r :: "world \<times> bool"
    assume r: "case r of (w', joined) \<Rightarrow> joined \<and> wconns w' = Map.empty \<and> open_fds w' = {} \<and> srv w' = srv u \<and>
      (\<forall>q. wloops w' q = (if q \<in> set ?ps then None else wloops u q))"
    obtain x where x: "r = (x, True)" "wconns x = Map.empty" "open_fds x = {}" "srv x = srv u"
      "\<And>q. wloops x q = (if q \<in> set ?ps then None else wloops u q)" using r by (cases r) auto
    let ?y = "Socket_delete (sock_fd (acceptSocket ?a)) (x\<lparr>wloops := (wloops x)(?base \<mapsto> ?B)\<rparr>)"
    have "wloops x ?base = Some B'" using x(5) out u(4) by simp
    moreover have "srv_loop (srv x) = ?base" "srv_acceptor (srv x) = ?a" by (simp_all add: x(4) u(1))
    ultimately have run: "Acceptor_free os x = Inr ?y" using B2(1) by (simp add: Acceptor_free_def Let_def loop_at_Some)
    have "wconns ?y = Map.empty" "open_fds ?y = {}" "wloops ?y ?base = Some ?B" "\<forall>p \<in> set ?ps. wloops ?y p = None"
      using x(2,3,5) out by (auto simp: Socket_delete_def close_fd_def)
    with u(3) seen have "all_gone w (?y, True)" unfolding all_gone_def prod.case by blast
    with run x(1) show "safely (case r of (w2, joined) \<Rightarrow>
        if joined then bindR (Acceptor_free os w2) (\<lambda>w3. Inr (w3, True)) else Inr (w2, False)) (all_gone w)" by simp
  qed
qed


section \<open>A server with one connection\<close>

text \<open>A poller that watches one descriptor for reading.\<close>

definition watching :: "fd \<Rightarrow> ptr \<Rightarrow> callback \<Rightarrow> poller" where
  "watching fd q cb =
     \<lparr>chans = [q \<mapsto> (Channel_new fd)\<lparr>readCallback := Some cb, ch_events := kReadEvent, ch_index := kAdded\<rparr>],
      channelMap = [fd \<mapsto> q], eventList = [(0, 0)],
      ctlHist = [(\<lparr>ctl_op = EPOLL_CTL_ADD, ctl_fd = fd, ctl_events = kReadEvent, ctl_ptr = q\<rparr>, True)]\<rparr>"

definition resting_world :: world where
  "resting_world = (upd_srv (\<lambda>S. S\<lparr>srv_acceptor := sample_acceptor\<lparr>listenning := True\<rparr>\<rparr>) sample_world)
     \<lparr>wloops := [1 \<mapsto> sample_loop\<lparr>el_poller := watching 6 9 AcceptorHandleRead\<rparr>,
        2 \<mapsto> sample_loop\<lparr>threadId := 101, el_poller := watching 4 8 LoopHandleRead\<rparr>]\<rparr>"

lemma watching_ok:
  "poller_ok (watching fd q cb)" "watched (watching fd q cb) = [fd \<mapsto> (kReadEvent, q)]"
  by (simp_all add: watching_def poller_ok_def chan_ok_def watched_def ctl_apply_def Channel_new_def)

lemma watching_infra: "infra_chan b (watching fd q LoopHandleRead) q" "infra_chan True (watching fd q AcceptorHandleRead) q"
  by (simp_all add: infra_chan_def watching_def callbacks_of_def Channel_new_def)

definition resting :: reactor where
  "resting = \<lparr>rw = resting_world, running = (\<lambda>_. [])\<rparr>"

lemma resting_idle: "server_idle {4, 6} resting"
proof -
  have "idle_loop {4, 6} (p = 1) L" if "wloops resting_world p = Some L" for p L
    using that watching_infra watching_ok(1)
    by (auto simp: resting_world_def idle_loop_def sample_loop_def split: if_splits) (simp_all add: watching_def split: if_splits)
  then show ?thesis
    by (auto simp: server_idle_def resting_def resting_world_def sample_world_def loops_ok_def callbacks_ok_def pool_ok_def
      loop_in_turn_def sample_acceptor_def)
qed

text \<open>It accepts a connection.\<close>

lemma resting_accepts:
  "\<exists>w c L. act os sample_accept resting = Inr (resting\<lparr>rw := w\<rparr>) \<and> wconns w = [50 \<mapsto> c] \<and> conn_loop c = 2 \<and> conn_channel c = 70 \<and>
     sockfd c = 12 \<and> connectionCallback c = Some (\<lambda>_. []) \<and> snd ` set (connections (srv w)) = {50} \<and>
     loops (threadPool (srv w)) = [2] \<and> srv_loop (srv w) = 1 \<and> srv_acceptor (srv w) = srv_acceptor (srv resting_world) \<and>
     wloops w = (wloops resting_world)(2 \<mapsto> L) \<and> threadId L = 101 \<and> pendingFunctors L = [F_connectEstablished 50] \<and>
     wakeupChannel L = 8 \<and> wakeupFd L = 4 \<and> (\<exists>ch. el_poller L = store 70 ch (watching 4 8 LoopHandleRead))"
proof -
  let ?w = "resting_world\<lparr>open_fds := {12}\<rparr>"
  let ?L = "sample_loop\<lparr>threadId := 101, el_poller := watching 4 8 LoopHandleRead\<rparr>"
  have next_loop: "\<exists>pool. getNextLoop (threadPool (srv ?w)) = Inr (2, pool) \<and> loops pool = [2]"
    by (simp add: resting_world_def sample_world_def upd_srv_def getNextLoop_def)
  then obtain pool where pool: "getNextLoop (threadPool (srv ?w)) = Inr (2, pool)" "loops pool = [2]" by blast
  obtain c where c: "TcpConnection_new (Some 2) 50 (conn_name_of (srv ?w)) 12 70 (sockfd_To_SockAddr None) zero_addr ?L = Inr (c, ?L\<lparr>el_poller := store 70
      ((Channel_new 12)\<lparr>readCallback := Some (ConnHandleRead 50), writeCallback := Some (ConnHandleWrite 50),
         closeCallback := Some (ConnHandleClose 50), errorCallback := Some (ConnHandleError 50)\<rparr>) (el_poller ?L)\<rparr>)"
    "conn_id c = 50" "conn_loop c = 2" "sockfd c = 12" "conn_channel c = 70"
    using TcpConnection_new_total[of 2 50 "conn_name_of (srv ?w)" 12 70 "sockfd_To_SockAddr None" zero_addr ?L] by blast
  have base: "srv_loop (srv ?w) = 1" "wloops ?w 1 = Some (sample_loop\<lparr>el_poller := watching 6 9 AcceptorHandleRead\<rparr>)"
    "wloops ?w 2 = Some ?L" "nextConnId (srv ?w) = 1" "connections (srv ?w) = []" "wconns ?w = Map.empty"
    "srv_connectionCallback (srv ?w) = Some (\<lambda>_. [])" "newConnectionCallback (srv_acceptor (srv resting_world))"
    "open_fds resting_world = {}"
    by (simp_all add: resting_world_def sample_world_def upd_srv_def sample_acceptor_def)
  let ?c = "c\<lparr>connectionCallback := Some (\<lambda>_. []), messageCallback := srv_messageCallback (srv resting_world),
    writeCompleteCallback := srv_writeCompleteCallback (srv resting_world), conn_closeCallback := True\<rparr>"
  let ?M = "queueInLoop 100 (F_connectEstablished 50) (?L\<lparr>el_poller := store 70 ((Channel_new 12)
    \<lparr>readCallback := Some (ConnHandleRead 50), writeCallback := Some (ConnHandleWrite 50),
     closeCallback := Some (ConnHandleClose 50), errorCallback := Some (ConnHandleError 50)\<rparr>) (watching 4 8 LoopHandleRead)\<rparr>)"
  have "\<exists>w. act os sample_accept resting = Inr (resting\<lparr>rw := w\<rparr>) \<and> wconns w = [50 \<mapsto> ?c] \<and>
      snd ` set (connections (srv w)) = {50} \<and> loops (threadPool (srv w)) = [2] \<and> srv_loop (srv w) = 1 \<and>
      srv_acceptor (srv w) = srv_acceptor (srv resting_world) \<and> wloops w = (wloops resting_world)(2 \<mapsto> ?M)"
    using pool c base
    by (simp add: resting_def TcpServer_acceptable_cases TcpServer_newConnection_def assertInLoopThread_def isInLoopThread_def
        loop_at_def run_in_loop_at_def runInLoop_def get_loop_def upd_srv_def upd_loop_at_def Let_def
        setCloseCallback_def setWriteCompleteCallback_def setMessageCallback_def setConnectionCallback_def)
  then obtain w where w: "act os sample_accept resting = Inr (resting\<lparr>rw := w\<rparr>)" "wconns w = [50 \<mapsto> ?c]"
      "snd ` set (connections (srv w)) = {50}" "loops (threadPool (srv w)) = [2]" "srv_loop (srv w) = 1"
      "srv_acceptor (srv w) = srv_acceptor (srv resting_world)" "wloops w = (wloops resting_world)(2 \<mapsto> ?M)" by blast
  have ch: "\<exists>ch. el_poller ?M = store 70 ch (watching 4 8 LoopHandleRead)" by (simp, rule exI, rule refl)
  have M: "threadId ?M = 101" "pendingFunctors ?M = [F_connectEstablished 50]" "wakeupChannel ?M = 8" "wakeupFd ?M = 4"
    by (simp_all add: sample_loop_def)
  show ?thesis
  proof (intro exI[of _ w] exI[of _ ?c] exI[of _ ?M] conjI)
    show "\<exists>ch. el_poller ?M = store 70 ch (watching 4 8 LoopHandleRead)" by (rule ch)
  qed (use w c M in simp_all)
qed

lemma resting_establishes:
  "\<exists>s. reach (server_idle {4, 6}) (reactor_step sample_os {4, 6}) s \<and> running s = (\<lambda>_. []) \<and>
     (\<exists>c. wconns (rw s) 50 = Some c \<and> conn_state c = kConnected) \<and>
     at_rest {4, 6} 100 (\<lambda>p. (101, (\<lambda>n. SysOk (take n [(EPOLLIN, 8)]), 7))) (rw s)"
proof -
  let ?step = "reactor_step sample_os {4, 6}" and ?init = "server_idle {4, 6}"
  obtain w c L ch where w: "act sample_os sample_accept resting = Inr (resting\<lparr>rw := w\<rparr>)" "wconns w = [50 \<mapsto> c]" "conn_loop c = 2"
    "conn_channel c = 70" "sockfd c = 12" "connectionCallback c = Some (\<lambda>_. [])" "snd ` set (connections (srv w)) = {50}"
    "loops (threadPool (srv w)) = [2]" "srv_loop (srv w) = 1" "srv_acceptor (srv w) = srv_acceptor (srv resting_world)"
    "wloops w = (wloops resting_world)(2 \<mapsto> L)" "threadId L = 101" "pendingFunctors L = [F_connectEstablished 50]"
    "wakeupChannel L = 8" "wakeupFd L = 4" "el_poller L = store 70 ch (watching 4 8 LoopHandleRead)"
    using resting_accepts[of sample_os] by blast
  have r0: "reach ?init ?step resting" by (rule reach_init[where init = ?init, OF resting_idle])
  have "enabled {4, 6} sample_accept resting"
    by (auto simp: resting_def resting_world_def sample_world_def in_thread_def accept_doc_def fresh_ptr_def upd_srv_def watching_def
        split: if_splits)
  from reach_step[OF r0 acts[OF this w(1)]] have r1: "reach ?init ?step (resting\<lparr>rw := w\<rparr>)" .
  let ?f = "\<lambda>L. L\<lparr>callingPendingFunctors := True, pendingFunctors := []\<rparr>"
  let ?w2 = "upd_loop_at 2 ?f w" and ?run = "(\<lambda>_. [])(2 := [F_connectEstablished 50])"
  let ?s2 = "\<lparr>rw = ?w2, running = ?run\<rparr>"
  have get: "get_loop 2 w = L" using w(11) by (simp add: get_loop_def)
  have "act sample_os (Swap 2) (resting\<lparr>rw := w\<rparr>) = Inr ?s2" "enabled {4, 6} (Swap 2) (resting\<lparr>rw := w\<rparr>)"
    using w(11,13) get by (simp_all add: resting_def)
  from reach_step[OF r1 acts[OF this(2,1)]] have r2: "reach ?init ?step ?s2" .
  have inv: "world_inv {4, 6} ?run ?w2" using reachable_inv[OF sample_env r2] by (simp add: reactor_inv_def)
  have "F_connectEstablished 50 \<in> set (v_queue (view_at ?run ?w2) 2)" using w(11) by (simp add: view_at_def)
  then have "pinned (view_at ?run ?w2) 50" by (rule pinned_task) simp_all
  with pinned_conn_ok[OF inv, of 50 c "?f L"] w(2,3,11,12) get have ok: "conn_ok 101 (conn_in c (?f L) ?w2)" by simp
  with established_silent[OF sample_os_doc(3) ok] w(6) obtain P where P: "poller_ok P"
    "connectEstablished sample_os 101 (conn_in c (?f L) ?w2) =
      Inr (conn_in (c\<lparr>conn_state := kConnected\<rparr>) ((?f L)\<lparr>el_poller := P\<rparr>) ?w2)"
    by (auto simp: setState_def upd_conn_def)
  let ?w3 = "?w2\<lparr>wconns := [50 \<mapsto> c\<lparr>conn_state := kConnected\<rparr>], wloops := (wloops ?w2)(2 \<mapsto> (?f L)\<lparr>el_poller := P\<rparr>)\<rparr>"
  let ?s3 = "\<lparr>rw = ?w3, running = (\<lambda>_. [])\<rparr>" and ?io = "(101 :: int, \<lambda>n. SysOk (take n [(EPOLLIN, 8)]), 7)"
  have "enabled {4, 6} (RunTask 2 101 0) ?s2" using w(11,12) get by (simp add: in_thread_def)
  moreover have "act sample_os (RunTask 2 101 0) ?s2 = Inr ?s3"
    using w(2,3,11) get P(2) by (simp add: on_conn_def conn_at_Some loop_at_Some fun_eq_iff)
  ultimately have r3: "reach ?init ?step ?s3" using reach_step[OF r2 acts] by blast
  have "poller_frame 70 12 (el_poller L) P"
    using ends_D[OF kept.connectEstablished_R[OF keeps_refl] P(2)] w(4,5) by (simp add: keeps_def)
  moreover have "chan_fd 70 12 (el_poller L)" using ok w(4,5) by (auto simp: conn_ok_iff chan_live_def chan_fd_def)
  ultimately have kept: "chans P 8 = chans (el_poller L) 8" "channelMap P 4 = Some 8"
    using w(16) by (simp_all add: poller_frame_def watching_def)
  then have ch8: "chans P 8 = Some ((Channel_new 4)\<lparr>readCallback := Some LoopHandleRead, ch_events := kReadEvent, ch_index := kAdded\<rparr>)"
    using w(16) by (simp add: watching_def)
  have "watched P 4 = Some (kReadEvent, 8)"
    using poller_okD(1)[OF P(1) ch8] by (simp add: chan_ok_def watched_def Channel_new_def)
  then have only: "only_wakeup (snd ?io) ((?f L)\<lparr>el_poller := P\<rparr>)"
    using w(14) by (fastforce simp: only_wakeup_def wait_doc_def dest!: in_set_takeD)
  have wake: "wake_ok {4, 6} ((?f L)\<lparr>el_poller := P\<rparr>)"
    using P(1) kept(2) ch8 w(14,15) by (simp add: wake_ok_def fd_free_def callbacks_of_def Channel_new_def)
  have "acceptor_ok (sample_acceptor\<lparr>listenning := True\<rparr>) (sample_loop\<lparr>el_poller := watching 6 9 AcceptorHandleRead\<rparr>)"
    using watching_ok(1) by (simp add: acceptor_ok_def sample_acceptor_def Socket_new_def watching_def fd_free_def Channel_new_def)
  with w wake only get have "at_rest {4, 6} 100 (\<lambda>p. ?io) ?w3"
    by (auto simp: at_rest_def resting_world_def sample_loop_def upd_srv_def sample_acceptor_def Socket_new_def split: if_splits)
  with r3 show ?thesis by (intro exI[of _ ?s3]) simp
qed


end
