(* ===== verification/EchoServer.thy ===== *)
theory EchoServer
  imports Server
begin

text \<open>
  \<open>example/testserver.cpp\<close>: the echo server, from \<open>main\<close> to the call of \<open>loop()\<close>. Its two
  callbacks are in \<open>ConnProps\<close>. The theorem says that \<open>main\<close> builds a server to which everything
  that \<open>Server\<close> shows applies.
\<close>

section \<open>The program\<close>

definition EchoServer_new :: "ptr option \<Rightarrow> sockaddr_in \<Rightarrow> string \<Rightarrow> (bool \<Rightarrow> acceptor res) \<Rightarrow> tcp_server res" where
  "EchoServer_new loop addr name new_acceptor =
     bindR (TcpServer_new loop addr name new_acceptor kNoReusePort) (\<lambda>S.
       Inr (TcpServer_setThreadNum 3 (Server_setMessageCallback (Some EchoServer_onMessage)
         (Server_setConnectionCallback (Some EchoServer_onConnection) S))))"

definition EchoServer_start :: "os \<Rightarrow> int \<Rightarrow> int \<Rightarrow> (nat \<Rightarrow> ptr \<times> event_loop) \<Rightarrow> world \<Rightarrow> world res" where
  "EchoServer_start = TcpServer_start"

text \<open>
  \<open>main\<close> up to \<open>loop()\<close>. Arguments are the answers of the system (\<open>epfd\<close>, \<open>evtfd\<close>, \<open>bindret\<close>,
  \<open>listenret\<close>), the addresses of the wake-up and the listening channel, the loops of the new
  threads, and \<open>listenfd\<close>, the descriptor that \<open>createNonblocking\<close> was to return
  (\<open>Acceptor_new\<close> says what the code as it stands does instead). The base loop is at address 1.
\<close>

definition EchoServer_main ::
    "os \<Rightarrow> (string \<Rightarrow> 32 word) \<Rightarrow> int \<Rightarrow> int \<Rightarrow> int \<Rightarrow> ptr \<Rightarrow> fd \<Rightarrow> ptr \<Rightarrow> int \<Rightarrow> int \<Rightarrow>
     (nat \<Rightarrow> ptr \<times> event_loop) \<Rightarrow> world res" where
  "EchoServer_main os inet_addr epfd evtfd tid wp listenfd cp bindret listenret spawn =
     bindR (EventLoop_new os False epfd evtfd tid 1 wp None) (\<lambda>(L, here).
     let addr = InetAddress_new inet_addr 8000 ''127.0.0.1'' in
     bindR (Acceptor_init bindret addr False cp L listenfd) (\<lambda>(acc, L1).
     bindR (EchoServer_new (Some 1) addr ''EchoServer-01'' (\<lambda>reuseport. Inr acc)) (\<lambda>S.
       EchoServer_start os tid listenret spawn
         \<lparr>srv = S, wloops = [1 \<mapsto> L1], wconns = Map.empty, wstrings = Map.empty, open_fds = {}\<rparr>)))"

section \<open>Facts\<close>

lemma new_loop_idle:
  assumes "ctl_doc os" and "0 \<le> epfd" and "0 \<le> evtfd"
  shows "\<exists>P. EventLoop_new os False epfd evtfd tid self wp None =
      Inr (\<lparr>looping = False, quit = False, threadId = tid, pollReturnTime = 0, el_poller = P, wakeupFd = evtfd,
        wakeupChannel = wp, activeChannels = [], callingPendingFunctors = False, pendingFunctors = [],
        wakeWrites = 0, wakeReads = 0\<rparr>, Some self) \<and>
    poller_ok P \<and> dom (chans P) = {wp} \<and>
    (\<forall>g q. channelMap P g = Some q \<longrightarrow> g = evtfd \<and> infra_chan base P q)"
proof -
  let ?ch = "\<lambda>p. store wp ((Channel_new evtfd)\<lparr>readCallback := Some LoopHandleRead\<rparr>) p"
  obtain p1 P where p1: "EPollPoller_new epfd Map.empty = Inr p1" and
    P: "Channel_set_interest os EnableReading wp (?ch p1) = Inr P" "poller_ok P" "dom (chans P) = {wp}"
      "watched P = [evtfd \<mapsto> (kReadEvent, wp)]"
    using new_channel_poller[OF assms(1,2), where wp = wp and fd = evtfd and cb = "Some LoopHandleRead"] by blast
  have map: "channelMap P evtfd = Some wp" and ch: "\<exists>ch. chans P wp = Some ch \<and> ch_fd ch = evtfd"
    using watched_chan[OF P(2), of evtfd kReadEvent wp] P(4) by auto
  have "fd = evtfd" if m: "channelMap P fd = Some q" for fd q
  proof -
    obtain c where "chans P q = Some c" "ch_fd c = fd" using poller_okD(2)[OF P(2) m] by blast
    moreover from this have "q = wp" using P(3) by blast
    ultimately show ?thesis using ch by auto
  qed
  note only = this
  have "chan_fd wp evtfd (?ch p1)" by (simp add: chan_fd_def)
  with ends_D[OF set_interest_frame[where fd = evtfd] P(1)] have cbs: "map_option callbacks_of (chans P wp) =
      Some (Some LoopHandleRead, None, None, None)"
    by (simp add: poller_frame_def callbacks_of_def Channel_new_def)
  have "g = evtfd \<and> infra_chan base P q" if m: "channelMap P g = Some q" for g q
  proof -
    have "g = evtfd" by (rule only[OF m])
    with m map have "q = wp" by simp
    with \<open>g = evtfd\<close> cbs show ?thesis by (simp add: infra_chan_def)
  qed
  with P p1 assms(3) show ?thesis
    by (simp add: EventLoop_new_def newDefaultPoller_def createEventfd_def)
qed

text \<open>Listening changes the poller of the loop alone, and there only the acceptor's own entries.\<close>

lemma Acceptor_listen_frame:
  assumes "Acceptor_listen os r (a, L) = Inr (a', L')"
  shows "\<exists>P. L' = L\<lparr>el_poller := P\<rparr> \<and> poller_frame (acceptChannel a) fd (el_poller L) P" "newConnectionCallback a' = newConnectionCallback a"
proof -
  from assms obtain sock P where "Channel_set_interest os EnableReading (acceptChannel a) (el_poller L) = Inr P"
    "L' = L\<lparr>el_poller := P\<rparr>" "a' = a\<lparr>listenning := True, acceptSocket := sock\<rparr>"
    by (auto simp: Acceptor_listen_def set_interest_def res_simps)
  moreover from this(1) have "poller_frame (acceptChannel a) fd (el_poller L) P" by (rule ends_D[OF set_interest_frame])
  ultimately show "\<exists>P. L' = L\<lparr>el_poller := P\<rparr> \<and> poller_frame (acceptChannel a) fd (el_poller L) P"
    "newConnectionCallback a' = newConnectionCallback a" by auto
qed

lemma start_serving:
  assumes S: "started S = 0" "connections S = []" "threadPool S = setThreadNum 3 (EventLoopThreadPool_new (srv_loop S) name)"
      "callbacks_ok S"
    and listen: "Acceptor_listen os 0 (srv_acceptor S, L1) = Inr (a2, L2)" "newConnectionCallback a2" "threadId L1 = tid"
      "idle_loop infra True L2"
    and spawn: "\<forall>i < 3. fst (spawn i) \<noteq> srv_loop S \<and> idle_loop infra False (snd (spawn i))"
  shows "\<exists>pool ls. TcpServer_start os tid 0 spawn \<lparr>srv = S, wloops = [srv_loop S \<mapsto> L1], wconns = Map.empty, wstrings = strs, open_fds = {}\<rparr> =
      Inr \<lparr>srv = S\<lparr>started := 1, threadPool := pool, srv_acceptor := a2\<rparr>, wloops = ls, wconns = Map.empty, wstrings = strs, open_fds = {}\<rparr> \<and>
    server_idle infra \<lparr>rw = \<lparr>srv = S\<lparr>started := 1, threadPool := pool, srv_acceptor := a2\<rparr>, wloops = ls,
       wconns = Map.empty, wstrings = strs, open_fds = {}\<rparr>, running = (\<lambda>_. [])\<rparr> \<and>
    ls (srv_loop S) = Some L2 \<and> (\<forall>k. loop_in_turn k pool = fst (spawn (k mod 3)))"
proof -
  let ?base = "srv_loop S"
  obtain pool inits where pool: "EventLoopThreadPool_start (fst \<circ> spawn) (threadInitCallback S) (threadPool S) = (pool, inits)"
    by fastforce
  note po = start_ok[OF pool[unfolded S(3)]]
  define m where "m = map_of (map spawn [0..<3])"
  let ?ls = "[?base \<mapsto> L1] ++ m" and ?S = "S\<lparr>started := 1, threadPool := pool\<rparr>"
  have m1: "m ?base = None" using spawn unfolding m_def by (auto simp: map_of_eq_None_iff)
  let ?start = "\<lparr>srv = ?S, wloops = ?ls, wconns = Map.empty, wstrings = strs, open_fds = {}\<rparr>"
  let ?w = "?start\<lparr>srv := ?S\<lparr>srv_acceptor := a2\<rparr>, wloops := ?ls(?base \<mapsto> L2)\<rparr>"
  have base: "?ls ?base = Some L1" using m1 by (simp add: map_add_def)
  have "acceptor_listen_at os 0 ?start = Inr ?w"
    using base listen(1) by (simp add: acceptor_listen_at_def loop_at_def upd_srv_def)
  then have "run_in_loop_at ?base tid F_acceptorListen (acceptor_listen_at os 0) ?start = Inr ?w"
    using run_here[of ?start ?base L1 tid] base listen(3) by simp
  moreover have "TcpServer_start os tid 0 spawn \<lparr>srv = S, wloops = [?base \<mapsto> L1], wconns = Map.empty, wstrings = strs, open_fds = {}\<rparr> =
      run_in_loop_at ?base tid F_acceptorListen (acceptor_listen_at os 0) ?start"
    using pool S(1,3) by (simp add: TcpServer_start_def upd_srv_def Let_def setThreadNum_def m_def)
  moreover have idle: "idle_loop infra (p = ?base) L" if "(?ls(?base \<mapsto> L2)) p = Some L" for p L
  proof (cases "p = ?base")
    case True
    with that listen(4) show ?thesis by simp
  next
    case False
    with that have "m p = Some L" by (auto simp: map_add_def split: option.splits)
    then have "(p, L) \<in> set (map spawn [0..<3])" unfolding m_def by (rule map_of_SomeD)
    then obtain i where i: "i < 3" "spawn i = (p, L)" by auto
    with spawn have "idle_loop infra False (snd (spawn i))" by blast
    with i(2) False show ?thesis by simp
  qed
  have turn: "loop_in_turn k pool = fst (spawn (k mod 3))" for k using po by (simp add: loop_in_turn_def)
  moreover have "(?ls(?base \<mapsto> L2)) (fst (spawn (k mod 3))) \<noteq> None" for k
  proof -
    have "fst (spawn (k mod 3)) \<in> fst ` set (map spawn [0..<3])" by simp
    then have "m (fst (spawn (k mod 3))) \<noteq> None" unfolding m_def by (simp add: map_of_eq_None_iff)
    then show ?thesis by (auto simp: map_add_def)
  qed
  with turn po(1) have "loops_ok ?w" by (simp add: loops_ok_def)
  then have "server_idle infra \<lparr>rw = ?w, running = (\<lambda>_. [])\<rparr>"
    using idle S(2,4) listen(2) by (simp add: server_idle_def callbacks_ok_def del: fun_upd_apply)
  ultimately show ?thesis by (intro exI[of _ pool] exI[of _ "?ls(?base \<mapsto> L2)"]) simp
qed

lemma echo_callbacks_ok:
  "srv_connectionCallback S = Some EchoServer_onConnection \<Longrightarrow> srv_messageCallback S = Some EchoServer_onMessage \<Longrightarrow>
   srv_writeCompleteCallback S = None \<Longrightarrow> callbacks_ok S"
  by (simp add: callbacks_ok_def EchoServer_onConnection_def EchoServer_onMessage_def)


lemma setNewConnectionCallback_simps [simp]:
  "acceptSocket (setNewConnectionCallback cb a) = acceptSocket a" "acceptChannel (setNewConnectionCallback cb a) = acceptChannel a"
  "listenning (setNewConnectionCallback cb a) = listenning a" "newConnectionCallback (setNewConnectionCallback cb a) = cb"
  "acceptor_ok (setNewConnectionCallback cb a) L = acceptor_ok a L"
  by (simp_all add: setNewConnectionCallback_def acceptor_ok_def split: option.split)

lemma listen_idle:
  assumes "ctl_doc os" and "poller_ok (el_poller L)" and "chans (el_poller L) cp = None" and "channelMap (el_poller L) fd = None"
    and "\<forall>g q. channelMap (el_poller L) g = Some q \<longrightarrow> g \<in> infra \<and> infra_chan True (el_poller L) q"
    and "fd \<in> infra" and "pendingFunctors L = []"
  shows "\<exists>a L1 a2 L2. Acceptor_init 0 addr reuseport cp L fd = Inr (a, L1) \<and> threadId L1 = threadId L \<and>
    Acceptor_listen os 0 (setNewConnectionCallback True a, L1) = Inr (a2, L2) \<and> newConnectionCallback a2 \<and>
    idle_loop infra True L2 \<and> watched (el_poller L2) = (watched (el_poller L))(fd \<mapsto> (kReadEvent, cp))"
proof -
  obtain a L1 where init: "Acceptor_init 0 addr reuseport cp L fd = Inr (a, L1)"
    by (simp add: Acceptor_init_def bindAddress_def)
  note i = Acceptor_init_ok[OF assms(2-4) init]
  have L1: "threadId L1 = threadId L" "pendingFunctors L1 = []" "channelMap (el_poller L1) = channelMap (el_poller L)"
    "chan_fd cp fd (el_poller L1)" "\<And>q. q \<noteq> cp \<Longrightarrow> chans (el_poller L1) q = chans (el_poller L) q"
    and cbs: "map_option callbacks_of (chans (el_poller L1) cp) = Some (Some AcceptorHandleRead, None, None, None)"
    using init assms(7)
    by (auto simp: Acceptor_init_def bindAddress_def setReusePort_def setReuseAddr_def set_option_def Socket_new_def chan_fd_def
        callbacks_of_def Channel_new_def)
  let ?a = "setNewConnectionCallback True a"
  have "acceptor_ok ?a L1" "\<not> listenning ?a" "acceptChannel ?a = cp" "sock_fd (acceptSocket ?a) = fd" "newConnectionCallback ?a"
    using i by simp_all
  note a = this
  obtain a2 L2 where l: "Acceptor_listen os 0 (?a, L1) = Inr (a2, L2)" "acceptor_ok a2 L2"
    "watched (el_poller L2) = (watched (el_poller L1))(fd \<mapsto> (kReadEvent, cp))"
    using Acceptor_listen_ok[OF assms(1) a(1,2)] a(3,4) by auto
  obtain P where P: "L2 = L1\<lparr>el_poller := P\<rparr>" "poller_frame cp fd (el_poller L1) P"
    using Acceptor_listen_frame(1)[OF l(1)] a(3) by auto
  have w: "watched P fd = Some (kReadEvent, cp)" "poller_ok P" using l(2,3) P(1) by (simp_all add: acceptor_ok_def)
  have "g \<in> infra \<and> infra_chan True P q" if m: "channelMap P g = Some q" for g q
  proof (cases "g = fd")
    case True
    then have "q = cp" using watched_mapped[OF w(2,1)] m by simp
    moreover have "map_option callbacks_of (chans P cp) = Some (Some AcceptorHandleRead, None, None, None)"
      using P(2) L1(4) cbs by (auto simp: poller_frame_def)
    ultimately show ?thesis using True assms(6) by (simp add: infra_chan_def)
  next
    case False
    then have "channelMap (el_poller L) g = Some q" using P(2) L1(3,4) m by (simp add: poller_frame_def)
    with assms(5) have q: "g \<in> infra" "infra_chan True (el_poller L) q" by simp_all
    then have "q \<noteq> cp" using assms(3) by (auto simp: infra_chan_def)
    then have "chans P q = chans (el_poller L) q" using P(2) L1(4,5) by (simp add: poller_frame_def)
    with q show ?thesis by (simp add: infra_chan_def)
  qed
  with w(2) have "idle_loop infra True L2" using P(1) L1(2) by (simp add: idle_loop_def)
  with init L1(1) l(1,3) i(2) Acceptor_listen_frame(2)[OF l(1)] a(5) show ?thesis by auto
qed

text \<open>A server that listens and has nothing to do yet, with the callbacks of the echo server.\<close>

definition echo_idle :: "fd set \<Rightarrow> reactor \<Rightarrow> bool" where
  "echo_idle infra s \<longleftrightarrow> server_idle infra s \<and>
     server_callbacks (srv (rw s)) = (Some EchoServer_onConnection, Some EchoServer_onMessage, None)"

section \<open>Properties\<close>



end
