(* ===== verification/EchoRun.thy ===== *)
theory EchoRun
  imports EchoServer
begin

text \<open>
  The echo server as a whole, from \<open>main\<close> on: what every connection has sent and received in every
  state that the loops of the server can reach, whatever their interleaving. \<open>echo_conn\<close> is the
  invariant of one connection, \<open>echo_world\<close> that of all of them with the tasks of all loops.
\<close>

section \<open>One connection\<close>

definition echoed :: "tcp_conn \<Rightarrow> char list" where
  "echoed c = wire (sock_hist c) @ content (outputBuffer c)"

definition echo_conn :: "tcp_conn \<Rightarrow> bool" where
  "echo_conn c \<longleftrightarrow> echo_profile (prof c) \<and>
     (conn_state c = kConnecting \<longrightarrow> sock_hist c = [] \<and> content (inputBuffer c) = [] \<and> content (outputBuffer c) = []) \<and>
     (reset_free (sock_hist c) \<longrightarrow> prefix (echoed c) (received (sock_hist c)) \<and>
        (conn_state c = kConnected \<longrightarrow> echoed c = received (sock_hist c) \<and> content (inputBuffer c) = []))"

lemma echo_conn_inv:
  assumes "conn_state (conn s) \<noteq> kConnecting"
  shows "echo_conn (conn s) \<longleftrightarrow> echo_profile (profile_of s) \<and> echo_inv (abs_conn s)"
  using assms by (auto simp: echo_conn_def echo_inv_def echoed_def prof_of abs_conn_def stream_def)

text \<open>What the loop of the echo server does to a connection.\<close>

fun echo_event :: "StateE \<Rightarrow> conn_event \<Rightarrow> bool" where
  "echo_event st (Invoke cb now) \<longleftrightarrow> st \<noteq> kConnecting"
| "echo_event st (Task (F_connectEstablished i)) \<longleftrightarrow> st = kConnecting"
| "echo_event st (Task (F_connectDestroyed i)) \<longleftrightarrow> st \<noteq> kConnecting"
| "echo_event st e \<longleftrightarrow> False"

definition echo_after :: "cstate \<Rightarrow> cstate \<Rightarrow> bool" where
  "echo_after s t \<longleftrightarrow> echo_conn (conn t) \<and> conn_state (conn t) \<noteq> kConnecting \<and> keeps s t \<and>
     pendingFunctors (cloop t) = pendingFunctors (cloop s)"

lemma echo_conn_step:
  assumes os: "env_ok os" and ok: "conn_ok tid s" and echo: "echo_conn (conn s)" and e: "echo_event (conn_state (conn s)) e"
  shows "safely (conn_step os tid e s) (echo_after s)"
proof -
  let ?p = "profile_of s" and ?a = "abs_conn s" and ?iov = "readFd_iov (inputBuffer (conn s))"
  have p: "profile_ok ?p" "implements ?p tid ?a s" using ok by (simp_all add: conn_ok_def)
  have prof: "echo_profile ?p" using echo by (simp add: echo_conn_def prof_of)
  have state: "astate ?a = conn_state (conn s)" by (simp add: abs_conn_def)
  have ev: "event_ok ?p (strings s) (astate ?a) e" "loop_event e" using e unfolding state
    by (cases "(conn_state (conn s), e)" rule: echo_event.cases; simp)+
  have run: "safely (conn_step os tid e s) (implements ?p tid (a_step os ?p (strings s) ?iov e ?a))"
    by (rule conn_step_implements[OF os p ev(1)])
  let ?b = "a_step os ?p (strings s) ?iov e ?a"
  have "reports ?p ?a ?b" using ev by (intro told.R_step) simp_all
  moreover have "\<not> notification ?p F" for F using prof by (cases F) (simp_all add: echo_profile_def)
  ultimately have b: "atasks ?b = atasks ?a" by (auto simp: reports_def list_all_iff)
  have inv: "echo_inv ?b"
  proof (cases "conn_state (conn s) = kConnecting")
    case True
    then obtain i where "e = Task (F_connectEstablished i)" using e by (cases "(conn_state (conn s), e)" rule: echo_event.cases) auto
    then have "?b = ?a\<lparr>astate := kConnected\<rparr>" by (simp add: a_established_def echo_notify[OF prof])
    with True echo show ?thesis by (simp add: echo_inv_def echo_conn_def abs_conn_def stream_def)
  next
    case False
    then have "echo_inv ?a" using echo echo_conn_inv by blast
    moreover have "io_event e" using e False by (cases "(conn_state (conn s), e)" rule: echo_event.cases) auto
    ultimately show ?thesis by (intro echo_inv_step[OF env_okD(2)[OF os] prof])
  qed
  show ?thesis
  proof (rule safely_mono[OF run])
    fix t
    assume t: "conn_step os tid e s = Inr t" "implements ?p tid ?b t"
    then have abs: "abs_conn t = ?b" "profile_of t = ?p" by (simp_all add: implements_def stands_def)
    have "conn_state (conn t) = astate ?b" "pendingFunctors (cloop t) = atasks ?b" unfolding abs(1)[symmetric] by (simp_all add: abs_conn_def)
    moreover from this inv have "conn_state (conn t) \<noteq> kConnecting" by (simp add: echo_inv_def)
    moreover from this inv abs prof have "echo_conn (conn t)" by (simp add: echo_conn_inv)
    moreover have "keeps s t" by (rule ends_D[OF conn_step_keeps[OF keeps_refl] t(1)])
    ultimately show "echo_after s t" using b by (simp add: echo_after_def abs_conn_def)
  qed
qed

section \<open>All connections and their tasks\<close>

fun plain :: "Functor \<Rightarrow> bool" where
  "plain (F_connectEstablished i) = True"
| "plain (F_connectDestroyed i) = True"
| "plain (F_removeConnectionInLoop i) = True"
| "plain _ = False"

text \<open>The connections of \<open>X\<close> are about to be established: their task need not be queued.\<close>

definition echo_but :: "nat set \<Rightarrow> (ptr \<Rightarrow> Functor list) \<Rightarrow> world \<Rightarrow> bool" where
  "echo_but X run w \<longleftrightarrow>
     server_callbacks (srv w) = (Some EchoServer_onConnection, Some EchoServer_onMessage, None) \<and>
     (\<forall>i c. wconns w i = Some c \<longrightarrow> echo_conn c \<and>
        (i \<notin> X \<longrightarrow> conn_state c = kConnecting \<longrightarrow> F_connectEstablished i \<in> set (v_queue (view_at run w) (conn_loop c)))) \<and>
     (\<forall>p. \<forall>F \<in> set (v_queue (view_at run w) p). plain F)"

abbreviation "echo_world \<equiv> echo_but {}"

lemma echo_worldD:
  assumes "echo_but X run w"
  shows "wconns w i = Some c \<Longrightarrow> echo_conn c"
    "wconns w i = Some c \<Longrightarrow> i \<notin> X \<Longrightarrow> conn_state c = kConnecting \<Longrightarrow> F_connectEstablished i \<in> set (v_queue (view_at run w) (conn_loop c))"
    "F \<in> set (v_queue (view_at run w) p) \<Longrightarrow> plain F"
  using assms by (auto simp: echo_but_def)

text \<open>What happens besides: tasks of those three kinds are queued, the map changes.\<close>

definition calm :: "world \<Rightarrow> world \<Rightarrow> bool" where
  "calm w w' \<longleftrightarrow> wconns w' = wconns w \<and> server_callbacks (srv w') = server_callbacks (srv w) \<and>
     (\<forall>p. \<exists>N. (\<forall>F \<in> set N. plain F) \<and>
        map_option pendingFunctors (wloops w' p) = map_option (\<lambda>L. pendingFunctors L @ N) (wloops w p))"

lemma calm_refl: "calm w w"
  by (auto simp: calm_def intro!: exI[of _ "[]"])

lemma calm_trans:
  assumes "calm w x" and "calm x y"
  shows "calm w y"
proof -
  have "\<exists>N. (\<forall>F \<in> set N. plain F) \<and> map_option pendingFunctors (wloops y p) = map_option (\<lambda>L. pendingFunctors L @ N) (wloops w p)" for p
  proof -
    obtain N where N: "\<forall>F \<in> set N. plain F" "map_option pendingFunctors (wloops x p) = map_option (\<lambda>L. pendingFunctors L @ N) (wloops w p)"
      using assms(1) by (auto simp: calm_def)
    obtain N' where N': "\<forall>F \<in> set N'. plain F" "map_option pendingFunctors (wloops y p) = map_option (\<lambda>L. pendingFunctors L @ N') (wloops x p)"
      using assms(2) by (auto simp: calm_def)
    have "map_option pendingFunctors (wloops y p) = map_option (\<lambda>L. pendingFunctors L @ N @ N') (wloops w p)"
      using N(2) N'(2) by (cases "wloops w p"; cases "wloops x p") auto
    with N(1) N'(1) show ?thesis by (intro exI[of _ "N @ N'"]) auto
  qed
  with assms show ?thesis by (simp add: calm_def)
qed

lemma calm_queue: "wloops w p = Some L \<Longrightarrow> plain F \<Longrightarrow> calm w (upd_loop_at p (queueInLoop tid F) w)"
  by (auto simp: calm_def get_loop_def intro: exI[of _ "[]"] exI[of _ "[F]"])

lemma calm_connections: "calm w (upd_srv (\<lambda>S. S\<lparr>connections := f S\<rparr>) w)"
  by (auto simp: calm_def server_callbacks_def intro!: exI[of _ "[]"])

lemma removeConnectionInLoop_calm:
  assumes "calm u w"
  shows "ends (TcpServer_removeConnectionInLoop tid i w) (calm u)"
proof -
  have "ends (queue_in_loop_at p tid (F_connectDestroyed i) (upd_srv (\<lambda>S. S\<lparr>connections := f S\<rparr>) w)) (calm u)" for p f
    using calm_trans[OF calm_trans[OF assms calm_connections] calm_queue]
    by (cases "wloops w p") (simp_all add: queue_in_loop_at_def loop_at_def)
  then show ?thesis unfolding TcpServer_removeConnectionInLoop_def by (rule ends_value)
qed

lemma removeConnection_calm:
  assumes "calm u w"
  shows "ends (TcpServer_removeConnection tid i w) (calm u)"
proof (cases "wloops w (srv_loop (srv w))")
  case None
  then show ?thesis by (simp add: TcpServer_removeConnection_def run_in_loop_at_def loop_at_def)
next
  case (Some L)
  with calm_trans[OF assms calm_queue[OF Some]] removeConnectionInLoop_calm[OF assms] show ?thesis
    by (simp add: TcpServer_removeConnection_def run_in_loop_at_def loop_at_Some runInLoop_def)
qed

lemma calm_view:
  assumes "calm w w'"
  shows "\<exists>N. (\<forall>F \<in> set N. plain F) \<and> v_queue (view_at run w') p = v_queue (view_at run w) p @ N"
proof -
  obtain N where N: "\<forall>F \<in> set N. plain F" "map_option pendingFunctors (wloops w' p) = map_option (\<lambda>L. pendingFunctors L @ N) (wloops w p)"
    using assms by (auto simp: calm_def)
  then show ?thesis
  proof (cases "wloops w p")
    case None
    with N show ?thesis by (intro exI[of _ "[]"]) (simp add: view_at_def)
  next
    case (Some L)
    with N obtain L' where "wloops w' p = Some L'" "pendingFunctors L' = pendingFunctors L @ N" by auto
    with Some N(1) show ?thesis by (intro exI[of _ N]) (simp add: view_at_def)
  qed
qed

lemma calm_echo:
  assumes "echo_but X run w" and "calm w w'"
  shows "echo_but X run w'"
proof -
  have same: "wconns w' = wconns w" "server_callbacks (srv w') = server_callbacks (srv w)" using assms(2) by (simp_all add: calm_def)
  have queue: "set (v_queue (view_at run w) p) \<subseteq> set (v_queue (view_at run w') p)"
    "\<And>F. F \<in> set (v_queue (view_at run w') p) \<Longrightarrow> F \<in> set (v_queue (view_at run w) p) \<or> plain F" for p
    using calm_view[OF assms(2), of run p] by auto
  from assms(1) same queue show ?thesis unfolding echo_but_def by (metis subsetD)
qed

lemma echo_all:
  assumes w: "echo_but {i} run w" and c: "F_connectEstablished i \<in> set (v_queue (view_at run w) (conn_loop c))" "wconns w i = Some c"
  shows "echo_world run w"
  unfolding echo_but_def
proof (intro conjI allI impI ballI)
  show "server_callbacks (srv w) = (Some EchoServer_onConnection, Some EchoServer_onMessage, None)"
    using w by (simp add: echo_but_def)
  fix j d assume d: "wconns w j = Some d"
  show "echo_conn d" by (rule echo_worldD(1)[OF w d])
  assume "conn_state d = kConnecting"
  with echo_worldD(2)[OF w d] c d show "F_connectEstablished j \<in> set (v_queue (view_at run w) (conn_loop d))" by (cases "j = i") auto
qed (rule echo_worldD(3)[OF w])

section \<open>One step\<close>

lemma on_conn_echo:
  assumes w: "echo_but {i} run w" and c: "wconns w i = Some c" "wloops w (conn_loop c) = Some L"
    and f: "safely (f (conn_in c L w)) (echo_after (conn_in c L w))" and total: "safely (on_conn tid i f w) (\<lambda>_. True)"
  shows "safely (on_conn tid i f w) (echo_world run)"
proof -
  have step: "echo_world run (w\<lparr>wconns := (wconns w)(i \<mapsto> conn t), wloops := (wloops w)(conn_loop c \<mapsto> cloop t)\<rparr>)" (is "echo_world run ?w")
    if t: "echo_after (conn_in c L w) t" for t
  proof -
    have queue: "v_queue (view_at run ?w) p = v_queue (view_at run w) p" for p
      using t c(2) by (simp add: view_at_def echo_after_def)
    show ?thesis
      using w t unfolding echo_but_def queue by (auto simp: echo_after_def)
  qed
  have "ends (on_conn tid i f w) (echo_world run)"
  proof (cases "f (conn_in c L w)")
    case (Inr t)
    have t: "echo_after (conn_in c L w) t" using f Inr by simp
    have "ends (foldR (TcpServer_removeConnection tid) (upcalls t)
        (w\<lparr>wconns := (wconns w)(i \<mapsto> conn t), wloops := (wloops w)(conn_loop c \<mapsto> cloop t)\<rparr>))
        (calm (w\<lparr>wconns := (wconns w)(i \<mapsto> conn t), wloops := (wloops w)(conn_loop c \<mapsto> cloop t)\<rparr>))"
      by (intro ends_foldR removeConnection_calm calm_refl)
    from ends_mono[OF this calm_echo[OF step[OF t]]] show ?thesis
      using c Inr by (simp add: on_conn_def conn_at_Some loop_at_Some)
  qed (use c in \<open>simp add: on_conn_def conn_at_Some loop_at_Some\<close>)
  from safely_ends[OF total this] show ?thesis by simp
qed

text \<open>A task has left the batch.\<close>

lemma pop_echo:
  assumes w: "echo_world run w" and Q: "run p = F # Q" and L: "wloops w p = Some L"
  shows "echo_but {i. F = F_connectEstablished i} (run(p := Q)) w" "plain F"
proof -
  have queue: "set (v_queue (view_at run w) q) \<subseteq> insert F (set (v_queue (view_at (run(p := Q)) w) q))"
    "set (v_queue (view_at (run(p := Q)) w) q) \<subseteq> set (v_queue (view_at run w) q)" for q
    using Q by (auto simp: view_at_def)
  show "echo_but {i. F = F_connectEstablished i} (run(p := Q)) w"
    unfolding echo_but_def
  proof (intro conjI allI impI ballI)
    show "server_callbacks (srv w) = (Some EchoServer_onConnection, Some EchoServer_onMessage, None)"
      using w by (simp add: echo_but_def)
    fix i c assume c: "wconns w i = Some c"
    show "echo_conn c" by (rule echo_worldD(1)[OF w c])
    assume "i \<notin> {i. F = F_connectEstablished i}" "conn_state c = kConnecting"
    with echo_worldD(2)[OF w c] queue(1)[of "conn_loop c"]
    show "F_connectEstablished i \<in> set (v_queue (view_at (run(p := Q)) w) (conn_loop c))" by auto
  next
    fix q G assume "G \<in> set (v_queue (view_at (run(p := Q)) w) q)"
    with queue(2)[of q] show "plain G" by (intro echo_worldD(3)[OF w]) blast
  qed
  have "F \<in> set (v_queue (view_at run w) p)" using Q view_queue[OF L] by simp
  then show "plain F" by (rule echo_worldD(3)[OF w])
qed

lemma task_echo:
  assumes os: "env_ok os" and inv: "world_inv infra run w" and w: "echo_world run w" and Q: "run p = F # Q"
    and L: "wloops w p = Some L"
  shows "safely (world_functor os (threadId L) r F w) (echo_world (run(p := Q)))"
proof -
  let ?tid = "threadId L"
  note pop = pop_echo[OF w Q L]
  have total: "safely (world_functor os ?tid r F w) (\<lambda>_. True)" by (rule safely_mono[OF task_step_inv[OF os inv Q L]]) simp
  have conn: "safely (on_conn ?tid i (conn_functor os ?tid F) w) (echo_world (run(p := Q)))"
    if i: "about i F" "F \<noteq> F_removeConnectionInLoop i" "\<not> raw_this F" and F: "\<And>j. F = F_connectEstablished j \<Longrightarrow> j = i"
      and tot: "safely (on_conn ?tid i (conn_functor os ?tid F) w) (\<lambda>_. True)"
      and ev: "\<And>c P. in_phase (view_at run w) i c P \<Longrightarrow> p = conn_loop c \<Longrightarrow> echo_event (conn_state c) (Task F)" for i
  proof -
    obtain c where c: "wconns w i = Some c" "p = conn_loop c" and ph: "in_phase (view_at run w) i c (el_poller L)"
      using next_task[OF inv Q i(1) L] i(2) L by auto
    note Lc = L[unfolded c(2)]
    have "F \<in> set (v_queue (view_at run w) p)" using Q view_queue[OF L] by simp
    from pinned_conn_ok[OF inv c(1) Lc pinned_task[OF this i(1,3)]] have ok: "conn_ok ?tid (conn_in c L w)" .
    have "safely (conn_functor os ?tid F (conn_in c L w)) (echo_after (conn_in c L w))"
      using echo_conn_step[OF os ok, of "Task F"] echo_worldD(1)[OF w c(1)] ev[OF ph c(2)] by simp
    moreover have "echo_but {i} (run(p := Q)) w" using pop(1) F unfolding echo_but_def by blast
    ultimately show ?thesis by (intro on_conn_echo[OF _ c(1) Lc _ tot])
  qed
  show ?thesis
  proof (cases F)
    case (F_connectEstablished i)
    have ev: "conn_state c = kConnecting" if "in_phase (view_at run w) i c P" "p = conn_loop c" for c P
    proof -
      have "F_connectEstablished i \<in> set (v_queue (view_at run w) (conn_loop c))"
        using Q view_queue[OF L, of run] F_connectEstablished that(2) by simp
      from phaseD(1)[OF that(1)[unfolded in_phase_def] this] show ?thesis by simp
    qed
    have eq: "world_functor os ?tid r F w = on_conn ?tid i (conn_functor os ?tid F) w" unfolding F_connectEstablished world_functor.simps ..
    show ?thesis unfolding eq
    proof (rule conn)
      show "about i F" "F \<noteq> F_removeConnectionInLoop i" "\<not> raw_this F" by (simp_all add: F_connectEstablished)
      show "j = i" if "F = F_connectEstablished j" for j using that F_connectEstablished by simp
      show "safely (on_conn ?tid i (conn_functor os ?tid F) w) (\<lambda>_. True)" using total unfolding eq .
      show "echo_event (conn_state c) (Task F)" if "in_phase (view_at run w) i c P" "p = conn_loop c" for c P
        using ev[OF that] by (simp add: F_connectEstablished)
    qed
  next
    case (F_connectDestroyed i)
    have ev: "conn_state c = kDisconnected" if "in_phase (view_at run w) i c P" "p = conn_loop c" for c P
    proof -
      have "F_connectDestroyed i \<in> set (v_queue (view_at run w) (conn_loop c))"
        using Q view_queue[OF L, of run] F_connectDestroyed that(2) by simp
      with phaseD(2)[OF that(1)[unfolded in_phase_def]] show ?thesis by blast
    qed
    have eq: "world_functor os ?tid r F w = on_conn ?tid i (conn_functor os ?tid F) w" unfolding F_connectDestroyed world_functor.simps ..
    show ?thesis unfolding eq
    proof (rule conn)
      show "about i F" "F \<noteq> F_removeConnectionInLoop i" "\<not> raw_this F" by (simp_all add: F_connectDestroyed)
      show "j = i" if "F = F_connectEstablished j" for j using that F_connectDestroyed by simp
      show "safely (on_conn ?tid i (conn_functor os ?tid F) w) (\<lambda>_. True)" using total unfolding eq .
      show "echo_event (conn_state c) (Task F)" if "in_phase (view_at run w) i c P" "p = conn_loop c" for c P
        using ev[OF that] by (simp add: F_connectDestroyed)
    qed
  next
    case (F_removeConnectionInLoop i)
    have "echo_world (run(p := Q)) w" using pop(1) F_removeConnectionInLoop by simp
    from safely_ends[OF total[unfolded F_removeConnectionInLoop world_functor.simps]
        ends_mono[OF removeConnectionInLoop_calm[OF calm_refl] calm_echo[OF this]]]
    show ?thesis using F_removeConnectionInLoop by simp
  qed (use pop(2) in simp_all)
qed

text \<open>A callback of a channel that the poller knows.\<close>

lemma event_echo:
  assumes os: "env_ok os" and inv: "world_inv infra run w" and w: "echo_world run w"
    and c: "wconns w i = Some c" and L: "wloops w (conn_loop c) = Some L" and reg: "registered c (el_poller L)"
  shows "safely (on_conn (threadId L) i (conn_invoke os (threadId L) cb now) w) (echo_world run)"
proof -
  note held = registered_held[OF inv c L reg]
  have "conn_state c \<noteq> kConnecting" using echo_worldD(2)[OF w c] held(3) by blast
  then have "safely (conn_invoke os (threadId L) cb now (conn_in c L w)) (echo_after (conn_in c L w))"
    using echo_conn_step[OF os pinned_conn_ok[OF inv c L held(2)], of "Invoke cb now"] echo_worldD(1)[OF w c] by simp
  moreover have "echo_but {i} run w" using w unfolding echo_but_def by blast
  moreover have "safely (on_conn (threadId L) i (conn_invoke os (threadId L) cb now) w) (\<lambda>_. True)"
    by (rule safely_mono[OF event_inv[OF os inv c L reg]]) simp
  ultimately show ?thesis by (intro on_conn_echo[OF _ c L])
qed

text \<open>A new connection.\<close>

lemma new_conn_echo:
  assumes "new_conn S c" and "server_callbacks S = (Some EchoServer_onConnection, Some EchoServer_onMessage, None)"
  shows "echo_conn c"
  using assms by (simp add: new_conn_def server_callbacks_def echo_conn_def echo_profile_def prof_def echoed_def)

lemma newConnection_echo:
  assumes os: "env_ok os" and inv: "world_inv infra run w" and echo: "echo_world run w"
    and new: "wconns w obj = None" "fresh_ptr cp w" "fresh_fd infra fd (view_at run w)"
    and L0: "wloops w (srv_loop (srv w)) = Some L0" "threadId L0 = tid" and ids: "nextConnId (srv w) < 2147483647"
  shows "safely (TcpServer_newConnection os tid obj cp gs fd peer w) (echo_world run)"
proof -
  obtain io L c w2 where run: "TcpServer_newConnection os tid obj cp gs fd peer w = establish os tid io obj w2"
    and w2: "world_inv infra run w2" "obj \<in> v_map (view_at run w2)"
    and new_c: "new_conn (srv w) c" and c: "conn_loop c = io" and io: "wloops w2 io = Some L"
    and conns: "wconns w2 = (wconns w)(obj \<mapsto> c)" and queue: "v_queue (view_at run w2) = v_queue (view_at run w)"
    and cbs: "server_callbacks (srv w2) = server_callbacks (srv w)"
    by (rule newConnection_adds[OF inv new L0 ids, of os gs peer])
  have c2: "wconns w2 obj = Some c" "conn_state c = kConnecting" using conns new_c by (simp_all add: new_conn_def)
  have "server_callbacks (srv w) = (Some EchoServer_onConnection, Some EchoServer_onMessage, None)"
    using echo by (simp add: echo_but_def)
  note echo_c = new_conn_echo[OF new_c this]
  have echo2: "echo_but {obj} run w2" using echo echo_c unfolding echo_but_def conns queue cbs by simp
  show ?thesis
  proof (cases "threadId L = tid")
    case True
    have L: "wloops w2 (conn_loop c) = Some L" using io c by simp
    have "F_connectEstablished obj \<notin> set (v_queue (view_at run w2) (conn_loop c))"
      using no_task_yet[OF inv new(1)] unfolding queue by fastforce
    then have total: "safely (on_conn tid obj (connectEstablished os tid) w2) (\<lambda>_. True)"
      using safely_mono[OF established_inv[OF os w2(1) c2(1) w2(2) c2(2) L], of "\<lambda>_. True"] True by simp
    have "safely (connectEstablished os tid (conn_in c L w2)) (echo_after (conn_in c L w2))"
      using echo_conn_step[OF os pinned_conn_ok[OF w2(1) c2(1) L pinned_map[OF w2(2)]], of "Task (F_connectEstablished obj)"]
        echo_c c2(2) True by simp
    from on_conn_echo[OF echo2 c2(1) L this total] show ?thesis unfolding run run_here[OF io True] .
  next
    case False
    let ?w = "upd_loop_at io (queueInLoop tid (F_connectEstablished obj)) w2"
    have "echo_but {obj} run ?w" by (rule calm_echo[OF echo2 calm_queue[OF io]]) simp
    moreover have "F_connectEstablished obj \<in> set (v_queue (view_at run ?w) (conn_loop c))"
      unfolding view_queue_task[OF io] by (simp add: c)
    moreover have "wconns ?w obj = Some c" using c2(1) by simp
    ultimately have "echo_world run ?w" by (rule echo_all)
    then show ?thesis unfolding run run_elsewhere[OF io False] by simp
  qed
qed

section \<open>Every action of the server\<close>

text \<open>What \<open>main\<close> has no code for: another thread of the program that sends or shuts down.\<close>

fun own :: "action \<Rightarrow> bool" where
  "own (SendFrom tid i addr msg) = False"
| "own (ShutdownFrom tid i) = False"
| "own a = True"

lemma echo_same:
  assumes "echo_world run w" and "v_queue (view_at run' w') = v_queue (view_at run w)" and "wconns w' = wconns w" and "srv w' = srv w"
  shows "echo_world run' w'"
  using assms(1) unfolding echo_but_def assms(2-4) .

lemma loop_same_echo:
  assumes "echo_world run w" and "wloops w p = Some L" and "run' p @ pendingFunctors (f L) = run p @ pendingFunctors L"
    and "\<And>q. q \<noteq> p \<Longrightarrow> run' q = run q"
  shows "echo_world run' (upd_loop_at p f w)"
proof (rule echo_same[OF assms(1)])
  show "v_queue (view_at run' (upd_loop_at p f w)) = v_queue (view_at run w)"
    using assms(2-4) by (auto simp: view_at_def get_loop_def fun_eq_iff)
qed simp_all

lemma drop_echo:
  assumes "echo_world run w"
  shows "ends (TcpConnection_delete i w) (echo_world run)"
  unfolding ends_def
proof (clarsimp split: sum.split)
  fix w' assume w': "TcpConnection_delete i w = Inr w'"
  have queue: "v_queue (view_at run w') = v_queue (view_at run w)" and srv: "srv w' = srv w" and conns: "wconns w' = (wconns w)(i := None)"
    using w' by (auto simp: TcpConnection_delete_Inr view_at_def Channel_delete_def fun_eq_iff)
  show "echo_world run w'" using assms unfolding echo_but_def queue srv conns by simp
qed

lemma acceptable_echo:
  assumes os: "env_ok os" and inv: "reactor_inv infra s" and echo: "echo_world (running s) (rw s)"
    and en: "enabled infra (Accept tid (fd, peer) obj cp gs) s"
  shows "safely (TcpServer_acceptable os tid (fd, peer) obj cp gs (rw s)) (echo_world (running s))"
proof -
  note winv = conjunct1[OF inv[unfolded reactor_inv_def]] and finv = conjunct2[OF inv[unfolded reactor_inv_def]]
  let ?w = "rw s\<lparr>open_fds := insert fd (open_fds (rw s))\<rparr>"
  have doc: "accept_doc infra fd obj cp (rw s)" and L: "in_thread (srv_loop (srv (rw s))) tid (rw s)" using en by simp_all
  obtain L0 where L0: "wloops ?w (srv_loop (srv ?w)) = Some L0" "threadId L0 = tid" using in_threadD[OF L] by auto
  have "safely (TcpServer_newConnection os tid obj cp gs fd peer ?w) (echo_world (running s))" if "0 \<le> fd"
  proof -
    have new: "fd \<notin> infra" "fd \<notin> open_fds (rw s)" "wconns ?w obj = None" "fresh_ptr cp ?w" "nextConnId (srv ?w) < 2147483647"
      using doc that by (simp_all add: accept_doc_def fresh_ptr_def)
    moreover have "echo_world (running s) ?w" by (rule echo_same[OF echo]) simp_all
    ultimately show ?thesis using newConnection_echo[OF os _ _ _ _ _ L0, of infra "running s"] fds_inv_fresh[OF finv] winv by simp
  qed
  then show ?thesis using echo world_invD(2)[OF winv] by (simp add: TcpServer_acceptable_cases server_inv_def)
qed

lemma echo_act:
  assumes os: "env_ok os" and inv: "reactor_inv infra s" and echo: "echo_world (running s) (rw s)" and en: "enabled infra a s" and "own a"
  shows "safely (act os a s) (\<lambda>t. echo_world (running t) (rw t))"
proof -
  note winv = conjunct1[OF inv[unfolded reactor_inv_def]]
  have lift: "safely (bindR m (\<lambda>w. Inr (s\<lparr>rw := w\<rparr>))) (\<lambda>t. echo_world (running t) (rw t))"
    if "safely m (echo_world (running s))" for m
    using that by simp
  show ?thesis
  proof (cases a)
    case (Accept tid answer obj cp gs)
    obtain fd peer where ans: "answer = (fd, peer)" by (cases answer)
    show ?thesis
      unfolding Accept ans act.simps by (rule lift[OF acceptable_echo[OF os inv echo en[unfolded Accept ans]]])
  next
    case (Swap p)
    then obtain L where L: "wloops (rw s) p = Some L" "running s p = []" using en by auto
    have "echo_world ((running s)(p := pendingFunctors (get_loop p (rw s))))
        (upd_loop_at p (\<lambda>L. L\<lparr>callingPendingFunctors := True, pendingFunctors := []\<rparr>) (rw s))"
      by (rule loop_same_echo[OF echo L(1)]) (use L in \<open>simp_all add: get_loop_def\<close>)
    then show ?thesis by (simp add: Swap)
  next
    case (RunTask p tid r)
    obtain L where L: "wloops (rw s) p = Some L" "tid = threadId L" using in_threadD[of p tid "rw s"] en RunTask by auto
    show ?thesis
    proof (cases "running s p")
      case Nil
      then show ?thesis using echo RunTask by simp
    next
      case (Cons F Q)
      with task_echo[OF os winv echo Cons L(1), of r] show ?thesis unfolding RunTask act.simps by (simp add: L(2))
    qed
  next
    case (FinishBatch p)
    then obtain L where L: "wloops (rw s) p = Some L" using en by auto
    have "echo_world (running s) (upd_loop_at p (\<lambda>L. L\<lparr>callingPendingFunctors := False\<rparr>) (rw s))"
      by (rule loop_same_echo[OF echo L]) simp_all
    then show ?thesis by (simp add: FinishBatch)
  next
    case (Poll p wait now)
    then obtain L where L: "wloops (rw s) p = Some L" "wait_doc wait (el_poller L)" using en by (auto split: option.splits)
    from poll_inv[OF winv L, of now] obtain P active where
      "EPollPoller_poll wait (el_poller (get_loop p (rw s)), []) = Inr (P, active)" by blast
    moreover have "echo_world (running s)
        (upd_loop_at p (\<lambda>L. L\<lparr>el_poller := P, activeChannels := active, pollReturnTime := now\<rparr>) (rw s))"
      by (rule loop_same_echo[OF echo L(1)]) simp_all
    ultimately show ?thesis by (simp add: Poll)
  next
    case (Event tid i cb now)
    then obtain c L where c: "wconns (rw s) i = Some c" "wloops (rw s) (conn_loop c) = Some L" "tid = threadId L"
        "registered c (el_poller L)"
      using en by (auto simp: in_thread_def split: option.splits)
    from event_echo[OF os winv echo c(1,2,4)] show ?thesis unfolding Event act.simps c(3) by (rule lift)
  next
    case (Woken p)
    then obtain L where L: "wloops (rw s) p = Some L" using en by auto
    have "echo_world (running s) (upd_loop_at p EventLoop_handleRead (rw s))"
      by (rule loop_same_echo[OF echo L]) (simp_all add: EventLoop_handleRead_def)
    then show ?thesis by (simp add: Woken)
  next
    case (Drop i)
    then obtain c where "wconns (rw s) i = Some c" "\<not> pinned (view_at (running s) (rw s)) i" using en by auto
    from drop_inv[OF winv this] have "safely (TcpConnection_delete i (rw s)) (\<lambda>_. True)" by (auto intro: safely_total)
    from safely_ends[OF this drop_echo[OF echo]] show ?thesis unfolding Drop act.simps by (intro lift) simp
  qed (use \<open>own a\<close> in simp_all)
qed

text \<open>The machine: from the idle server of \<open>echo_main_serves\<close> on, what its loops do.\<close>

inductive echo_step :: "os \<Rightarrow> fd set \<Rightarrow> reactor \<Rightarrow> reactor \<Rightarrow> bool" for os :: os and infra :: "fd set" where
  echo_acts: "own a \<Longrightarrow> enabled infra a s \<Longrightarrow> act os a s = Inr t \<Longrightarrow> echo_step os infra s t"

inductive_cases echo_stepE: "echo_step os infra s t"

definition echo_reactor :: "fd set \<Rightarrow> reactor \<Rightarrow> bool" where
  "echo_reactor infra s \<longleftrightarrow> reactor_inv infra s \<and> echo_world (running s) (rw s)"

lemma echo_idle_inv:
  assumes "echo_idle infra s"
  shows "echo_reactor infra s"
proof -
  have "v_queue (view_at (running s) (rw s)) p = []" for p
    using assms by (auto simp: echo_idle_def server_idle_def idle_loop_def view_at_def split: option.split)
  with assms have "echo_world (running s) (rw s)" by (simp add: echo_but_def echo_idle_def server_idle_def)
  with assms server_idle_inv show ?thesis by (simp add: echo_reactor_def echo_idle_def)
qed

interpretation echoing: safe_machine "echo_idle infra" "echo_step os infra" "\<lambda>s. env_ok os \<longrightarrow> echo_reactor infra s" for infra os
proof
  show "env_ok os \<longrightarrow> echo_reactor infra s" if "echo_idle infra s" for s using echo_idle_inv[OF that] by simp
  show "env_ok os \<longrightarrow> echo_reactor infra t" if "env_ok os \<longrightarrow> echo_reactor infra s" "echo_step os infra s t" for s t
  proof
    assume os: "env_ok os"
    from that(2) obtain a where a: "own a" "enabled infra a s" "act os a s = Inr t" by (rule echo_stepE)
    have inv: "reactor_inv infra s" "echo_world (running s) (rw s)" using that(1) os by (simp_all add: echo_reactor_def)
    from act_inv[OF os inv(1) a(2)] echo_act[OF os inv a(2,1)] a(3) show "echo_reactor infra t" by (simp add: echo_reactor_def)
  qed
qed

section \<open>A connection that has come up\<close>

text \<open>An echo server with the base loop alone accepts connection 50.\<close>

definition sample_echo :: reactor where
  "sample_echo = \<lparr>rw = (upd_srv (\<lambda>S. S\<lparr>threadPool := \<lparr>baseLoop = 1, pool_name = ''echo'', pool_started = True, numThreads = 0,
        pool_next = 0, threads = [], loops = []\<rparr>,
      srv_connectionCallback := Some EchoServer_onConnection, srv_messageCallback := Some EchoServer_onMessage\<rparr>) sample_world)
        \<lparr>wloops := [1 \<mapsto> sample_loop]\<rparr>, running = (\<lambda>_. [])\<rparr>"

lemma sample_echo_idle: "echo_idle {4, 6} sample_echo"
  by (auto simp: echo_idle_def server_idle_def idle_loop_def sample_echo_def sample_world_def upd_srv_def loops_ok_def callbacks_ok_def
      pool_ok_def loop_in_turn_def sample_acceptor_def server_callbacks_def EchoServer_onConnection_def EchoServer_onMessage_def
      split: if_splits)

lemma sample_echo_accepts:
  "\<exists>s c L. reach (echo_idle {4, 6}) (echo_step sample_os {4, 6}) s \<and> wconns (rw s) 50 = Some c \<and> conn_state c = kConnected \<and>
     sock_hist c = [] \<and> wloops (rw s) (conn_loop c) = Some L \<and> threadId L = 100 \<and> registered c (el_poller L)"
proof -
  let ?w = "rw sample_echo\<lparr>open_fds := {12}\<rparr>"
  have start: "reach (echo_idle {4, 6}) (echo_step sample_os {4, 6}) sample_echo" by (rule reach_init[where init = "echo_idle {4, 6}", OF sample_echo_idle])
  have inv: "reactor_inv {4, 6} sample_echo" "echo_world (running sample_echo) (rw sample_echo)"
    using echo_idle_inv[OF sample_echo_idle] by (simp_all add: echo_reactor_def)
  have world: "srv_loop (srv ?w) = 1" "wloops ?w = [1 \<mapsto> sample_loop]" "open_fds (rw sample_echo) = {}" "wconns ?w = Map.empty"
    "nextConnId (srv ?w) = 1" "newConnectionCallback (srv_acceptor (srv ?w))"
    by (simp_all add: sample_echo_def sample_world_def upd_srv_def sample_acceptor_def)
  have fresh: "fresh_ptr 70 ?w" "fresh_fd {4, 6} 12 (view_at (running sample_echo) ?w)"
    using world by (auto simp: fresh_ptr_def fresh_fd_def split: if_splits)
  have en: "enabled {4, 6} sample_accept sample_echo"
    using world fresh by (simp add: in_thread_def accept_doc_def fresh_ptr_def)
  have inv': "world_inv {4, 6} (running sample_echo) ?w" using inv(1) by (simp add: reactor_inv_def)
  obtain io L c w2 where run: "TcpServer_newConnection sample_os 100 50 70 None 12 zero_addr ?w = establish sample_os 100 io 50 w2"
    and w2: "world_inv {4, 6} (running sample_echo) w2" "50 \<in> v_map (view_at (running sample_echo) w2)"
    and c: "new_conn (srv ?w) c" "conn_loop c = io" and L: "wloops w2 io = Some L" "map_option threadId (wloops ?w io) = Some (threadId L)"
    and conns: "wconns w2 = (wconns ?w)(50 \<mapsto> c)"
    by (rule newConnection_adds[OF inv' _ fresh, of 50 sample_loop 100 sample_os None zero_addr]) (use world in auto)
  show ?thesis
  proof -
    have tid: "threadId L = 100" using L(2) world(2) by (auto split: if_splits)
    have L': "wloops w2 (conn_loop c) = Some L" using L(1) c(2) by simp
    have c2: "wconns w2 50 = Some c" "connectionCallback c = Some (\<lambda>_. [])" "conn_state c = kConnecting" "sock_hist c = []"
      using conns c(1) by (simp_all add: new_conn_def sample_echo_def EchoServer_onConnection_def fun_eq_iff)
    have ok: "conn_ok 100 (conn_in c L w2)" using pinned_conn_ok[OF w2(1) c2(1) L' pinned_map[OF w2(2)]] tid by simp
    obtain P where P: "connectEstablished sample_os 100 (conn_in c L w2) =
        Inr (conn_in (c\<lparr>conn_state := kConnected\<rparr>) (L\<lparr>el_poller := P\<rparr>) w2)" "channelMap P (sockfd c) = Some (conn_channel c)"
      using established_silent[OF sample_os_doc(3) ok] c2(2) by (auto simp: setState_def upd_conn_def)
    let ?w3 = "w2\<lparr>wconns := (wconns w2)(50 \<mapsto> c\<lparr>conn_state := kConnected\<rparr>), wloops := (wloops w2)(io \<mapsto> L\<lparr>el_poller := P\<rparr>)\<rparr>"
    have "establish sample_os 100 io 50 w2 = Inr ?w3"
      using run_here[OF L(1) tid] c2(1) L' P(1) c(2) by (simp add: on_conn_def conn_at_Some loop_at_Some)
    then have "act sample_os sample_accept sample_echo = Inr (sample_echo\<lparr>rw := ?w3\<rparr>)"
      using run world(3,6) by (simp add: TcpServer_acceptable_cases)
    from reach_step[OF start echo_acts[OF _ en this]] have "reach (echo_idle {4, 6}) (echo_step sample_os {4, 6}) (sample_echo\<lparr>rw := ?w3\<rparr>)" by simp
    with c2 c(2) tid P(2) show ?thesis by (intro exI[of _ "sample_echo\<lparr>rw := ?w3\<rparr>"]) (simp add: registered_def)
  qed
qed

text \<open>The connection of \<open>on_conn\<close> afterwards: closing does not touch it.\<close>

lemma on_conn_leaves:
  assumes "on_conn tid i f w = Inr w'" and "wconns w i = Some c" and "wloops w (conn_loop c) = Some L"
  shows "\<exists>t. f (conn_in c L w) = Inr t \<and> wconns w' i = Some (conn t)"
proof -
  obtain t where t: "f (conn_in c L w) = Inr t" "foldR (TcpServer_removeConnection tid) (upcalls t)
      (w\<lparr>wconns := (wconns w)(i \<mapsto> conn t), wloops := (wloops w)(conn_loop c \<mapsto> cloop t)\<rparr>) = Inr w'"
    using assms by (auto simp: on_conn_def conn_at_Some loop_at_Some bindR_Inr_iff)
  have "calm (w\<lparr>wconns := (wconns w)(i \<mapsto> conn t), wloops := (wloops w)(conn_loop c \<mapsto> cloop t)\<rparr>) w'"
    by (rule ends_D[OF _ t(2)]) (intro ends_foldR removeConnection_calm calm_refl)
  with t(1) show ?thesis by (simp add: calm_def)
qed

text \<open>What the sample system does to an echo connection that has just come up and is readable.\<close>

lemma sample_echo_read:
  assumes "echo_profile p" and "4 \<le> sum_list iov"
  shows "a_read sample_os p iov now \<lparr>astate = kConnected, ahist = [], abacklog = [], ainput = [], atasks = Q, anotices = us\<rparr> =
    \<lparr>astate = kConnected, ahist = [Wrote ''ping'' (SysOk 4), Got iov (SysOk ''ping'')], abacklog = [], ainput = [], atasks = Q, anotices = us\<rparr>"
  using assms by (simp add: a_read_def sample_os_def echo_profile_def EchoServer_onMessage_def a_script_def a_send_def a_push_def)

section \<open>Properties\<close>

text \<open>C12: The echo server echoes, whatever its loops do. From the idle server that main brings to its
  loop(), through every interleaving of accepting, polling, callbacks, tasks and freeing, each
  connection that no write found reset has put on the wire, or holds in its output buffer, a prefix
  of the bytes that it received, in order and unchanged; and all of them while it is connected.\<close>

theorem echo_server_end_to_end:
  assumes "env_ok os" and "reach (echo_idle infra) (echo_step os infra) s"
    and "wconns (rw s) i = Some c" and "reset_free (sock_hist c)"
  shows "prefix (echoed c) (received (sock_hist c)) \<and>
    (conn_state c = kConnected \<longrightarrow> echoed c = received (sock_hist c) \<and> content (inputBuffer c) = [])"
proof -
  have "echo_world (running s) (rw s)" using echoing.reach_inv[OF assms(2)] assms(1) by (simp add: echo_reactor_def)
  from echo_worldD(1)[OF this assms(3)] assms(4) show ?thesis by (simp add: echo_conn_def)
qed

theorem echo_server_end_to_end_witness:
  "\<exists>s. reach (echo_idle {4, 6}) (echo_step sample_os {4, 6}) s \<and>
     (case act sample_os (Event 100 50 (ConnHandleRead 50) 0) s of
        Inl err \<Rightarrow> err = Throw ''length_error''
      | Inr t \<Rightarrow> \<exists>c. wconns (rw t) 50 = Some c \<and> received (sock_hist c) = ''ping'' \<and> echoed c = ''ping'')"
proof -
  obtain s c L where s: "reach (echo_idle {4, 6}) (echo_step sample_os {4, 6}) s" and c: "wconns (rw s) 50 = Some c"
    "conn_state c = kConnected" "sock_hist c = []" and L: "wloops (rw s) (conn_loop c) = Some L" "threadId L = 100"
    and reg: "registered c (el_poller L)"
    using sample_echo_accepts by blast
  note inv = echoing.reach_inv[OF s, THEN mp, OF sample_env, unfolded echo_reactor_def]
  then have winv: "world_inv {4, 6} (running s) (rw s)" by (simp add: reactor_inv_def)
  let ?s = "conn_in c L (rw s)"
  have empty: "content (outputBuffer c) = []" "content (inputBuffer c) = []"
    using echo_server_end_to_end[OF sample_env s c(1)] c(2,3) by (simp_all add: echoed_def)
  have abs: "abs_conn ?s = \<lparr>astate = kConnected, ahist = [], abacklog = [], ainput = [], atasks = pendingFunctors L, anotices = []\<rparr>"
    using c empty by (simp add: abs_conn_def)
  have ok: "conn_ok 100 ?s" using pinned_conn_ok[OF winv c(1) L(1) registered_held(2)[OF winv c(1) L(1) reg]] L(2) by simp
  have prof: "echo_profile (profile_of ?s)" using echo_worldD(1)[OF conjunct2[OF inv] c(1)] by (simp add: echo_conn_def prof_of)
  have run: "safely (conn_invoke sample_os 100 (ConnHandleRead 50) 0 ?s) (\<lambda>t. sock_hist (conn t) =
      [Wrote ''ping'' (SysOk 4), Got (readFd_iov (inputBuffer c)) (SysOk ''ping'')] \<and> conn_state (conn t) = kConnected)"
  proof -
    let ?iov = "readFd_iov (inputBuffer c)"
    have "4 \<le> sum_list ?iov" by (simp add: readFd_iov_def Let_def)
    note read = sample_echo_read[OF prof this, of 0 "pendingFunctors L" "[]"]
    have "safely (conn_step sample_os 100 (Invoke (ConnHandleRead 50) 0) ?s)
        (implements (profile_of ?s) 100 (a_read sample_os (profile_of ?s) ?iov 0 (abs_conn ?s)))"
      using conn_step_implements[OF sample_env _ _, of "profile_of ?s" 100 "abs_conn ?s" ?s "Invoke (ConnHandleRead 50) 0"] ok
      by (simp add: conn_ok_def)
    then have "safely (conn_invoke sample_os 100 (ConnHandleRead 50) 0 ?s)
        (implements (profile_of ?s) 100 (a_read sample_os (profile_of ?s) ?iov 0 (abs_conn ?s)))"
      by simp
    then show ?thesis unfolding abs read by (rule safely_mono) (simp add: implements_def stands_def abs_conn_def)
  qed
  have en: "enabled {4, 6} (Event 100 50 (ConnHandleRead 50) 0) s" using c(1) L reg by (auto simp: in_thread_def)
  show ?thesis
  proof (intro exI[of _ s] conjI s)
    show "case act sample_os (Event 100 50 (ConnHandleRead 50) 0) s of
        Inl err \<Rightarrow> err = Throw ''length_error''
      | Inr t \<Rightarrow> \<exists>c. wconns (rw t) 50 = Some c \<and> received (sock_hist c) = ''ping'' \<and> echoed c = ''ping''"
    proof (cases "act sample_os (Event 100 50 (ConnHandleRead 50) 0) s")
      case (Inl err)
      have "safely (act sample_os (Event 100 50 (ConnHandleRead 50) 0) s) (reactor_inv {4, 6})"
        using act_inv[OF sample_env _ en] inv by blast
      with Inl show ?thesis by simp
    next
      case (Inr t)
      then obtain w' where w': "on_conn 100 50 (conn_invoke sample_os 100 (ConnHandleRead 50) 0) (rw s) = Inr w'" "t = s\<lparr>rw := w'\<rparr>"
        by (auto simp: bindR_Inr_iff)
      obtain u where u: "conn_invoke sample_os 100 (ConnHandleRead 50) 0 ?s = Inr u" "wconns w' 50 = Some (conn u)"
        using on_conn_leaves[OF w'(1) c(1) L(1)] by blast
      have "reach (echo_idle {4, 6}) (echo_step sample_os {4, 6}) t" by (rule reach_step[OF s echo_acts[OF _ en Inr]]) simp
      from echo_server_end_to_end[OF sample_env this, of 50 "conn u"] w'(2) u(2) safely_Inr_D[OF run u(1)] Inr
      show ?thesis by simp
    qed
  qed
qed

end
